(* ===== verification/Prelude.thy ===== *)
theory Prelude
  imports Main "HOL-Library.Word"
begin

text \<open>
  What every component of the development shares.

  \<^item> C++ values: \<open>char\<close> arrays and \<open>std::string\<close> are lists of HOL's 8-bit \<open>char\<close>,
    \<open>uint32_t\<close> is \<open>u32\<close> and \<open>size_t\<close> is \<open>u64\<close> where its arithmetic can wrap, a
    natural number where it is the size of an object in memory.
  \<^item> Failures as values: an exception that leaves a function and undefined behaviour
    are the left side of a sum (\<open>result\<close>), so that every throw and every unchecked
    access of the source is a branch of the model.
  \<^item> The byte operations of the C++ standard library that the sources call
    (\<open>memcpy\<close>, \<open>memmove\<close>, \<open>vector::resize\<close>) with their bounds and overlap rules.
  \<^item> The lemmas on slices of lists, and on words read as naturals, that the component
    proofs share (\<open>segment_simps\<close>, \<open>unat_simps\<close>).
\<close>

section \<open>Values\<close>

type_synonym bytes = "char list"
type_synonym u32 = "32 word"
type_synonym u64 = "64 word"

text \<open>The two line terminators and the filler byte the protocols use.\<close>

abbreviation LF :: char where "LF \<equiv> CHR 0x0A"
abbreviation CR :: char where "CR \<equiv> CHR 0x0D"
abbreviation NUL :: char where "NUL \<equiv> CHR 0x00"

section \<open>Failures\<close>

datatype undefined_behaviour =
    Out_of_bounds      \<comment> \<open>an access outside the object\<close>
  | Memcpy_overlap     \<comment> \<open>\<open>memcpy\<close> between overlapping regions\<close>
  | Use_after_free     \<comment> \<open>an access to a destroyed object or a released buffer\<close>
  | Empty_container    \<comment> \<open>\<open>front\<close>, \<open>pop_front\<close> or \<open>*begin()\<close> of an empty container\<close>
  | Null_deref         \<comment> \<open>a member access through a null pointer\<close>
  | Modulo_zero        \<comment> \<open>an integer remainder by zero\<close>
  | Data_race          \<comment> \<open>unsynchronised calls on one object from two threads\<close>

datatype fault =
    Throws string
  | Undefined undefined_behaviour

type_synonym 'a result = "fault + 'a"

definition rbind :: "'a result \<Rightarrow> ('a \<Rightarrow> 'b result) \<Rightarrow> 'b result" where
  "rbind r f = (case r of Inl e \<Rightarrow> Inl e | Inr x \<Rightarrow> f x)"

lemma rbind_simps [simp]:
  "rbind (Inl e) f = Inl e"
  "rbind (Inr x) f = f x"
  by (simp_all add: rbind_def)

lemma rbind_Inr_iff: "rbind r f = Inr y \<longleftrightarrow> (\<exists>x. r = Inr x \<and> f x = Inr y)"
  by (cases r) auto

lemma rbind_Inl_iff: "rbind r f = Inl e \<longleftrightarrow> r = Inl e \<or> (\<exists>x. r = Inr x \<and> f x = Inl e)"
  by (cases r) auto

lemma rbind_cong [fundef_cong]:
  "r = r' \<Longrightarrow> (\<And>x. r' = Inr x \<Longrightarrow> f x = g x) \<Longrightarrow> rbind r f = rbind r' g"
  by (cases r') simp_all

section \<open>Slices\<close>

named_theorems segment_simps

definition segment :: "'a list \<Rightarrow> nat \<Rightarrow> nat \<Rightarrow> 'a list" where
  "segment xs i n = take n (drop i xs)"

definition overwrite :: "'a list \<Rightarrow> nat \<Rightarrow> 'a list \<Rightarrow> 'a list" where
  "overwrite xs i ys = take i xs @ ys @ drop (i + length ys) xs"

lemma length_segment [simp]: "length (segment xs i n) = min n (length xs - i)"
  by (simp add: segment_def)

lemma length_overwrite [simp]:
  "i + length ys \<le> length xs \<Longrightarrow> length (overwrite xs i ys) = length xs"
  by (simp add: overwrite_def)

lemma segment_0 [segment_simps]: "segment xs i 0 = []"
  by (simp add: segment_def)

lemma segment_from_0 [segment_simps]: "segment xs 0 n = take n xs"
  by (simp add: segment_def)

lemma segment_overwrite_same [segment_simps]:
  "i + length ys \<le> length xs \<Longrightarrow> n = length ys \<Longrightarrow> segment (overwrite xs i ys) i n = ys"
  by (simp add: segment_def overwrite_def)

lemma segment_overwrite_before [segment_simps]:
  "i + n \<le> j \<Longrightarrow> j + length ys \<le> length xs \<Longrightarrow>
   segment (overwrite xs j ys) i n = segment xs i n"
  by (simp add: segment_def overwrite_def drop_take)

lemma segment_add: "segment xs i (m + n) = segment xs i m @ segment xs (i + m) n"
  by (simp add: segment_def take_add add.commute)

lemma segment_append_overwrite [segment_simps]:
  assumes "i \<le> j" "j + length ys \<le> length xs" "n = j + length ys - i"
  shows "segment (overwrite xs j ys) i n = segment xs i (j - i) @ ys"
proof -
  have "segment (overwrite xs j ys) i (j - i) = segment xs i (j - i)"
    using assms by (simp add: segment_overwrite_before)
  moreover have "segment (overwrite xs j ys) j (length ys) = ys"
    using assms by (simp add: segment_overwrite_same)
  ultimately show ?thesis
    using assms(1,3) segment_add [of "overwrite xs j ys" i "j - i" "length ys"] by simp
qed

lemma segment_drop: "segment xs (i + k) (n - k) = drop k (segment xs i n)"
  by (simp add: segment_def drop_take add.commute)

lemma take_overwrite_0 [segment_simps]:
  "length ys \<le> length xs \<Longrightarrow> n = length ys \<Longrightarrow> take n (overwrite xs 0 ys) = ys"
  by (simp add: overwrite_def)

lemma take_overwrite_append:
  "j + length ys \<le> length xs \<Longrightarrow> take (j + length ys) (overwrite xs j ys) = take j xs @ ys"
  by (simp add: overwrite_def)

lemma takeWhile_until: "x \<notin> set xs \<Longrightarrow> takeWhile (\<lambda>c. c \<noteq> x) (xs @ x # ys) = xs"
  by (induction xs) auto

section \<open>Byte operations of the standard library\<close>

definition resize :: "bytes \<Rightarrow> nat \<Rightarrow> bytes" where
  "resize xs n = take n xs @ replicate (n - length xs) NUL"

lemma length_resize [simp]: "length (resize xs n) = n"
  by (simp add: resize_def)

lemma segment_resize [segment_simps]:
  "i + n \<le> length xs \<Longrightarrow> length xs \<le> m \<Longrightarrow> segment (resize xs m) i n = segment xs i n"
  by (simp add: segment_def resize_def)

text \<open>\<open>memcpy(buf + dst, data, n)\<close> from a separate object holding \<open>data\<close>.\<close>

definition memcpy_in :: "nat \<Rightarrow> bytes \<Rightarrow> bytes \<Rightarrow> bytes result" where
  "memcpy_in dst data buf =
     (if dst + length data \<le> length buf then Inr (overwrite buf dst data)
      else Inl (Undefined Out_of_bounds))"

text \<open>\<open>memcpy(buf + dst, buf + src, n)\<close> inside one object: the regions must not overlap.\<close>

definition memcpy_within :: "nat \<Rightarrow> nat \<Rightarrow> nat \<Rightarrow> bytes \<Rightarrow> bytes result" where
  "memcpy_within dst src n buf =
     (if src + n \<le> length buf \<and> dst + n \<le> length buf then
        (if n = 0 \<or> dst + n \<le> src \<or> src + n \<le> dst
         then Inr (overwrite buf dst (segment buf src n))
         else Inl (Undefined Memcpy_overlap))
      else Inl (Undefined Out_of_bounds))"

text \<open>\<open>memmove\<close> allows the overlap.\<close>

definition memmove_within :: "nat \<Rightarrow> nat \<Rightarrow> nat \<Rightarrow> bytes \<Rightarrow> bytes result" where
  "memmove_within dst src n buf =
     (if src + n \<le> length buf \<and> dst + n \<le> length buf
      then Inr (overwrite buf dst (segment buf src n))
      else Inl (Undefined Out_of_bounds))"

section \<open>Words as naturals\<close>

named_theorems unat_simps

lemma unat_of_nat_u32 [unat_simps]: "n < 2 ^ 32 \<Longrightarrow> unat (of_nat n :: u32) = n"
  by (simp add: unat_of_nat)

lemma unat_of_nat_u64 [unat_simps]: "n < 2 ^ 64 \<Longrightarrow> unat (of_nat n :: u64) = n"
  by (simp add: unat_of_nat)

lemma unat_add_u32 [unat_simps]:
  "unat a + unat b < 2 ^ 32 \<Longrightarrow> unat (a + b :: u32) = unat a + unat b"
  by (simp add: unat_word_ariths)

lemma unat_add_u64 [unat_simps]:
  "unat a + unat b < 2 ^ 64 \<Longrightarrow> unat (a + b :: u64) = unat a + unat b"
  by (simp add: unat_word_ariths)

lemma unat_sub_u32 [unat_simps]: "unat b \<le> unat a \<Longrightarrow> unat (a - b :: u32) = unat a - unat b"
  by (simp add: unat_sub word_le_nat_alt)

lemma unat_sub_u64 [unat_simps]: "unat b \<le> unat a \<Longrightarrow> unat (a - b :: u64) = unat a - unat b"
  by (simp add: unat_sub word_le_nat_alt)

lemma unat_ucast_u64 [unat_simps]: "unat (ucast (w :: u32) :: u64) = unat w"
proof -
  have "unat w < 2 ^ 64"
    using unsigned_less [of w, where ?'a = nat] by simp
  then show ?thesis
    by (simp add: unsigned_ucast_eq take_bit_nat_eq_self)
qed

lemma u32_bound [simp]: "unat (w :: u32) < 4294967296"
  using unsigned_less [of w] by simp

end
