(* ===== verification/Asio_Runtime.thy ===== *)
theory Asio_Runtime
  imports Prelude
begin

text \<open>
  What the programs rely on of asio, which is not part of the repository, and the
  vocabulary in which every asynchronous component is modelled.

  \<^item> An asynchronous operation (\<open>async_connect\<close>, \<open>async_read_some\<close>, \<open>async_write\<close>, a timer
    wait) is recorded as pending when it is initiated; its handler runs once, with a
    result that the environment chooses. \<open>asio::post\<close> records a task, which runs once.
    Nothing is assumed of the order in which handlers run, of the results, or of what a
    closed socket delivers: a component's step function takes them from the event.
  \<^item> A component is a record that extends \<open>aio\<close> by the fields of its class; its handlers
    are functions on that record; \<open>trace\<close> lists what the component did to the outside
    (calls of asio that the properties speak about, calls of the user's callbacks).
  \<^item> One step of a component is a function \<open>event \<Rightarrow> state \<Rightarrow> state outcome\<close>: a handler runs
    to its end and moves the state, fails (an exception or undefined behaviour), or is
    not enabled because no such operation is pending. The locales \<open>step_invariant\<close> and
    \<open>safe_invariant\<close> lift a fact about single steps to all runs and reachable states.
\<close>

section \<open>Error codes\<close>

text \<open>
  An \<open>asio::error_code\<close> is a value, a category and the message the library gives for
  them. The sources test it as a boolean (the value is not zero), compare its value
  alone with a number, and compare it with \<open>asio::error::eof\<close> (value 2 of the
  miscellaneous category) and \<open>asio::error::operation_aborted\<close> (a system error; the value
  is the POSIX one, and only its being neither 0 nor 2 matters).
\<close>

datatype error_category = System_category | Misc_category

record error_code =
  ec_value :: int
  ec_category :: error_category
  ec_message :: string

definition ec_ok :: "error_code \<Rightarrow> bool" where
  "ec_ok ec \<longleftrightarrow> ec_value ec = 0"

definition is_eof :: "error_code \<Rightarrow> bool" where
  "is_eof ec \<longleftrightarrow> ec_value ec = 2 \<and> ec_category ec = Misc_category"

definition is_aborted :: "error_code \<Rightarrow> bool" where
  "is_aborted ec \<longleftrightarrow> ec_value ec = 125 \<and> ec_category ec = System_category"

text \<open>Error codes for the examples.\<close>

definition success_code :: error_code where
  "success_code = \<lparr>ec_value = 0, ec_category = System_category, ec_message = ''Success''\<rparr>"

definition eof_code :: error_code where
  "eof_code = \<lparr>ec_value = 2, ec_category = Misc_category, ec_message = ''End of file''\<rparr>"

definition reset_code :: error_code where
  "reset_code = \<lparr>ec_value = 104, ec_category = System_category,
     ec_message = ''Connection reset by peer''\<rparr>"

definition refused_code :: error_code where
  "refused_code = \<lparr>ec_value = 111, ec_category = System_category,
     ec_message = ''Connection refused''\<rparr>"

definition aborted_code :: error_code where
  "aborted_code = \<lparr>ec_value = 125, ec_category = System_category,
     ec_message = ''Operation canceled''\<rparr>"

named_theorems ec_defs

lemmas [ec_defs] = ec_ok_def is_eof_def is_aborted_def success_code_def eof_code_def
  reset_code_def refused_code_def aborted_code_def

lemma ec_examples [simp]:
  "ec_value success_code = 0" "ec_value eof_code = 2" "ec_value reset_code = 104"
  "ec_value refused_code = 111" "ec_value aborted_code = 125"
  "ec_ok success_code" "\<not> ec_ok eof_code" "\<not> ec_ok reset_code" "\<not> ec_ok refused_code"
  "\<not> ec_ok aborted_code" "is_eof eof_code" "\<not> is_eof reset_code" "\<not> is_eof refused_code"
  "\<not> is_eof aborted_code" "is_aborted aborted_code" "\<not> is_aborted success_code"
  by (simp_all add: ec_defs)

section \<open>Pending operations, posted tasks, observations\<close>

record ('op, 'task, 'obs) aio =
  pending :: "'op list"
  posted :: "'task list"
  trace :: "'obs list"

definition initiate :: "'op \<Rightarrow> ('op, 'task, 'obs, 'z) aio_scheme \<Rightarrow> ('op, 'task, 'obs, 'z) aio_scheme" where
  "initiate x s = s\<lparr>pending := pending s @ [x]\<rparr>"

definition finish_op :: "'op \<Rightarrow> ('op, 'task, 'obs, 'z) aio_scheme \<Rightarrow> ('op, 'task, 'obs, 'z) aio_scheme" where
  "finish_op x s = s\<lparr>pending := remove1 x (pending s)\<rparr>"

definition post_task :: "'task \<Rightarrow> ('op, 'task, 'obs, 'z) aio_scheme \<Rightarrow> ('op, 'task, 'obs, 'z) aio_scheme" where
  "post_task k s = s\<lparr>posted := posted s @ [k]\<rparr>"

definition take_task :: "nat \<Rightarrow> ('op, 'task, 'obs, 'z) aio_scheme \<Rightarrow> ('op, 'task, 'obs, 'z) aio_scheme" where
  "take_task i s = s\<lparr>posted := take i (posted s) @ drop (Suc i) (posted s)\<rparr>"

definition observe :: "'obs \<Rightarrow> ('op, 'task, 'obs, 'z) aio_scheme \<Rightarrow> ('op, 'task, 'obs, 'z) aio_scheme" where
  "observe x s = s\<lparr>trace := trace s @ [x]\<rparr>"

named_theorems aio_defs

lemmas [aio_defs] = initiate_def finish_op_def post_task_def take_task_def observe_def

text \<open>The items of a list that a partial projection picks, e.g. the data of the writes.\<close>

fun picks :: "('a \<Rightarrow> 'b option) \<Rightarrow> 'a list \<Rightarrow> 'b list" where
  "picks f [] = []"
| "picks f (x # xs) = (case f x of Some y \<Rightarrow> y # picks f xs | None \<Rightarrow> picks f xs)"

lemma picks_append [simp]: "picks f (xs @ ys) = picks f xs @ picks f ys"
  by (induction xs) (auto split: option.splits)

lemma picks_remove1_other: "f x = None \<Longrightarrow> picks f (remove1 x xs) = picks f xs"
  by (induction xs) (auto split: option.splits)

lemma picks_remove1_same:
  assumes "f x = Some m" "\<And>y. f y = Some m \<Longrightarrow> y = x"
  shows "picks f (remove1 x xs) = remove1 m (picks f xs)"
proof (induction xs)
  case Nil
  show ?case by simp
next
  case (Cons a xs)
  show ?case
  proof (cases "a = x")
    case True
    then show ?thesis using assms(1) by simp
  next
    case False
    then have "f a \<noteq> Some m" using assms(2) by blast
    then show ?thesis using False Cons.IH by (cases "f a") auto
  qed
qed

lemma picks_mem: "f x = Some m \<Longrightarrow> x \<in> set xs \<Longrightarrow> m \<in> set (picks f xs)"
  by (induction xs) (auto split: option.splits)

text \<open>Of two equal operations one is left.\<close>

lemma write_still_pending: "x \<in> set (remove1 x (xs @ [x, x]))"
  by (induction xs) auto

text \<open>Some, or no, outstanding operation has a property.\<close>

lemma list_ex_remove1: "list_ex P xs \<Longrightarrow> \<not> P x \<Longrightarrow> list_ex P (remove1 x xs)"
  by (induction xs) auto

lemma not_list_ex_remove1: "\<not> list_ex P xs \<Longrightarrow> \<not> list_ex P (remove1 x xs)"
  by (induction xs) auto

lemma not_list_ex_mem: "\<not> list_ex P xs \<Longrightarrow> x \<in> set xs \<Longrightarrow> \<not> P x"
  by (auto simp: list_ex_iff)

text \<open>Removing the task that runs.\<close>

lemma filter_remove_nth:
  assumes "i < length xs"
  shows "length (filter P xs)
    = length (filter P (take i xs @ drop (Suc i) xs)) + (if P (xs ! i) then 1 else 0)"
proof -
  have "filter P xs = filter P (take i xs @ xs ! i # drop (Suc i) xs)"
    using id_take_nth_drop [OF assms] by simp
  then show ?thesis by simp
qed

section \<open>Steps, runs and reachable states\<close>

datatype 's outcome =
    Disabled
  | Fails fault
  | Moves 's

fun run :: "('e \<Rightarrow> 's \<Rightarrow> 's outcome) \<Rightarrow> 'e list \<Rightarrow> 's \<Rightarrow> 's outcome" where
  "run step [] s = Moves s"
| "run step (e # es) s =
     (case step e s of Moves t \<Rightarrow> run step es t | Fails f \<Rightarrow> Fails f | Disabled \<Rightarrow> Disabled)"

text \<open>A handler that may fail, as an outcome.\<close>

definition outcome_of :: "'s result \<Rightarrow> 's outcome" where
  "outcome_of r = (case r of Inl f \<Rightarrow> Fails f | Inr s \<Rightarrow> Moves s)"

lemma outcome_of_simps [simp]:
  "outcome_of (Inl f) = Fails f" "outcome_of (Inr s) = Moves s"
  "outcome_of r = Moves s \<longleftrightarrow> r = Inr s" "outcome_of r = Fails f \<longleftrightarrow> r = Inl f"
  "outcome_of r \<noteq> Disabled"
  by (auto simp: outcome_of_def split: sum.splits)

lemma run_append:
  "run step (es @ fs) s =
    (case run step es s of Moves t \<Rightarrow> run step fs t | Fails f \<Rightarrow> Fails f | Disabled \<Rightarrow> Disabled)"
  by (induction es arbitrary: s) (auto split: outcome.splits)

lemma run_Cons_Moves:
  "run step (e # es) s = Moves t \<longleftrightarrow> (\<exists>u. step e s = Moves u \<and> run step es u = Moves t)"
  by (auto split: outcome.splits)

inductive reachable :: "('e \<Rightarrow> 's \<Rightarrow> 's outcome) \<Rightarrow> 's \<Rightarrow> 's \<Rightarrow> bool" for step s0 where
  reach_start: "reachable step s0 s0"
| reach_step: "reachable step s0 s \<Longrightarrow> step e s = Moves t \<Longrightarrow> reachable step s0 t"

lemma reachable_run:
  assumes "run step es s = Moves t" "reachable step s0 s"
  shows "reachable step s0 t"
  using assms
proof (induction es arbitrary: s)
  case Nil
  then show ?case by simp
next
  case (Cons e es)
  then show ?case by (metis run_Cons_Moves reach_step)
qed

lemma reachable_iff_run: "reachable step s0 s \<longleftrightarrow> (\<exists>es. run step es s0 = Moves s)"
proof
  assume "reachable step s0 s"
  then show "\<exists>es. run step es s0 = Moves s"
  proof (induction rule: reachable.induct)
    case reach_start
    show ?case by (rule exI [of _ "[]"]) simp
  next
    case (reach_step s e t)
    then obtain es where "run step es s0 = Moves s" by blast
    with reach_step.hyps(2) have "run step (es @ [e]) s0 = Moves t"
      by (simp add: run_append)
    then show ?case ..
  qed
next
  assume "\<exists>es. run step es s0 = Moves s"
  then show "reachable step s0 s"
    by (auto intro: reachable_run reach_start)
qed

text \<open>A property that every step of the allowed events keeps.\<close>

locale restricted_invariant =
  fixes step :: "'e \<Rightarrow> 's \<Rightarrow> 's outcome"
    and allowed :: "'e \<Rightarrow> bool"
    and holds :: "'s \<Rightarrow> bool"
  assumes kept_by: "holds s \<Longrightarrow> allowed e \<Longrightarrow> step e s = Moves t \<Longrightarrow> holds t"
begin

lemma kept_by_run: "holds s \<Longrightarrow> list_all allowed es \<Longrightarrow> run step es s = Moves t \<Longrightarrow> holds t"
proof (induction es arbitrary: s)
  case Nil
  then show ?case by simp
next
  case (Cons e es)
  from Cons.prems(3) obtain u where u: "step e s = Moves u" "run step es u = Moves t"
    unfolding run_Cons_Moves by blast
  show ?case
    using Cons.IH [OF _ _ u(2)] Cons.prems(1,2) kept_by [OF _ _ u(1)] by simp
qed

end

locale step_invariant =
  fixes step :: "'e \<Rightarrow> 's \<Rightarrow> 's outcome"
    and holds :: "'s \<Rightarrow> bool"
  assumes kept: "holds s \<Longrightarrow> step e s = Moves t \<Longrightarrow> holds t"

sublocale step_invariant \<subseteq> always: restricted_invariant step "\<lambda>_. True" holds
  by unfold_locales (rule kept)

context step_invariant begin

lemma kept_run: "holds s \<Longrightarrow> run step es s = Moves t \<Longrightarrow> holds t"
  using always.kept_by_run by (simp add: list_all_def)

lemma kept_reachable: "holds s0 \<Longrightarrow> reachable step s0 s \<Longrightarrow> holds s"
  by (auto simp: reachable_iff_run intro: kept_run)

end

text \<open>
  What the events of a run contribute to its history (the bytes received, the messages
  accepted), and properties that relate the state to the history so far.
\<close>

fun history :: "('e \<Rightarrow> 's \<Rightarrow> 's outcome) \<Rightarrow> ('e \<Rightarrow> 's \<Rightarrow> 'h list) \<Rightarrow> 'e list \<Rightarrow> 's \<Rightarrow> 'h list" where
  "history step gives [] s = []"
| "history step gives (e # es) s =
     gives e s @ (case step e s of Moves t \<Rightarrow> history step gives es t | _ \<Rightarrow> [])"

text \<open>
  Obligations of the environment, on the event and the state in which it happens, under which
  such a property holds.
\<close>

fun guarded :: "('e \<Rightarrow> 's \<Rightarrow> bool) \<Rightarrow> ('e \<Rightarrow> 's \<Rightarrow> 's outcome) \<Rightarrow> 'e list \<Rightarrow> 's \<Rightarrow> bool" where
  "guarded ok step [] s = True"
| "guarded ok step (e # es) s =
     (ok e s \<and> (case step e s of Moves t \<Rightarrow> guarded ok step es t | _ \<Rightarrow> True))"

lemma guarded_append:
  "guarded ok step (es @ fs) s \<longleftrightarrow>
    guarded ok step es s \<and> (case run step es s of Moves t \<Rightarrow> guarded ok step fs t | _ \<Rightarrow> True)"
  by (induction es arbitrary: s) (auto split: outcome.split)

lemma guarded_events: "list_all allowed es \<Longrightarrow> guarded (\<lambda>e s. allowed e) step es s"
  by (induction es arbitrary: s) (auto split: outcome.split)

lemma guarded_mono:
  "guarded ok step es s \<Longrightarrow> (\<And>e s. ok e s \<Longrightarrow> ok' e s) \<Longrightarrow> guarded ok' step es s"
  by (induction es arbitrary: s) (auto split: outcome.splits)

text \<open>A run that fails does so in one of its steps.\<close>

lemma run_failing_step:
  assumes "run step es s = Fails f" "guarded ok step es s"
  shows "\<exists>es1 e u. run step es1 s = Moves u \<and> guarded ok step es1 s \<and> ok e u \<and> step e u = Fails f"
  using assms
proof (induction es arbitrary: s)
  case (Cons e es)
  show ?case
  proof (cases "step e s")
    case (Moves u)
    then obtain es1 e' v where "run step es1 u = Moves v" "guarded ok step es1 u" "ok e' v" "step e' v = Fails f"
      using Cons.IH [of u] Cons.prems by auto
    with Moves Cons.prems(2) have "run step (e # es1) s = Moves v" "guarded ok step (e # es1) s"
      by simp_all
    with \<open>ok e' v\<close> \<open>step e' v = Fails f\<close> show ?thesis by blast
  next
    case (Fails g)
    with Cons.prems have "run step [] s = Moves s" "guarded ok step [] s" "ok e s" "step e s = Fails f"
      by simp_all
    then show ?thesis by blast
  qed (use Cons.prems in simp)
qed simp

lemma history_append:
  "history step gives (es @ fs) s =
    history step gives es s @ (case run step es s of Moves t \<Rightarrow> history step gives fs t | _ \<Rightarrow> [])"
  by (induction es arbitrary: s) (auto split: outcome.split)

locale obliged_history =
  fixes step :: "'e \<Rightarrow> 's \<Rightarrow> 's outcome"
    and ok :: "'e \<Rightarrow> 's \<Rightarrow> bool"
    and gives :: "'e \<Rightarrow> 's \<Rightarrow> 'h list"
    and holds :: "'h list \<Rightarrow> 's \<Rightarrow> bool"
  assumes kept_obliged: "holds h s \<Longrightarrow> ok e s \<Longrightarrow> step e s = Moves t \<Longrightarrow> holds (h @ gives e s) t"
begin

lemma obliged_run:
  "holds h s \<Longrightarrow> run step es s = Moves t \<Longrightarrow> guarded ok step es s \<Longrightarrow>
    holds (h @ history step gives es s) t"
proof (induction es arbitrary: h s)
  case Nil
  then show ?case by simp
next
  case (Cons e es)
  from Cons.prems(2) obtain u where u: "step e s = Moves u" "run step es u = Moves t"
    unfolding run_Cons_Moves by blast
  show ?case
    using Cons.IH [OF kept_obliged [OF Cons.prems(1) _ u(1)] u(2)] Cons.prems(3) u(1) by simp
qed

end

text \<open>Without obligations.\<close>

locale history_invariant =
  fixes step :: "'e \<Rightarrow> 's \<Rightarrow> 's outcome"
    and gives :: "'e \<Rightarrow> 's \<Rightarrow> 'h list"
    and holds :: "'h list \<Rightarrow> 's \<Rightarrow> bool"
  assumes kept_history: "holds h s \<Longrightarrow> step e s = Moves t \<Longrightarrow> holds (h @ gives e s) t"

sublocale history_invariant \<subseteq> free: obliged_history step "\<lambda>_ _. True" gives holds
  by unfold_locales (rule kept_history)

context history_invariant begin

lemma history_run: "holds h s \<Longrightarrow> run step es s = Moves t \<Longrightarrow> holds (h @ history step gives es s) t"
  using free.obliged_run guarded_events [of "\<lambda>_. True" es step s] by (simp add: list_all_def)

end

text \<open>Steps of the allowed events that keep a property and lower a rank: there are at most as many.\<close>

locale ranked_invariant = restricted_invariant step allowed holds
  for step :: "'e \<Rightarrow> 's \<Rightarrow> 's outcome" and allowed :: "'e \<Rightarrow> bool" and holds :: "'s \<Rightarrow> bool" +
  fixes rank :: "'s \<Rightarrow> nat"
  assumes lowers: "holds s \<Longrightarrow> allowed e \<Longrightarrow> step e s = Moves t \<Longrightarrow> rank t < rank s"
begin

lemma ranked_run:
  "holds s \<Longrightarrow> list_all allowed es \<Longrightarrow> run step es s = Moves t \<Longrightarrow> holds t \<and> rank t + length es \<le> rank s"
proof (induction es arbitrary: s)
  case (Cons e es)
  from Cons.prems(3) obtain u where u: "step e s = Moves u" "run step es u = Moves t"
    unfolding run_Cons_Moves by blast
  show ?case
    using Cons.IH [OF kept_by [OF Cons.prems(1) _ u(1)] _ u(2)] lowers [OF Cons.prems(1) _ u(1)] Cons.prems(2)
    by simp
qed simp

end

text \<open>An invariant that also excludes some faults (\<open>bad\<close>) in every next step.\<close>

locale safe_invariant = step_invariant step holds
  for step :: "'e \<Rightarrow> 's \<Rightarrow> 's outcome" and holds :: "'s \<Rightarrow> bool" +
  fixes bad :: "fault \<Rightarrow> bool"
  assumes safe: "holds s \<Longrightarrow> step e s = Fails f \<Longrightarrow> \<not> bad f"
begin

lemma safe_run: "holds s \<Longrightarrow> run step es s = Fails f \<Longrightarrow> \<not> bad f"
proof (induction es arbitrary: s)
  case Nil
  then show ?case by simp
next
  case (Cons e es)
  then show ?case by (cases "step e s") (auto dest: safe kept)
qed

end

text \<open>Two components that do the same, one of them seen inside the other.\<close>

locale step_embedding =
  fixes step1 :: "'e \<Rightarrow> 's \<Rightarrow> 's outcome"
    and step2 :: "'e \<Rightarrow> 't \<Rightarrow> 't outcome"
    and allowed :: "'e \<Rightarrow> bool"
    and embed :: "'s \<Rightarrow> 't"
  assumes embeds: "allowed e \<Longrightarrow> step2 e (embed s) = map_outcome embed (step1 e s)"
begin

lemma embeds_run:
  "list_all allowed es \<Longrightarrow> run step2 es (embed s) = map_outcome embed (run step1 es s)"
  by (induction es arbitrary: s) (auto simp: embeds split: outcome.split)

end

end
