(* ===== verification/Udp_Client.thy ===== *)
theory Udp_Client
  imports Asio_Runtime
begin

text \<open>
  \<open>UdpClient\<close> and \<open>Session\<close> of \<^verbatim>\<open>udp-asio-1.28/include/udp_client.hpp\<close>: a thread that takes
  messages from a queue and sends each as a datagram, and the caller that fills the queue
  and stops the thread. The two threads share the queue under \<open>mtx_\<close>, the atomic \<open>run_\<close>, and
  the condition variable.

  One transition is one action of one thread. The critical sections are split at the points
  where the other thread can come in between: \<open>cv_.wait\<close> evaluates its predicate and only
  then, in a second action, releases the mutex and blocks; a notification wakes a thread
  that is blocked and is lost otherwise; \<open>stop\<close> writes \<open>run_\<close>, notifies and joins in three
  actions, none of which takes the mutex. Spurious wake-ups are transitions of their own.
\<close>

section \<open>State\<close>

datatype worker_pc =
    W_none                \<comment> \<open>no thread\<close>
  | W_lock                \<comment> \<open>about to lock, at the top of the loop or woken up\<close>
  | W_check               \<comment> \<open>holds the mutex, about to evaluate the predicate\<close>
  | W_prewait             \<comment> \<open>holds the mutex, the predicate was false\<close>
  | W_blocked             \<comment> \<open>in the condition variable\<close>
  | W_woken               \<comment> \<open>holds the mutex, the predicate was true\<close>
  | W_send bytes          \<comment> \<open>outside the mutex with a message in hand\<close>
  | W_done                \<comment> \<open>the thread function has returned\<close>

datatype caller_pc =
    C_idle
  | C_stored              \<comment> \<open>in \<open>stop\<close>, \<open>run_\<close> is written\<close>
  | C_join                \<comment> \<open>in \<open>stop\<close>, waiting for the thread\<close>
  | C_failed string       \<comment> \<open>an exception or \<open>std::terminate\<close>\<close>

text \<open>
  What becomes of a message that is sent: \<open>async_send_to\<close> completes with an error code, or an
  exception (of \<open>make_address\<close>, the socket, or \<open>run\<close>) is caught. It leaves as a datagram only
  when the operation completes without error; otherwise it is reported on the console and lost.
\<close>

datatype delivery = Completed error_code | Threw string

datatype udp_obs =
    U_accepted bytes
  | U_datagram bytes
  | U_send_error bytes string
  | U_exception bytes string

record udp_client =
  udp_ip :: string
  udp_port :: nat
  run_flag :: bool
  locked :: bool
  msg_queue :: "bytes list"
  worker :: worker_pc
  joinable :: bool
  caller :: caller_pc
  udp_trace :: "udp_obs list"

definition udp_init :: "string \<Rightarrow> nat \<Rightarrow> udp_client" where
  "udp_init ip port = \<lparr>udp_ip = ip, udp_port = port, run_flag = False, locked = False,
     msg_queue = [], worker = W_none, joinable = False, caller = C_idle, udp_trace = []\<rparr>"

section \<open>The actions\<close>

text \<open>Assigning to a \<open>std::thread\<close> that is joinable calls \<open>std::terminate\<close>.\<close>

definition udp_start :: "udp_client \<Rightarrow> udp_client" where
  "udp_start s =
     (let s = s\<lparr>run_flag := True\<rparr>
      in if joinable s then s\<lparr>caller := C_failed ''terminate''\<rparr>
         else s\<lparr>worker := W_lock, joinable := True\<rparr>)"

definition wait_predicate :: "udp_client \<Rightarrow> bool" where
  "wait_predicate s \<longleftrightarrow> msg_queue s \<noteq> [] \<or> \<not> run_flag s"

definition notify :: "udp_client \<Rightarrow> udp_client" where
  "notify s = (if worker s = W_blocked then s\<lparr>worker := W_lock\<rparr> else s)"

text \<open>\<open>send\<close> is one critical section.\<close>

definition udp_send :: "bytes \<Rightarrow> udp_client \<Rightarrow> udp_client" where
  "udp_send data s =
     notify (s\<lparr>msg_queue := msg_queue s @ [data], udp_trace := udp_trace s @ [U_accepted data]\<rparr>)"

definition worker_check :: "udp_client \<Rightarrow> udp_client" where
  "worker_check s = s\<lparr>worker := (if wait_predicate s then W_woken else W_prewait)\<rparr>"

text \<open>After the wait: the break, or the message at the front; both release the mutex.\<close>

definition take_message :: "udp_client \<Rightarrow> udp_client" where
  "take_message s =
     (let s = s\<lparr>locked := False\<rparr>
      in if \<not> run_flag s then s\<lparr>worker := W_done\<rparr>
         else case msg_queue s of
             [] \<Rightarrow> s\<lparr>worker := W_send []\<rparr>
           | m # ms \<Rightarrow> s\<lparr>msg_queue := ms, worker := W_send m\<rparr>)"

text \<open>\<open>AsyncSendData\<close>, whose operation completes with \<open>ec\<close> in \<open>io_context.run()\<close>.\<close>

definition AsyncSendData :: "bytes \<Rightarrow> error_code \<Rightarrow> udp_client \<Rightarrow> udp_client" where
  "AsyncSendData data ec s =
     s\<lparr>udp_trace := udp_trace s @ [if ec_ok ec then U_datagram data else U_send_error data (ec_message ec)]\<rparr>"

text \<open>The message in hand, with the \<open>try\<close> block around its session.\<close>

definition deliver :: "bytes \<Rightarrow> delivery \<Rightarrow> udp_client \<Rightarrow> udp_client" where
  "deliver msg r s =
     (let s = (if msg \<noteq> [] then
                 (case r of
                    Completed ec \<Rightarrow> AsyncSendData msg ec s
                  | Threw e \<Rightarrow> s\<lparr>udp_trace := udp_trace s @ [U_exception msg e]\<rparr>)
               else s)
      in s\<lparr>worker := W_lock\<rparr>)"

definition stop_store :: "udp_client \<Rightarrow> udp_client" where
  "stop_store s = s\<lparr>run_flag := False, caller := C_stored\<rparr>"

definition stop_notify :: "udp_client \<Rightarrow> udp_client" where
  "stop_notify s =
     (let s = notify s
      in s\<lparr>caller := (if joinable s then C_join else C_failed ''join: Invalid argument'')\<rparr>)"

definition stop_joined :: "udp_client \<Rightarrow> udp_client" where
  "stop_joined s = s\<lparr>joinable := False, caller := C_idle\<rparr>"

section \<open>Transitions\<close>

datatype udp_label = U_caller | U_worker | U_spurious

inductive udp_step :: "udp_label \<Rightarrow> udp_client \<Rightarrow> udp_client \<Rightarrow> bool" where
  call_start: "caller s = C_idle \<Longrightarrow> udp_step U_caller s (udp_start s)"
| call_send: "caller s = C_idle \<Longrightarrow> \<not> locked s \<Longrightarrow> udp_step U_caller s (udp_send data s)"
| call_stop: "caller s = C_idle \<Longrightarrow> udp_step U_caller s (stop_store s)"
| call_notify: "caller s = C_stored \<Longrightarrow> udp_step U_caller s (stop_notify s)"
| call_join: "caller s = C_join \<Longrightarrow> worker s = W_done \<Longrightarrow> udp_step U_caller s (stop_joined s)"
| work_lock: "worker s = W_lock \<Longrightarrow> \<not> locked s \<Longrightarrow>
    udp_step U_worker s (s\<lparr>locked := True, worker := W_check\<rparr>)"
| work_check: "worker s = W_check \<Longrightarrow> udp_step U_worker s (worker_check s)"
| work_block: "worker s = W_prewait \<Longrightarrow>
    udp_step U_worker s (s\<lparr>locked := False, worker := W_blocked\<rparr>)"
| work_take: "worker s = W_woken \<Longrightarrow> udp_step U_worker s (take_message s)"
| work_send: "worker s = W_send msg \<Longrightarrow> udp_step U_worker s (deliver msg r s)"
| spurious: "worker s = W_blocked \<Longrightarrow> udp_step U_spurious s (s\<lparr>worker := W_lock\<rparr>)"

inductive_cases udp_stepE: "udp_step l s t"

inductive udp_reachable :: "udp_client \<Rightarrow> udp_client \<Rightarrow> bool" for s0 where
  udp_reach_start: "udp_reachable s0 s0"
| udp_reach_step: "udp_reachable s0 s \<Longrightarrow> udp_step l s t \<Longrightarrow> udp_reachable s0 t"

named_theorems udp_defs

lemmas [udp_defs] = udp_start_def wait_predicate_def notify_def udp_send_def worker_check_def
  take_message_def AsyncSendData_def deliver_def stop_store_def stop_notify_def stop_joined_def Let_def

text \<open>Facts about single transitions hold in all reachable states.\<close>

locale udp_invariant =
  fixes holds :: "udp_client \<Rightarrow> bool"
  assumes udp_kept: "holds s \<Longrightarrow> udp_step l s t \<Longrightarrow> holds t"
begin

lemma udp_always: "udp_reachable s0 s \<Longrightarrow> holds s0 \<Longrightarrow> holds s"
  by (induction rule: udp_reachable.induct) (auto intro: udp_kept)

end

section \<open>Concrete executions\<close>

text \<open>The transitions as a function, for the evaluation of concrete executions.\<close>

datatype udp_act = A_start | A_send bytes | A_stop | A_notify | A_join
  | A_lock | A_check | A_block | A_take | A_deliver delivery

fun udp_do :: "udp_act \<Rightarrow> udp_client \<Rightarrow> udp_client option" where
  "udp_do A_start s = (if caller s = C_idle then Some (udp_start s) else None)"
| "udp_do (A_send m) s = (if caller s = C_idle \<and> \<not> locked s then Some (udp_send m s) else None)"
| "udp_do A_stop s = (if caller s = C_idle then Some (stop_store s) else None)"
| "udp_do A_notify s = (if caller s = C_stored then Some (stop_notify s) else None)"
| "udp_do A_join s = (if caller s = C_join \<and> worker s = W_done then Some (stop_joined s) else None)"
| "udp_do A_lock s = (if worker s = W_lock \<and> \<not> locked s
     then Some (s\<lparr>locked := True, worker := W_check\<rparr>) else None)"
| "udp_do A_check s = (if worker s = W_check then Some (worker_check s) else None)"
| "udp_do A_block s = (if worker s = W_prewait
     then Some (s\<lparr>locked := False, worker := W_blocked\<rparr>) else None)"
| "udp_do A_take s = (if worker s = W_woken then Some (take_message s) else None)"
| "udp_do (A_deliver r) s = (case worker s of W_send m \<Rightarrow> Some (deliver m r s) | _ \<Rightarrow> None)"

fun udp_acts :: "udp_act list \<Rightarrow> udp_client \<Rightarrow> udp_client option" where
  "udp_acts [] s = Some s"
| "udp_acts (a # as) s = Option.bind (udp_do a s) (udp_acts as)"

lemma udp_do_step:
  assumes "udp_do a s = Some t"
  shows "\<exists>l. udp_step l s t"
  using assms
  by (cases a) (auto split: if_splits worker_pc.splits intro: udp_step.intros)

lemma udp_acts_reachable:
  assumes "udp_reachable s0 s" "udp_acts as s = Some t"
  shows "udp_reachable s0 t"
  using assms
proof (induction "as" arbitrary: s)
  case (Cons a as)
  from Cons.prems(2) obtain u where u: "udp_do a s = Some u" "udp_acts as u = Some t"
    by (auto simp: bind_eq_Some_conv)
  from udp_do_step [OF u(1)] Cons.prems(1) have "udp_reachable s0 u"
    by (blast intro: udp_reach_step)
  from Cons.IH [OF this u(2)] show ?case .
qed simp

lemmas udp_executed = udp_acts_reachable [OF udp_reach_start]

section \<open>Datagrams leave in order\<close>

fun udp_accepted_of :: "udp_obs \<Rightarrow> bytes option" where
  "udp_accepted_of (U_accepted m) = (if m = [] then None else Some m)"
| "udp_accepted_of x = None"

fun udp_datagram_of :: "udp_obs \<Rightarrow> bytes option" where
  "udp_datagram_of (U_datagram m) = Some m"
| "udp_datagram_of x = None"

fun udp_lost_of :: "udp_obs \<Rightarrow> bytes option" where
  "udp_lost_of (U_send_error m e) = Some m"
| "udp_lost_of (U_exception m e) = Some m"
| "udp_lost_of x = None"

fun udp_attempt_of :: "udp_obs \<Rightarrow> bytes option" where
  "udp_attempt_of (U_accepted m) = None"
| "udp_attempt_of (U_datagram m) = Some m"
| "udp_attempt_of (U_send_error m e) = Some m"
| "udp_attempt_of (U_exception m e) = Some m"

text \<open>
  The non-empty messages that were given to \<open>send\<close>; those the thread has tried to send; of
  these, those that left as a datagram and those that failed.
\<close>

definition accepted_messages :: "udp_client \<Rightarrow> bytes list" where
  "accepted_messages s = picks udp_accepted_of (udp_trace s)"

definition attempts :: "udp_client \<Rightarrow> bytes list" where
  "attempts s = picks udp_attempt_of (udp_trace s)"

definition datagrams :: "udp_client \<Rightarrow> bytes list" where
  "datagrams s = picks udp_datagram_of (udp_trace s)"

definition lost :: "udp_client \<Rightarrow> bytes list" where
  "lost s = picks udp_lost_of (udp_trace s)"

lemma attempts_shuffle: "attempts s \<in> shuffles (datagrams s) (lost s)"
proof -
  have "picks udp_attempt_of xs \<in> shuffles (picks udp_datagram_of xs) (picks udp_lost_of xs)" for xs
  proof (induction xs)
    case (Cons x xs)
    then show ?case
      by (cases x) (auto intro: Cons_in_shuffles_leftI Cons_in_shuffles_rightI)
  qed simp
  then show ?thesis
    by (simp add: attempts_def datagrams_def lost_def)
qed

fun in_hand :: "worker_pc \<Rightarrow> bytes list" where
  "in_hand (W_send m) = (if m = [] then [] else [m])"
| "in_hand _ = []"

definition nonempty :: "bytes list \<Rightarrow> bytes list" where
  "nonempty = filter (\<lambda>m. m \<noteq> [])"

definition udp_fifo :: "udp_client \<Rightarrow> bool" where
  "udp_fifo s \<longleftrightarrow> accepted_messages s = attempts s @ in_hand (worker s) @ nonempty (msg_queue s)
     \<and> (worker s = W_none \<or> worker s = W_done \<or> joinable s)"

lemma udp_fifo_step:
  assumes "udp_fifo s" "udp_step l s t"
  shows "udp_fifo t"
  using assms(2,1)
  by (cases rule: udp_step.cases)
    (auto simp: udp_fifo_def udp_defs accepted_messages_def attempts_def nonempty_def
      split: list.splits if_splits delivery.splits)

interpretation uf: udp_invariant udp_fifo
  by unfold_locales (rule udp_fifo_step)

text \<open>
  C11: in every reachable state the non-empty messages given to \<open>send\<close> are, in this order,
  those the thread has tried to send, the one it has in hand, and the queue: each is tried
  at most once and in order, and only the empty ones are dropped silently. The messages tried
  are those that left as a datagram, interleaved with those whose send failed with an error
  code or an exception, which are lost; both keep their order.
\<close>

theorem udp_messages_in_order:
  assumes "udp_reachable (udp_init ip port) s"
  shows "accepted_messages s = attempts s @ in_hand (worker s) @ nonempty (msg_queue s)
    \<and> attempts s \<in> shuffles (datagrams s) (lost s)"
proof -
  have "udp_fifo (udp_init ip port)"
    by (simp add: udp_fifo_def udp_init_def accepted_messages_def attempts_def nonempty_def)
  from uf.udp_always [OF assms this] show ?thesis
    using attempts_shuffle by (simp add: udp_fifo_def)
qed

text \<open>The example: the first message leaves, the third fails, an empty one is dropped.\<close>

definition udp_demo_acts :: "udp_act list" where
  "udp_demo_acts = [A_start, A_send ''A'', A_send [], A_lock, A_check, A_take,
     A_deliver (Completed success_code), A_send ''BC'', A_send ''D'', A_lock, A_check, A_take,
     A_deliver (Completed success_code), A_lock, A_check, A_take, A_deliver (Threw ''open: Too many open files'')]"

lemma udp_messages_in_order_witness:
  "(case udp_acts udp_demo_acts (udp_init ''h'' 9) of None \<Rightarrow> False
      | Some s \<Rightarrow> accepted_messages s = attempts s @ in_hand (worker s) @ nonempty (msg_queue s)
          \<and> attempts s \<in> shuffles [''A''] [''BC''] \<and> nonempty (msg_queue s) = [''D''])"
proof -
  obtain s where s: "udp_acts udp_demo_acts (udp_init ''h'' 9) = Some s"
      "datagrams s = [''A'']" "lost s = [''BC'']" "nonempty (msg_queue s) = [''D'']"
    by (simp add: udp_demo_acts_def udp_init_def udp_defs datagrams_def lost_def nonempty_def)
  from udp_messages_in_order [OF udp_executed [OF s(1)]] s show ?thesis by simp
qed

section \<open>The mutex and the queue\<close>

text \<open>
  The well-formed states. A failed call (an exception, or \<open>std::terminate\<close>) ends the caller
  but not the thread, and a second \<open>start\<close> has raised \<open>run_\<close> by then, so what depends
  on \<open>run_\<close> is stated for a caller that has not failed.
\<close>

fun holds_mutex :: "worker_pc \<Rightarrow> bool" where
  "holds_mutex W_check = True"
| "holds_mutex W_prewait = True"
| "holds_mutex W_woken = True"
| "holds_mutex _ = False"

fun caller_failed :: "caller_pc \<Rightarrow> bool" where
  "caller_failed (C_failed e) = True"
| "caller_failed _ = False"

definition udp_thread_ok :: "udp_client \<Rightarrow> bool" where
  "udp_thread_ok s \<longleftrightarrow> (locked s \<longleftrightarrow> holds_mutex (worker s))
     \<and> (worker s \<in> {W_prewait, W_blocked} \<longrightarrow> msg_queue s = [])
     \<and> (worker s \<notin> {W_none, W_done} \<longrightarrow> joinable s)
     \<and> (caller s = C_join \<longrightarrow> joinable s)
     \<and> (joinable s \<longrightarrow> worker s \<noteq> W_none)"

definition udp_stop_ok :: "udp_client \<Rightarrow> bool" where
  "udp_stop_ok s \<longleftrightarrow> caller_failed (caller s)
     \<or> ((caller s \<in> {C_stored, C_join} \<longrightarrow> \<not> run_flag s)
       \<and> (worker s = W_done \<longrightarrow> \<not> run_flag s)
       \<and> (worker s = W_woken \<longrightarrow> msg_queue s \<noteq> [] \<or> \<not> run_flag s))"

lemma udp_thread_ok_step:
  assumes "udp_thread_ok s" "udp_step l s t"
  shows "udp_thread_ok t"
  using assms(2,1)
  by (cases rule: udp_step.cases)
    (auto simp: udp_thread_ok_def udp_defs split: list.splits if_splits delivery.splits)

interpretation ut: udp_invariant udp_thread_ok
  by unfold_locales (rule udp_thread_ok_step)

lemma udp_thread_ok_init: "udp_thread_ok (udp_init ip port)"
  by (simp add: udp_thread_ok_def udp_init_def)

lemmas udp_thread_ok_reachable = ut.udp_always [OF _ udp_thread_ok_init]

text \<open>
  The mutex is held exactly while the thread is inside its critical section, and a thread
  that is about to sleep, or sleeps, sleeps over an empty queue: the notification of a
  \<open>send\<close> is never lost, because \<open>send\<close> needs the mutex.
\<close>

theorem udp_sleeps_on_empty_queue:
  assumes "udp_reachable (udp_init ip port) s"
  shows "(locked s \<longleftrightarrow> holds_mutex (worker s))
    \<and> (worker s \<in> {W_prewait, W_blocked} \<longrightarrow> msg_queue s = [])"
  using udp_thread_ok_reachable [OF assms] by (simp add: udp_thread_ok_def)

lemma udp_sleeps_on_empty_queue_witness:
  "(case udp_acts [A_start, A_lock, A_check, A_block] (udp_init ''h'' 9) of None \<Rightarrow> False
    | Some s \<Rightarrow> worker s = W_blocked \<and> msg_queue s = [] \<and> \<not> locked s)"
proof -
  obtain s where s: "udp_acts [A_start, A_lock, A_check, A_block] (udp_init ''h'' 9) = Some s"
      "worker s = W_blocked"
    by (simp add: udp_init_def udp_defs)
  from udp_sleeps_on_empty_queue [OF udp_executed [OF s(1)]] s show ?thesis by simp
qed

section \<open>Stopping\<close>

text \<open>
  C22: \<open>stop\<close> can hang. It writes \<open>run_\<close> and notifies without the mutex, so both can fall
  between the evaluation of the predicate and the blocking of the thread: the notification
  meets nobody, and in the state reached the only transition left in the whole
  program is a spurious wake-up.
\<close>

theorem udp_stop_can_hang:
  "\<exists>s. udp_reachable (udp_init ip port) s \<and> caller s = C_join \<and> \<not> run_flag s
     \<and> {l. \<exists>t. udp_step l s t} = {U_spurious}"
proof -
  obtain s where s: "udp_acts [A_start, A_lock, A_check, A_stop, A_notify, A_block] (udp_init ip port)
      = Some s" "caller s = C_join" "worker s = W_blocked" "\<not> run_flag s"
    by (simp add: udp_init_def udp_defs)
  have "\<exists>t. udp_step U_spurious s t"
    using s(3) by (blast intro: udp_step.spurious)
  moreover have "l = U_spurious" if "udp_step l s t" for l t
    using that s(2,3) by (cases rule: udp_step.cases) auto
  ultimately have "{l. \<exists>t. udp_step l s t} = {U_spurious}" by blast
  with udp_executed [OF s(1)] s show ?thesis by blast
qed

text \<open>The transitions made while the caller waits in \<open>join\<close>.\<close>

inductive udp_joining :: "nat \<Rightarrow> udp_client \<Rightarrow> udp_client \<Rightarrow> bool" where
  joining_start: "caller s = C_join \<Longrightarrow> udp_joining 0 s s"
| joining_step: "udp_joining n s0 s \<Longrightarrow> udp_step l s t \<Longrightarrow> caller t = C_join \<Longrightarrow>
    udp_joining (Suc n) s0 t"

fun worker_rank :: "worker_pc \<Rightarrow> nat" where
  "worker_rank (W_send m) = 4"
| "worker_rank W_lock = 3"
| "worker_rank W_check = 2"
| "worker_rank W_woken = 1"
| "worker_rank _ = 0"

lemma udp_stop_ok_step:
  assumes "udp_stop_ok s" "udp_step l s t"
  shows "udp_stop_ok t"
  using assms(2,1)
  by (cases rule: udp_step.cases)
    (auto simp: udp_stop_ok_def udp_defs split: list.splits if_splits delivery.splits)

interpretation us: udp_invariant udp_stop_ok
  by unfold_locales (rule udp_stop_ok_step)

lemma udp_stop_ok_init: "udp_stop_ok (udp_init ip port)"
  by (simp add: udp_stop_ok_def udp_init_def)

lemmas udp_stop_ok_reachable = us.udp_always [OF _ udp_stop_ok_init]

definition stopping :: "udp_client \<Rightarrow> bool" where
  "stopping s \<longleftrightarrow> udp_thread_ok s \<and> caller s = C_join \<and> \<not> run_flag s
     \<and> worker s \<notin> {W_prewait, W_blocked}"

lemma stopping_reachable:
  assumes "udp_reachable (udp_init ip port) s" "caller s = C_join"
    and "worker s \<notin> {W_prewait, W_blocked}"
  shows "stopping s"
  using udp_thread_ok_reachable [OF assms(1)] udp_stop_ok_reachable [OF assms(1)] assms(2,3)
  by (simp add: stopping_def udp_stop_ok_def)

text \<open>Each transition brings the thread one position closer to its end.\<close>

lemma stopping_step:
  assumes "stopping s" "udp_step l s t"
  shows "stopping t \<and> worker_rank (worker s) = Suc (worker_rank (worker t))
      \<and> msg_queue t = msg_queue s \<and> attempts t @ in_hand (worker t) = attempts s @ in_hand (worker s)
    \<or> t = stop_joined s \<and> worker s = W_done"
  using assms(2,1)
  by (cases rule: udp_step.cases)
    (auto simp: stopping_def udp_thread_ok_def udp_defs attempts_def split: list.splits if_splits delivery.splits)

lemma stopping_enabled:
  assumes "stopping s"
  shows "\<exists>l t. udp_step l s t"
proof (cases "worker s")
  case W_lock
  then show ?thesis
    using assms udp_step.work_lock [of s] by (auto simp: stopping_def udp_thread_ok_def)
next
  case W_done
  then show ?thesis
    using assms udp_step.call_join [of s] by (auto simp: stopping_def)
qed (use assms in \<open>auto simp: stopping_def udp_thread_ok_def intro: udp_step.intros\<close>)

lemma joining_keeps:
  assumes "udp_joining n s t" "stopping s"
  shows "stopping t \<and> worker_rank (worker s) = n + worker_rank (worker t)
    \<and> msg_queue t = msg_queue s \<and> attempts t @ in_hand (worker t) = attempts s @ in_hand (worker s)"
  using assms
proof (induction rule: udp_joining.induct)
  case (joining_step n s0 s l t)
  from stopping_step [of s l t] joining_step show ?case
    by (auto simp: stop_joined_def)
qed simp

lemma worker_rank_le: "worker_rank w \<le> 4"
  by (cases w) simp_all

text \<open>
  C21: in every other case \<open>stop\<close> returns. When the caller waits in \<open>join\<close> and the thread is not
  asleep or about to be, the program makes at most four more transitions before the
  join completes, however the threads interleave, and until then it is never stuck and
  every transition either stays in \<open>join\<close> or returns from it.
\<close>

theorem udp_stop_returns:
  assumes "udp_reachable (udp_init ip port) s" "caller s = C_join"
    and "worker s \<notin> {W_prewait, W_blocked}" "udp_joining n s t"
  shows "n \<le> 4 \<and> (\<exists>l t'. udp_step l t t')
    \<and> (\<forall>l t'. udp_step l t t' \<longrightarrow> caller t' = C_join \<or> caller t' = C_idle \<and> worker t' = W_done)"
proof -
  from joining_keeps [OF assms(4) stopping_reachable [OF assms(1-3)]]
  have t: "stopping t" "worker_rank (worker s) = n + worker_rank (worker t)" by auto
  from t(2) worker_rank_le [of "worker s"] have "n \<le> 4" by simp
  moreover have "caller t' = C_join \<or> caller t' = C_idle \<and> worker t' = W_done"
    if "udp_step l t t'" for l t'
    using stopping_step [OF t(1) that] by (auto simp: stopping_def stop_joined_def)
  ultimately show ?thesis using stopping_enabled [OF t(1)] by blast
qed

definition udp_stop_demo :: "udp_act list" where
  "udp_stop_demo = [A_start, A_send ''A'', A_send ''B'', A_lock, A_check, A_take, A_stop, A_notify]"

lemma udp_stop_returns_witness:
  "case udp_acts udp_stop_demo (udp_init ''h'' 9) of None \<Rightarrow> False
    | Some s \<Rightarrow> worker s = W_send ''A'' \<and> (\<exists>l t'. udp_step l s t')"
proof -
  obtain s where s: "udp_acts udp_stop_demo (udp_init ''h'' 9) = Some s"
      "caller s = C_join" "worker s = W_send ''A''"
    by (simp add: udp_stop_demo_def udp_init_def udp_defs)
  have "\<exists>l t'. udp_step l s t'"
    using udp_stop_returns [OF udp_executed [OF s(1)] s(2) _ joining_start [OF s(2)]] s(3) by simp
  with s show ?thesis by simp
qed

text \<open>
  What is in the queue when \<open>run_\<close> is cleared is never sent. While the caller waits in
  \<open>join\<close> no message leaves the queue, and when \<open>stop\<close> has returned only the message that
  the thread had in hand has been tried.
\<close>

theorem udp_stop_drops_pending:
  assumes "udp_reachable (udp_init ip port) s" "caller s = C_join"
    and "worker s \<notin> {W_prewait, W_blocked}" "udp_joining n s t" "udp_step l t t'"
    and "caller t' = C_idle"
  shows "msg_queue t' = msg_queue s \<and> attempts t' = attempts s @ in_hand (worker s)"
proof -
  note t = joining_keeps [OF assms(4) stopping_reachable [OF assms(1-3)]]
  from stopping_step [of t l t'] t assms(5,6) have "t' = stop_joined t" "worker t = W_done"
    by (auto simp: stopping_def)
  with t show ?thesis by (simp add: stop_joined_def attempts_def)
qed

fun of_worker :: "udp_act \<Rightarrow> bool" where
  "of_worker A_lock = True"
| "of_worker A_check = True"
| "of_worker A_take = True"
| "of_worker (A_deliver r) = True"
| "of_worker _ = False"

lemma of_worker_caller:
  "udp_do a s = Some t \<Longrightarrow> of_worker a \<Longrightarrow> caller t = caller s"
  by (cases a) (auto simp: udp_defs split: if_splits worker_pc.splits list.splits delivery.splits)

lemma udp_acts_joining:
  assumes "udp_joining n s0 s" "caller s = C_join" "udp_acts as s = Some t" "list_all of_worker as"
  shows "udp_joining (n + length as) s0 t \<and> caller t = C_join"
  using assms
proof (induction "as" arbitrary: s n)
  case (Cons a as)
  from Cons.prems(3) obtain u where u: "udp_do a s = Some u" "udp_acts as u = Some t"
    by (auto simp: bind_eq_Some_conv)
  from of_worker_caller [OF u(1)] Cons.prems have c: "caller u = C_join" by simp
  from udp_do_step [OF u(1)] joining_step [OF Cons.prems(1) _ c]
  have "udp_joining (Suc n) s0 u" by blast
  from Cons.IH [OF this c u(2)] Cons.prems(4) show ?case by simp
qed simp

definition udp_stop_state :: udp_client where
  "udp_stop_state = \<lparr>udp_ip = ''h'', udp_port = 9, run_flag = False, locked = False,
     msg_queue = [''B''], worker = W_send ''A'', joinable = True, caller = C_join,
     udp_trace = [U_accepted ''A'', U_accepted ''B'']\<rparr>"

lemma udp_stop_drops_pending_witness:
  "\<exists>t. udp_reachable (udp_init ''h'' 9) udp_stop_state \<and> udp_joining 4 udp_stop_state t
     \<and> msg_queue (stop_joined t) = [''B''] \<and> attempts (stop_joined t) = [''A'']"
proof -
  have "udp_acts udp_stop_demo (udp_init ''h'' 9) = Some udp_stop_state"
    by (simp add: udp_stop_demo_def udp_init_def udp_defs udp_stop_state_def)
  note r = udp_executed [OF this]
  have c: "caller udp_stop_state = C_join" by (simp add: udp_stop_state_def)
  obtain t where t: "udp_acts [A_deliver (Completed success_code), A_lock, A_check, A_take] udp_stop_state = Some t"
      "worker t = W_done" "caller t = C_join"
    by (simp add: udp_stop_state_def udp_defs)
  from udp_acts_joining [OF joining_start [OF c] c t(1)]
  have j: "udp_joining 4 udp_stop_state t" by (simp add: numeral_eq_Suc)
  have w: "worker udp_stop_state \<notin> {W_prewait, W_blocked}" by (simp add: udp_stop_state_def)
  from udp_stop_drops_pending [OF r c w j udp_step.call_join [OF t(3,2)]]
  have "msg_queue (stop_joined t) = [''B''] \<and> attempts (stop_joined t) = [''A'']"
    by (simp add: udp_stop_state_def stop_joined_def attempts_def)
  with r j show ?thesis by blast
qed

end
