(* ===== verification/Framing.thy ===== *)
theory Framing
  imports Prelude
begin

unbundle bit_operations_syntax

text \<open>
  The byte formats of the multi-protocol server, without its sessions: the big-endian
  length prefix of the binary protocol, the lines of the line protocol as a function on
  the whole stream (the reference against which the server's in-place scan is proved),
  and the decimal numerals of the session ids. The locale \<open>framing\<close> is the contract of a
  message format: what was encoded decodes again, whatever follows it; its client lemma
  decodes a whole stream. It is interpreted on the server's three encoders in
  \<^verbatim>\<open>Protocol_Exchange.thy\<close>.
\<close>

section \<open>Big-endian 32-bit lengths\<close>

text \<open>\<open>static_cast<uint8_t>(c)\<close> promoted to an integer.\<close>

definition byte_value :: "char \<Rightarrow> u32" where
  "byte_value c = of_nat (of_char c)"

definition be32_value :: "bytes \<Rightarrow> u32" where
  "be32_value data = push_bit 24 (byte_value (data ! 0)) OR push_bit 16 (byte_value (data ! 1))
     OR push_bit 8 (byte_value (data ! 2)) OR byte_value (data ! 3)"

definition be32_bytes :: "u32 \<Rightarrow> bytes" where
  "be32_bytes n = [char_of (unat (drop_bit 24 n AND 0xFF)), char_of (unat (drop_bit 16 n AND 0xFF)),
     char_of (unat (drop_bit 8 n AND 0xFF)), char_of (unat (n AND 0xFF))]"

lemma length_be32_bytes [simp]: "length (be32_bytes n) = 4"
  by (simp add: be32_bytes_def)

lemma byte_value_char_of: "byte_value (char_of (unat (w AND 0xFF :: u32))) = w AND 0xFF"
proof -
  have "unat (w AND 0xFF) \<le> unat (0xFF :: u32)"
    using word_and_le1 [of w "0xFF"] by (simp add: word_le_nat_alt)
  then show ?thesis
    by (simp add: byte_value_def)
qed

lemma be32_roundtrip: "be32_value (be32_bytes n @ rest) = n"
proof -
  have mask: "(0xFF :: u32) = mask 8"
    by (simp add: mask_eq_exp_minus_1)
  have "push_bit 24 (drop_bit 24 n AND 0xFF) OR push_bit 16 (drop_bit 16 n AND 0xFF)
      OR push_bit 8 (drop_bit 8 n AND 0xFF) OR (n AND 0xFF) = n"
    (is "?l = n")
  proof (rule bit_word_eqI)
    fix k
    assume "k < LENGTH(32)"
    then consider "k < 8" | "8 \<le> k" "k < 16" | "16 \<le> k" "k < 24" | "24 \<le> k" "k < 32"
      by force
    then show "bit ?l k = bit n k"
      unfolding mask by cases (auto simp: bit_simps)
  qed
  then show ?thesis
    by (simp add: be32_value_def be32_bytes_def byte_value_char_of)
qed

section \<open>Lines\<close>

definition strip_cr :: "bytes \<Rightarrow> bytes" where
  "strip_cr l = (if l \<noteq> [] \<and> last l = CR then butlast l else l)"

text \<open>
  The complete lines of a stream, and its unfinished last line; \<open>cur\<close> is the part of the
  current line already seen.
\<close>

fun take_lines :: "bytes \<Rightarrow> bytes \<Rightarrow> bytes list \<times> bytes" where
  "take_lines cur [] = ([], cur)"
| "take_lines cur (c # cs) =
     (if c = LF then (strip_cr cur # fst (take_lines [] cs), snd (take_lines [] cs))
      else take_lines (cur @ [c]) cs)"

lemma take_lines_append:
  "take_lines cur (xs @ ys) =
    (fst (take_lines cur xs) @ fst (take_lines (snd (take_lines cur xs)) ys),
     snd (take_lines (snd (take_lines cur xs)) ys))"
  by (induction cur xs rule: take_lines.induct) simp_all

lemma take_lines_no_LF: "LF \<notin> set xs \<Longrightarrow> take_lines cur xs = ([], cur @ xs)"
  by (induction cur xs rule: take_lines.induct) auto

lemma take_lines_rest_no_LF: "LF \<notin> set cur \<Longrightarrow> LF \<notin> set (snd (take_lines cur xs))"
  by (induction cur xs rule: take_lines.induct) auto

lemma take_lines_cur:
  assumes "LF \<notin> set cur"
  shows "take_lines cur xs = take_lines [] (cur @ xs)"
  using assms by (simp add: take_lines_append take_lines_no_LF)

lemma take_lines_rest_length: "length (snd (take_lines cur xs)) \<le> length cur + length xs"
  by (induction cur xs rule: take_lines.induct) (auto simp: le_SucI)

lemma take_lines_rest_suffix:
  "\<exists>front. cur @ xs = front @ snd (take_lines cur xs)"
proof (induction cur xs rule: take_lines.induct)
  case (1 cur)
  show ?case by simp
next
  case (2 cur c cs)
  show ?case
  proof (cases "c = LF")
    case True
    with 2 obtain front where "cs = front @ snd (take_lines [] cs)" by auto
    with True show ?thesis
      by (metis append.assoc append_Cons snd_conv take_lines.simps(2))
  next
    case False
    with 2 show ?thesis by simp
  qed
qed

section \<open>Decimal numerals\<close>

text \<open>\<open>std::to_string\<close> of an unsigned value, and \<open>setw(n)\<close> with fill character zero.\<close>

fun to_string :: "nat \<Rightarrow> string" where
  "to_string n = (if n < 10 then [char_of (48 + n)] else to_string (n div 10) @ [char_of (48 + n mod 10)])"

declare to_string.simps [simp del]

definition zero_pad :: "nat \<Rightarrow> string \<Rightarrow> string" where
  "zero_pad w s = replicate (w - length s) (CHR ''0'') @ s"

text \<open>The value of a numeral, which padding does not change.\<close>

definition numeral_value :: "string \<Rightarrow> nat" where
  "numeral_value s = foldl (\<lambda>v c. 10 * v + (of_char c - 48)) 0 s"

lemma digit_char: "d < 10 \<Longrightarrow> of_char (char_of (48 + d :: nat)) = 48 + d"
  by simp

lemma digit_chars:
  "char_of (48 :: nat) = CHR ''0''" "char_of (49 :: nat) = CHR ''1''" "char_of (50 :: nat) = CHR ''2''"
  "char_of (51 :: nat) = CHR ''3''" "char_of (52 :: nat) = CHR ''4''" "char_of (53 :: nat) = CHR ''5''"
  "char_of (54 :: nat) = CHR ''6''" "char_of (55 :: nat) = CHR ''7''" "char_of (56 :: nat) = CHR ''8''"
  "char_of (57 :: nat) = CHR ''9''"
  by code_simp+

lemma numeral_value_to_string: "numeral_value (to_string n) = n"
proof (induction n rule: to_string.induct)
  case (1 n)
  show ?case
  proof (cases "n < 10")
    case True
    then show ?thesis
      by (simp add: to_string.simps [of n] numeral_value_def digit_char)
  next
    case False
    then show ?thesis
      using 1 by (simp add: to_string.simps [of n] numeral_value_def digit_char)
  qed
qed

lemma numeral_value_zero_pad: "numeral_value (zero_pad w s) = numeral_value s"
proof -
  have "foldl (\<lambda>v c. 10 * v + (of_char c - 48)) 0 (replicate k (CHR ''0'')) = (0::nat)" for k
    by (induction k) simp_all
  then show ?thesis
    by (simp add: numeral_value_def zero_pad_def)
qed

lemma to_string_inj: "to_string m = to_string n \<Longrightarrow> m = n"
  by (metis numeral_value_to_string)

lemma to_string_digits: "c \<in> set (to_string n) \<Longrightarrow> c \<noteq> CHR ''-''"
proof (induction n rule: to_string.induct)
  case (1 n)
  have digit: "char_of (48 + d) \<noteq> CHR ''-''" if "d < 10" for d :: nat
  proof
    assume "char_of (48 + d) = CHR ''-''"
    then have "of_char (char_of (48 + d)) = (45 :: nat)"
      by simp
    with digit_char [OF that] show False by simp
  qed
  show ?case
  proof (cases "n < 10")
    case True
    then show ?thesis
      using "1.prems" digit [of n] by (simp add: to_string.simps [of n])
  next
    case False
    then show ?thesis
      using 1 digit [of "n mod 10"] by (auto simp: to_string.simps [of n])
  qed
qed

lemma zero_pad_digits: "c \<in> set (zero_pad w (to_string n)) \<Longrightarrow> c \<noteq> CHR ''-''"
  by (auto simp: zero_pad_def dest: to_string_digits)

section \<open>The contract of a message format\<close>

text \<open>Decoding message after message, at most \<open>fuel\<close> of them.\<close>

fun decode_all :: "(bytes \<Rightarrow> ('m \<times> nat) option) \<Rightarrow> nat \<Rightarrow> bytes \<Rightarrow> 'm list" where
  "decode_all decode 0 bs = []"
| "decode_all decode (Suc fuel) bs =
     (case decode bs of None \<Rightarrow> [] | Some (m, n) \<Rightarrow> m # decode_all decode fuel (drop n bs))"

locale framing =
  fixes encode :: "'m \<Rightarrow> bytes"
    and decode :: "bytes \<Rightarrow> ('m \<times> nat) option"
    and valid :: "'m \<Rightarrow> bool"
  assumes decode_encode: "valid m \<Longrightarrow> decode (encode m @ rest) = Some (m, length (encode m))"
    and decode_nothing: "decode [] = None"
begin

lemma decode_all_encoded:
  "list_all valid ms \<Longrightarrow> decode_all decode fuel (concat (map encode ms)) = take fuel ms"
proof (induction ms arbitrary: fuel)
  case Nil
  then show ?case by (cases fuel) (simp_all add: decode_nothing)
next
  case (Cons m ms)
  then show ?case by (cases fuel) (simp_all add: decode_encode)
qed

end

text \<open>
  A format whose decoder does not look ahead: what it finds at the front of the bytes
  received so far, it would find with more of them.
\<close>

locale prefix_framing = framing +
  assumes stable: "decode bs = Some (m, n) \<Longrightarrow> n \<le> length bs \<and> decode (bs @ cs) = Some (m, n)"
begin

lemma decode_prefix:
  assumes "valid m" "bs @ rest = encode m @ more" "decode bs = Some (m', n)"
  shows "m' = m" "n = length (encode m)" "drop n bs @ rest = more" "bs = encode m @ drop n bs"
proof -
  have le: "n \<le> length bs" and "decode (encode m @ more) = Some (m', n)"
    using stable [OF assms(3), of rest] assms(2) by auto
  then show n: "m' = m" "n = length (encode m)"
    using decode_encode [OF assms(1), of more] by auto
  have "drop n (bs @ rest) = drop n bs @ rest" "take n (bs @ rest) = take n bs"
    using le by simp_all
  then show "drop n bs @ rest = more" "bs = encode m @ drop n bs"
    using assms(2) n(2) append_take_drop_id [of n bs] by simp_all
qed

end

end
