(* ===== verification/Test_Udp.thy ===== *)
theory Test_Udp
  imports Udp_Client Framing "HOL-Library.Sublist"
begin

text \<open>
  The program of \<^verbatim>\<open>udp-asio-1.28/src/test.cpp\<close>: it starts a \<open>UdpClient\<close>, gives it the messages
  \<open>1\<close> to \<open>10\<close> and stops it. A step is one action of \<open>main\<close> or of the client's thread.
\<close>

section \<open>The program\<close>

datatype um_pc =
    UM_start
  | UM_loop nat     \<comment> \<open>before the test \<open>count++ < 10\<close>\<close>
  | UM_stop
  | UM_stopping     \<comment> \<open>in \<open>UdpClient::stop\<close>\<close>
  | UM_returned

definition um_init :: "um_pc \<times> udp_client" where
  "um_init = (UM_start, udp_init ''172.16.100.247'' 7777)"

fun um_main :: "um_pc \<times> udp_client \<Rightarrow> (um_pc \<times> udp_client) outcome" where
  "um_main (UM_start, s) = Moves (UM_loop 0, udp_start s)"
| "um_main (UM_loop count, s) =
     (if count < 10
      then if locked s then Disabled else Moves (UM_loop (count + 1), udp_send (to_string (count + 1)) s)
      else Moves (UM_stop, s))"
| "um_main (UM_stop, s) = Moves (UM_stopping, stop_store s)"
| "um_main (UM_stopping, s) = (case caller s of
     C_stored \<Rightarrow> Moves (UM_stopping, stop_notify s)
   | C_join \<Rightarrow> if worker s = W_done then Moves (UM_returned, stop_joined s) else Disabled
   | C_failed e \<Rightarrow> Fails (Throws e)
   | C_idle \<Rightarrow> Disabled)"
| "um_main (UM_returned, s) = Disabled"

fun worker_act :: "udp_act \<Rightarrow> bool" where
  "worker_act A_lock = True"
| "worker_act A_check = True"
| "worker_act A_block = True"
| "worker_act A_take = True"
| "worker_act (A_deliver r) = True"
| "worker_act _ = False"

datatype um_event = UM_main | UM_thread udp_act | UM_spurious

fun um_step :: "um_event \<Rightarrow> um_pc \<times> udp_client \<Rightarrow> (um_pc \<times> udp_client) outcome" where
  "um_step UM_main p = um_main p"
| "um_step (UM_thread a) (pc, s) =
     (if worker_act a then (case udp_do a s of Some t \<Rightarrow> Moves (pc, t) | None \<Rightarrow> Disabled) else Disabled)"
| "um_step UM_spurious (pc, s) =
     (if worker s = W_blocked then Moves (pc, s\<lparr>worker := W_lock\<rparr>) else Disabled)"

section \<open>What is sent\<close>

fun um_count :: "um_pc \<Rightarrow> nat" where
  "um_count UM_start = 0"
| "um_count (UM_loop n) = n"
| "um_count _ = 10"

definition numbers :: "nat \<Rightarrow> bytes list" where
  "numbers n = map to_string [1..<Suc n]"

definition um_ok :: "um_pc \<times> udp_client \<Rightarrow> bool" where
  "um_ok p \<longleftrightarrow> (case p of (pc, s) \<Rightarrow> udp_reachable (udp_init ''172.16.100.247'' 7777) s
     \<and> accepted_messages s = numbers (um_count pc) \<and> um_count pc \<le> 10
     \<and> (pc \<noteq> UM_stopping \<longrightarrow> caller s = C_idle) \<and> (pc = UM_start \<longrightarrow> worker s = W_none \<and> \<not> joinable s)
     \<and> (pc = UM_returned \<longrightarrow> worker s = W_done))"

lemma to_string_nonempty: "to_string n \<noteq> []"
  by (simp add: to_string.simps [of n])

lemma numbers_Suc: "numbers (Suc n) = numbers n @ [to_string (Suc n)]"
  by (simp add: numbers_def)

lemma accepted_calls [simp]:
  "accepted_messages (udp_start s) = accepted_messages s"
  "accepted_messages (udp_send m s) = accepted_messages s @ (if m = [] then [] else [m])"
  "accepted_messages (stop_store s) = accepted_messages s"
  "accepted_messages (stop_notify s) = accepted_messages s"
  "accepted_messages (stop_joined s) = accepted_messages s"
  by (simp_all add: accepted_messages_def udp_defs)

lemma caller_udp_send [simp]: "caller (udp_send m s) = caller s"
  by (simp add: udp_send_def notify_def)

lemma worker_act_keeps:
  assumes "worker_act a" "udp_do a s = Some t"
  shows "accepted_messages t = accepted_messages s \<and> caller t = caller s \<and> joinable t = joinable s
    \<and> worker s \<noteq> W_none \<and> worker s \<noteq> W_done"
  using assms
  by (cases a) (auto simp: accepted_messages_def udp_defs split: if_splits worker_pc.splits list.splits delivery.splits)

lemma um_ok_main:
  assumes "um_ok (pc, s)" "um_main (pc, s) = Moves q"
  shows "um_ok q"
proof -
  note reach = udp_reach_step [of _ s]
  show ?thesis
  proof (cases pc)
    case UM_start
    with assms have "udp_step U_caller s (udp_start s)"
      by (intro udp_step.call_start) (simp add: um_ok_def)
    then show ?thesis
      using assms UM_start by (auto simp: um_ok_def udp_start_def Let_def accepted_messages_def intro: udp_reach_step)
  next
    case (UM_loop n)
    show ?thesis
    proof (cases "n < 10")
      case True
      with assms UM_loop have "udp_step U_caller s (udp_send (to_string (n + 1)) s)"
        by (intro udp_step.call_send) (auto simp: um_ok_def split: if_splits)
      then show ?thesis
        using assms UM_loop True
        by (auto simp: um_ok_def numbers_Suc to_string_nonempty split: if_splits intro: udp_reach_step)
    next
      case False
      then show ?thesis using assms UM_loop by (auto simp: um_ok_def)
    qed
  next
    case UM_stop
    with assms have "udp_step U_caller s (stop_store s)"
      by (intro udp_step.call_stop) (simp add: um_ok_def)
    then show ?thesis
      using assms UM_stop by (auto simp: um_ok_def intro: udp_reach_step)
  next
    case UM_stopping
    show ?thesis
    proof (cases "caller s")
      case C_stored
      from udp_step.call_notify [OF C_stored] show ?thesis
        using assms UM_stopping C_stored by (auto simp: um_ok_def intro: udp_reach_step)
    next
      case C_join
      with assms UM_stopping have w: "worker s = W_done" "q = (UM_returned, stop_joined s)"
        by (auto split: if_splits)
      from udp_step.call_join [OF C_join w(1)] show ?thesis
        using assms UM_stopping w by (auto simp: um_ok_def stop_joined_def accepted_messages_def intro: udp_reach_step)
    qed (use assms UM_stopping in auto)
  qed (use assms in auto)
qed

lemma um_ok_step:
  assumes "um_ok p" "um_step e p = Moves q"
  shows "um_ok q"
proof (cases e)
  case UM_main
  then show ?thesis using assms um_ok_main by (cases p) simp
next
  case (UM_thread a)
  then obtain t where t: "udp_do a (snd p) = Some t" "worker_act a" "q = (fst p, t)"
    using assms(2) by (cases p) (auto split: if_splits option.splits)
  obtain l where "udp_step l (snd p) t"
    using udp_do_step [OF t(1)] by blast
  with assms(1) worker_act_keeps [OF t(2,1)] t show ?thesis
    by (auto simp: um_ok_def split: prod.splits intro: udp_reach_step)
next
  case UM_spurious
  then have w: "worker (snd p) = W_blocked" "q = (fst p, (snd p)\<lparr>worker := W_lock\<rparr>)"
    using assms(2) by (cases p; auto split: if_splits)+
  from udp_step.spurious [OF w(1)] assms(1) w show ?thesis
    by (auto simp: um_ok_def accepted_messages_def split: prod.splits intro: udp_reach_step)
qed

lemma subseq_datagrams: "subseq (datagrams s) (attempts s)"
proof -
  have "subseq (picks udp_datagram_of xs) (picks udp_attempt_of xs)" for xs
  proof (induction xs)
    case (Cons x xs)
    then show ?case by (cases x) auto
  qed simp
  then show ?thesis
    by (simp add: datagrams_def attempts_def)
qed

interpretation umi: step_invariant um_step um_ok
  by unfold_locales (rule um_ok_step)

text \<open>
  C32: what the program sends. In every execution the messages that its client tries to send
  are \<open>1\<close>, \<open>2\<close>, \<open>3\<close> and so on in this order, each at most once and none after \<open>10\<close>, and the
  datagrams that leave are among them, in this order; when \<open>main\<close> returns the client's thread
  has ended, so nothing is sent any more, and what it had not sent by then is lost.
\<close>

theorem udp_test_sends_numbers:
  assumes "run um_step es um_init = Moves (pc, s)"
  shows "prefix (attempts s) (map to_string [1..<11]) \<and> subseq (datagrams s) (attempts s)
    \<and> (pc = UM_returned \<longrightarrow> worker s = W_done)"
proof -
  have "um_ok um_init"
    by (simp add: um_ok_def um_init_def udp_reach_start udp_init_def accepted_messages_def numbers_def)
  from umi.kept_run [OF this assms] have ok: "um_ok (pc, s)" .
  have n: "prefix (numbers m) (numbers n)" if "m \<le> n" for m n
    using that by (induction n rule: dec_induct) (simp_all add: numbers_Suc prefix_prefix)
  have "udp_fifo (udp_init ''172.16.100.247'' 7777)"
    by (simp add: udp_fifo_def udp_init_def accepted_messages_def attempts_def nonempty_def)
  then have "udp_fifo s"
    using uf.udp_always ok by (auto simp: um_ok_def)
  then have "numbers (um_count pc) = attempts s @ in_hand (worker s) @ nonempty (msg_queue s)"
    using ok by (simp add: um_ok_def udp_fifo_def)
  then have "prefix (attempts s) (numbers (um_count pc))"
    by (rule prefixI)
  then have "prefix (attempts s) (numbers 10)"
    using n [of "um_count pc" 10] ok prefix_order.order_trans by (auto simp: um_ok_def)
  moreover have "subseq (datagrams s) (attempts s)"
    by (rule subseq_datagrams)
  ultimately show ?thesis
    using ok by (simp add: um_ok_def numbers_def)
qed

text \<open>The example: \<open>main\<close> stops the client before its thread has done anything but take \<open>1\<close>.\<close>

definition um_demo_events :: "um_event list" where
  "um_demo_events = [UM_main, UM_main, UM_thread A_lock, UM_thread A_check, UM_thread A_take]
     @ [UM_main, UM_main, UM_main, UM_main, UM_main, UM_main]
     @ [UM_main, UM_main, UM_main, UM_main, UM_main, UM_main]
     @ [UM_thread (A_deliver (Completed success_code)), UM_thread A_lock, UM_thread A_check, UM_thread A_take, UM_main]"

theorem udp_test_sends_numbers_witness:
  "\<exists>s. run um_step um_demo_events um_init = Moves (UM_returned, s)
    \<and> attempts s = [''1''] \<and> worker s = W_done \<and> length (msg_queue s) = 9"
proof -
  have "to_string (Suc 0) = ''1''"
    by code_simp
  then obtain s where s: "run um_step um_demo_events um_init = Moves (UM_returned, s)"
      "attempts s = [''1'']" "length (msg_queue s) = 9"
    by (simp add: um_demo_events_def um_init_def udp_init_def udp_defs attempts_def
        to_string_nonempty)
  from udp_test_sends_numbers [OF s(1)] s show ?thesis by blast
qed

end
