(* ===== verification/Console.thy ===== *)
theory Console
  imports Asio_Runtime
begin

text \<open>
  Reading the console, as the \<open>main\<close> functions of the client tests and of the multi-session
  server do: an input stream with its state bits, \<open>istream::getline\<close> into a \<open>char\<close> array,
  \<open>std::getline\<close> into a string, and the two loops over them. The loop of the client tests is
  proved equal to a specification on the lines of the input, and the command loop of the
  server is shown to return exactly when some line says so.
\<close>

section \<open>Input streams\<close>

record istream =
  unread :: bytes
  eofbit :: bool
  failbit :: bool

definition fresh_input :: "bytes \<Rightarrow> istream" where
  "fresh_input inp = \<lparr>unread = inp, eofbit = False, failbit = False\<rparr>"

text \<open>
  The characters \<open>getline\<close> takes: up to the end, up to and with a line feed, or until there
  is no more room, in this order of tests. The results are the characters stored, those left,
  whether the end was reached and whether the room ran out.
\<close>

fun get_chars :: "nat \<Rightarrow> bytes \<Rightarrow> bytes \<times> bytes \<times> bool \<times> bool" where
  "get_chars room [] = ([], [], True, False)"
| "get_chars room (c # cs) =
     (if c = LF then ([], cs, False, False)
      else if room = 0 then ([], c # cs, False, True)
      else (case get_chars (room - 1) cs of (xs, rest, e, f) \<Rightarrow> (c # xs, rest, e, f)))"

text \<open>\<open>getline(line, n)\<close>: a stream that is not good fails at once, and so does one with nothing to extract.\<close>

definition getline :: "nat \<Rightarrow> bytes \<Rightarrow> istream \<Rightarrow> bytes \<times> istream" where
  "getline n line st =
     (if eofbit st \<or> failbit st then (overwrite line 0 [NUL], st\<lparr>failbit := True\<rparr>)
      else (case get_chars (n - 1) (unread st) of (xs, rest, e, f) \<Rightarrow>
        (overwrite line 0 (xs @ [NUL]),
         \<lparr>unread = rest, eofbit = e, failbit = f \<or> rest = unread st\<rparr>)))"

text \<open>\<open>std::string msg(line)\<close> ends at the first NUL.\<close>

definition c_string :: "bytes \<Rightarrow> bytes" where
  "c_string line = takeWhile (\<lambda>c. c \<noteq> NUL) line"

lemma get_chars_shrinks:
  "get_chars room cs = (xs, rest, e, f) \<Longrightarrow> rest = cs \<or> length rest < length cs"
  by (induction room cs arbitrary: xs rest e f rule: get_chars.induct)
    (fastforce split: if_splits prod.splits)+

lemma getline_shrinks:
  assumes "getline n line st = (line', st')" "\<not> failbit st'"
  shows "length (unread st') < length (unread st)"
  using assms by (auto simp: getline_def split: if_splits prod.splits dest: get_chars_shrinks)

lemma get_chars_line:
  "length l \<le> room \<Longrightarrow> LF \<notin> set l \<Longrightarrow> get_chars room (l @ LF # cs) = (l, cs, False, False)"
  by (induction l arbitrary: room) auto

lemma get_chars_last:
  "length l \<le> room \<Longrightarrow> LF \<notin> set l \<Longrightarrow> get_chars room l = (l, [], True, False)"
  by (induction l arbitrary: room) auto

lemma get_chars_overlong:
  "room < length l \<Longrightarrow> LF \<notin> set l \<Longrightarrow>
    get_chars room (l @ cs) = (take room l, drop room l @ cs, False, True)"
proof (induction l arbitrary: room)
  case (Cons c l)
  then show ?case by (cases room) auto
qed simp

section \<open>The loop of the client tests\<close>

definition line_size :: nat where
  "line_size = 1024"

text \<open>
  \<open>while (std::cin.getline(line, sizeof(line) - 1))\<close>: the messages that are sent, and the
  stream as the loop leaves it.
\<close>

function console_loop :: "bytes \<Rightarrow> istream \<Rightarrow> bytes list \<times> istream" where
  "console_loop line st =
     (case getline (line_size - 1) line st of (line', st') \<Rightarrow>
        if failbit st' then ([], st')
        else
          let msg = c_string line'
          in if msg = ''exit'' then ([], st')
             else (case console_loop (replicate line_size NUL) st' of (ms, st'') \<Rightarrow> (msg # ms, st'')))"
  by pat_completeness auto

termination
  by (relation "measure (\<lambda>(line, st). length (unread st))") (auto dest: getline_shrinks [OF sym])

declare console_loop.simps [simp del]

text \<open>What a line becomes as a message, and the lines of an input.\<close>

definition typed_messages :: "bytes list \<Rightarrow> bytes list" where
  "typed_messages ls =
     takeWhile (\<lambda>m. m \<noteq> ''exit'') (map c_string (takeWhile (\<lambda>l. length l < line_size - 1) ls))"

definition as_input :: "bytes list \<Rightarrow> bytes \<Rightarrow> bytes" where
  "as_input ls rest = concat (map (\<lambda>l. l @ [LF]) ls) @ rest"

lemma typed_messages_simps [simp]:
  "typed_messages [] = []"
  "typed_messages (l # ls) = (if length l < line_size - 1 \<and> c_string l \<noteq> ''exit''
     then c_string l # typed_messages ls else [])"
  by (simp_all add: typed_messages_def)

lemma as_input_simps [simp]:
  "as_input [] rest = rest" "as_input (l # ls) rest = l @ LF # as_input ls rest"
  by (simp_all add: as_input_def)

lemma c_string_stored: "c_string (overwrite line 0 (xs @ [NUL])) = c_string xs"
proof -
  have "c_string (xs @ NUL # ys) = c_string xs" for ys
    unfolding c_string_def by (induction xs) auto
  then show ?thesis
    by (simp add: overwrite_def)
qed

lemma fst_consed: "fst (case p of (ms, st) \<Rightarrow> (m # ms, st)) = m # fst p"
  by (cases p) simp

lemma console_loop_last:
  assumes "LF \<notin> set rest"
  shows "fst (console_loop line (fresh_input rest)) = typed_messages (if rest = [] then [] else [rest])"
proof (cases "length rest < line_size - 1")
  case True
  then have "get_chars (line_size - 1 - 1) rest = (rest, [], True, False)"
    using assms by (intro get_chars_last) simp_all
  then have "getline (line_size - 1) line (fresh_input rest)
      = (overwrite line 0 (rest @ [NUL]), \<lparr>unread = [], eofbit = True, failbit = rest = []\<rparr>)"
    by (auto simp: getline_def fresh_input_def)
  moreover have "fst (console_loop mem \<lparr>unread = [], eofbit = True, failbit = False\<rparr>) = []" for mem
    by (subst console_loop.simps) (simp add: getline_def)
  ultimately show ?thesis
    using True by (subst console_loop.simps) (auto simp: c_string_stored Let_def fst_consed)
next
  case False
  then have "get_chars (line_size - 1 - 1) rest = (take (line_size - 2) rest, drop (line_size - 2) rest, False, True)"
    using assms get_chars_overlong [of "line_size - 2" "rest" "[]"] by (simp add: line_size_def)
  with False show ?thesis
    by (subst console_loop.simps) (auto simp: getline_def fresh_input_def line_size_def)
qed

lemma console_loop_lines:
  assumes "\<forall>l \<in> set ls. LF \<notin> set l" "LF \<notin> set rest"
  shows "fst (console_loop line (fresh_input (as_input ls rest)))
    = typed_messages (ls @ (if rest = [] then [] else [rest]))"
  using assms(1)
proof (induction ls arbitrary: line)
  case Nil
  show ?case using console_loop_last [OF assms(2)] by simp
next
  case (Cons l ls)
  let ?inp = "l @ LF # as_input ls rest"
  show ?case
  proof (cases "length l < line_size - 1")
    case True
    have "get_chars (line_size - 1 - 1) ?inp = (l, as_input ls rest, False, False)"
      using True Cons.prems by (intro get_chars_line) simp_all
    moreover have "as_input ls rest \<noteq> ?inp"
      by (auto dest: arg_cong [of _ _ length])
    ultimately have "getline (line_size - 1) line (fresh_input ?inp)
        = (overwrite line 0 (l @ [NUL]), fresh_input (as_input ls rest))"
      by (simp add: getline_def fresh_input_def)
    then show ?thesis
      using True Cons by (subst console_loop.simps) (simp add: c_string_stored Let_def fst_consed, simp add: fresh_input_def)
  next
    case False
    then have "get_chars (line_size - 1 - 1) ?inp
        = (take (line_size - 2) l, drop (line_size - 2) l @ LF # as_input ls rest, False, True)"
      using Cons.prems get_chars_overlong [of "line_size - 2" l "LF # as_input ls rest"]
      by (simp add: line_size_def)
    with False show ?thesis
      by (subst console_loop.simps) (simp add: getline_def fresh_input_def line_size_def)
  qed
qed

text \<open>
  C34: what the client tests send. Every input is lines, each ended by a line feed, and an
  unended rest. The messages are these lines in order, the rest too unless it is empty, each
  cut at its first NUL, up to a line that says \<open>exit\<close> or that has more than 1022 characters:
  such a line is not sent, and the program shuts down as if the input had ended. What the
  array holds beforehand does not matter.
\<close>

theorem console_sends_lines:
  assumes "\<forall>l \<in> set ls. LF \<notin> set l" "LF \<notin> set rest"
  shows "fst (console_loop line (fresh_input (as_input ls rest)))
    = takeWhile (\<lambda>m. m \<noteq> ''exit'')
        (map c_string (takeWhile (\<lambda>l. length l \<le> 1022) (ls @ (if rest = [] then [] else [rest]))))"
  using console_loop_lines [OF assms] by (simp add: typed_messages_def line_size_def less_Suc_eq_le [of _ 1022, simplified])

theorem console_sends_lines_witness:
  "fst (console_loop [] (fresh_input (as_input [''hello'', '''', replicate 1023 CHR ''x'', ''lost''] '''')))
    = [''hello'', '''']"
proof -
  have "\<forall>l \<in> set [''hello'', '''', replicate 1023 CHR ''x'', ''lost'']. LF \<notin> set l"
    by simp
  from console_sends_lines [OF this, of "''''" "[]"] show ?thesis
    by (simp add: c_string_def)
qed

section \<open>The command loop of the multi-session server\<close>

text \<open>
  \<open>std::getline\<close> into a string. It empties the string only when the stream is good; on a
  stream that has ended the string keeps what it held.
\<close>

definition getline_string :: "bytes \<Rightarrow> istream \<Rightarrow> bytes \<times> istream" where
  "getline_string str st =
     (if eofbit st \<or> failbit st then (str, st\<lparr>failbit := True\<rparr>)
      else
        let xs = takeWhile (\<lambda>c. c \<noteq> LF) (unread st);
            more = drop (length xs) (unread st)
        in (xs, \<lparr>unread = drop 1 more, eofbit = (more = []), failbit = (more = [] \<and> xs = [])\<rparr>))"

text \<open>
  The \<open>while (true)\<close> of \<open>main\<close>; \<open>shown\<close> counts the calls of \<open>print_summary\<close> (the handler is a
  \<open>StatisticsHandler\<close>, so the cast succeeds), and both ways out call \<open>server.stop()\<close>. The
  loop may run for ever, which is the value \<open>None\<close>.
\<close>

partial_function (option) command_loop :: "bytes \<Rightarrow> istream \<Rightarrow> nat \<Rightarrow> nat option" where
  "command_loop command st shown =
     (case getline_string command st of (command', st') \<Rightarrow>
        if command' = ''stop'' then Some shown
        else if command' = ''stats'' then command_loop command' st' (Suc shown)
        else if command' = ''quit'' then Some shown
        else command_loop command' st' shown)"

definition ends_server :: "bytes \<Rightarrow> bool" where
  "ends_server l \<longleftrightarrow> l = ''stop'' \<or> l = ''quit''"

lemma command_loop_stuck:
  assumes "command_loop command st shown = Some r" "eofbit st" "\<not> ends_server command"
  shows False
proof -
  have "eofbit st \<longrightarrow> \<not> ends_server command \<longrightarrow> False" if "command_loop command st shown = Some r"
    using that
    by (rule command_loop.raw_induct [rotated, where P = "\<lambda>c s n r. eofbit s \<longrightarrow> \<not> ends_server c \<longrightarrow> False"])
      (fastforce simp: getline_string_def ends_server_def split: if_splits)
  then show ?thesis using assms by blast
qed

lemma command_loop_ended: "eofbit st \<Longrightarrow> \<not> ends_server command \<Longrightarrow> command_loop command st shown = None"
  using command_loop_stuck by (cases "command_loop command st shown") auto

lemma before_LF:
  assumes "LF \<notin> set l"
  shows "takeWhile (\<lambda>c. c \<noteq> LF) (l @ LF # cs) = l" "takeWhile (\<lambda>c. c \<noteq> LF) l = l"
  using assms by (induction l) auto

lemma getline_string_line:
  "LF \<notin> set l \<Longrightarrow> getline_string str (fresh_input (l @ LF # cs)) = (l, fresh_input cs)"
  by (simp add: getline_string_def fresh_input_def before_LF Let_def)

lemma getline_string_last:
  "LF \<notin> set l \<Longrightarrow> getline_string str (fresh_input l) = (l, \<lparr>unread = [], eofbit = True, failbit = (l = [])\<rparr>)"
  by (simp add: getline_string_def fresh_input_def before_LF Let_def)

text \<open>
  C33: the command loop returns exactly when a line of the input is \<open>stop\<close> or \<open>quit\<close>, the
  unended last line included, and has then printed one summary for every line \<open>stats\<close>
  before it. When the input ends first, \<open>main\<close> never leaves the loop: it spins over the
  failed stream, and if the unended last line is \<open>stats\<close> it prints summaries for ever.
\<close>

theorem command_loop_returns:
  assumes "\<forall>l \<in> set ls. LF \<notin> set l" "LF \<notin> set rest"
  shows "command_loop command (fresh_input (as_input ls rest)) shown =
    (if \<exists>l \<in> set (ls @ [rest]). ends_server l
     then Some (shown + count_list (takeWhile (\<lambda>l. \<not> ends_server l) (ls @ [rest])) ''stats'')
     else None)"
  using assms(1)
proof (induction ls arbitrary: command shown)
  case Nil
  note g = getline_string_last [OF assms(2)]
  show ?case
    by (subst command_loop.simps) (auto simp: g ends_server_def command_loop_ended)
next
  case (Cons l ls)
  then have g: "getline_string str (fresh_input (l @ LF # as_input ls rest)) = (l, fresh_input (as_input ls rest))" for str
    by (intro getline_string_line) simp
  have ih: "command_loop c (fresh_input (as_input ls rest)) n =
      (if \<exists>l \<in> set (ls @ [rest]). ends_server l
       then Some (n + count_list (takeWhile (\<lambda>l. \<not> ends_server l) (ls @ [rest])) ''stats'')
       else None)" for c n
    using Cons by simp
  show ?case
    by (subst command_loop.simps, simp only: as_input_simps g prod.case ih) (simp add: ends_server_def)
qed

theorem command_loop_returns_witness:
  "command_loop [] (fresh_input (as_input [''stats'', ''help'', ''stats''] ''quit'')) 0 = Some 2
    \<and> command_loop [] (fresh_input (as_input [''help''] ''stats'')) 0 = None"
  using command_loop_returns [of "[''stats'', ''help'', ''stats'']" "''quit''" "[]" 0]
    command_loop_returns [of "[''help'']" "''stats''" "[]" 0]
  by (simp add: ends_server_def)

end
