(* ===== verification/Write_Queue.thy ===== *)
theory Write_Queue
  imports Asio_Runtime "HOL-Library.Sublist"
begin

text \<open>
  The discipline with which every connection of the repository writes: a message is
  appended to a queue; if the queue was empty its first write starts at once; when a
  write completes, its message leaves the queue and the write of the next one starts.
  The locale states the discipline as laws on the steps of a component, each step
  classified by \<open>label\<close>; its theorem is that along any run without a broken write the
  messages are handed to \<open>async_write\<close> one at a time, in the order in which they were
  accepted, none lost and none repeated. Four components provide the laws.
\<close>

datatype 'm wq_label =
    Accepts 'm     \<comment> \<open>a message is appended to the queue\<close>
  | Completes      \<comment> \<open>a write completes without error\<close>
  | Unrelated      \<comment> \<open>the step touches neither queue nor writes\<close>
  | Breaks         \<comment> \<open>a write error, or a step that clears the queue\<close>

text \<open>The messages a run accepts, and whether it breaks.\<close>

definition accepts :: "('e \<Rightarrow> 's \<Rightarrow> 'm wq_label) \<Rightarrow> 'e \<Rightarrow> 's \<Rightarrow> 'm list" where
  "accepts label e s = (case label e s of Accepts m \<Rightarrow> [m] | _ \<Rightarrow> [])"

definition accepted ::
    "('e \<Rightarrow> 's \<Rightarrow> 's outcome) \<Rightarrow> ('e \<Rightarrow> 's \<Rightarrow> 'm wq_label) \<Rightarrow> 'e list \<Rightarrow> 's \<Rightarrow> 'm list" where
  "accepted step label = history step (accepts label)"

lemma accepted_simps [simp]:
  "accepted step label [] s = []"
  "accepted step label (e # es) s = (case label e s of Accepts m \<Rightarrow> [m] | _ \<Rightarrow> []) @
     (case step e s of Moves t \<Rightarrow> accepted step label es t | _ \<Rightarrow> [])"
  by (simp_all add: accepted_def accepts_def split: outcome.split)

fun unbroken :: "('e \<Rightarrow> 's \<Rightarrow> 's outcome) \<Rightarrow> ('e \<Rightarrow> 's \<Rightarrow> 'm wq_label) \<Rightarrow> 'e list \<Rightarrow> 's \<Rightarrow> bool" where
  "unbroken step label [] s = True"
| "unbroken step label (e # es) s =
     (label e s \<noteq> Breaks \<and> (case step e s of Moves t \<Rightarrow> unbroken step label es t | _ \<Rightarrow> True))"

locale write_queue =
  fixes step :: "'e \<Rightarrow> 's \<Rightarrow> 's outcome"
    and label :: "'e \<Rightarrow> 's \<Rightarrow> 'm wq_label"
    and queue :: "'s \<Rightarrow> 'm list"
    and inflight :: "'s \<Rightarrow> 'm list"
    and written :: "'s \<Rightarrow> 'm list"
  assumes accept_law: "step e s = Moves t \<Longrightarrow> label e s = Accepts m \<Longrightarrow>
      queue t = queue s @ [m]
      \<and> inflight t = inflight s @ (if queue s = [] then [m] else [])
      \<and> written t = written s @ (if queue s = [] then [m] else [])"
    and complete_law: "step e s = Moves t \<Longrightarrow> label e s = Completes \<Longrightarrow>
      \<exists>m0 m ms. queue s = m # ms \<and> queue t = ms \<and> m0 \<in> set (inflight s)
      \<and> inflight t = remove1 m0 (inflight s) @ take 1 ms
      \<and> written t = written s @ take 1 ms"
    and unrelated_law: "step e s = Moves t \<Longrightarrow> label e s = Unrelated \<Longrightarrow>
      queue t = queue s \<and> inflight t = inflight s \<and> written t = written s"
begin

lemma complete_enabled:
  "step e s = Moves t \<Longrightarrow> label e s = Completes \<Longrightarrow> inflight s \<noteq> []"
  by (frule (1) complete_law) auto

text \<open>A completion when the first message of the queue is the one in flight.\<close>

lemma complete_first:
  assumes "step e s = Moves t" "label e s = Completes" "inflight s = take 1 (queue s)"
  shows "\<exists>m ms. queue s = m # ms \<and> queue t = ms \<and> inflight t = take 1 ms
    \<and> written t = written s @ take 1 ms"
  using complete_law [OF assms(1,2)] assms(3) by auto

lemma queue_history:
  assumes "run step es s = Moves t" "unbroken step label es s"
    and "inflight s = take 1 (queue s)" "written s = hist @ take 1 (queue s)"
  shows "\<exists>sent. hist @ queue s @ accepted step label es s = sent @ queue t
    \<and> inflight t = take 1 (queue t) \<and> written t = sent @ take 1 (queue t)"
  using assms
proof (induction es arbitrary: s hist)
  case Nil
  then show ?case by auto
next
  case (Cons e es)
  then obtain u where u: "step e s = Moves u" "run step es u = Moves t"
    unfolding run_Cons_Moves by blast
  have rest: "unbroken step label es u"
    using Cons.prems(2) u(1) by simp
  show ?case
  proof (cases "label e s")
    case (Accepts m)
    have "inflight u = take 1 (queue u)" "written u = hist @ take 1 (queue u)"
      using accept_law [OF u(1) Accepts] Cons.prems(3,4) by (cases "queue s"; simp)+
    from Cons.IH [OF u(2) rest this] show ?thesis
      using accept_law [OF u(1) Accepts] Accepts u(1) by simp
  next
    case Completes
    obtain m ms where q: "queue s = m # ms" "queue u = ms" "inflight u = take 1 ms"
        "written u = written s @ take 1 ms"
      using complete_first [OF u(1) Completes Cons.prems(3)] by blast
    then have "inflight u = take 1 (queue u)" "written u = (hist @ [m]) @ take 1 (queue u)"
      using Cons.prems(4) by simp_all
    from Cons.IH [OF u(2) rest this] show ?thesis
      using q Completes u(1) by simp
  next
    case Unrelated
    have "inflight u = take 1 (queue u)" "written u = hist @ take 1 (queue u)"
      using unrelated_law [OF u(1) Unrelated] Cons.prems(3,4) by simp_all
    from Cons.IH [OF u(2) rest this] show ?thesis
      using unrelated_law [OF u(1) Unrelated] Unrelated u(1) by simp
  next
    case Breaks
    then show ?thesis using Cons.prems(2) by simp
  qed
qed

text \<open>From an idle connection: the accepted messages are those sent and those queued.\<close>

lemma fifo_delivery:
  assumes "run step es s = Moves t" "unbroken step label es s"
    and "queue s = []" "inflight s = []" "written s = []"
  shows "\<exists>sent. accepted step label es s = sent @ queue t
    \<and> written t = sent @ take 1 (queue t) \<and> inflight t = take 1 (queue t)"
  using queue_history [OF assms(1,2), of "[]"] assms(3-5) by auto

text \<open>Nothing that was handed to \<open>async_write\<close> is taken back.\<close>

lemma written_grows:
  assumes "step e s = Moves t" "label e s \<noteq> Breaks"
  shows "\<exists>ms. written t = written s @ ms"
  using assms(2) accept_law [OF assms(1)] complete_law [OF assms(1)] unrelated_law [OF assms(1)]
  by (cases "label e s") auto

end

text \<open>Steps that all avoid \<open>Breaks\<close>.\<close>

lemma guarded_unbroken:
  assumes "guarded calm step es s" "\<And>e s. calm e s \<Longrightarrow> label e s \<noteq> Breaks"
  shows "unbroken step label es s"
  using assms(1) by (induction es arbitrary: s) (auto dest: assms(2) split: outcome.splits)

section \<open>From the caller to the socket\<close>

text \<open>
  A client whose \<open>send\<close> posts a task that appends to the queue. \<open>waiting\<close> are the messages of
  the posted tasks, \<open>handed\<close> those that a step takes from the caller, \<open>in_order\<close> the steps in
  which posted tasks run first come, first served. A step may drop messages (a closed socket, a
  lost connection); a step that breaks the queue leaves it or empties it.
\<close>

locale ordered_writes = write_queue step label queue inflight written
  for step :: "'e \<Rightarrow> 's \<Rightarrow> 's outcome"
    and label :: "'e \<Rightarrow> 's \<Rightarrow> 'm wq_label"
    and queue :: "'s \<Rightarrow> 'm list"
    and inflight :: "'s \<Rightarrow> 'm list"
    and written :: "'s \<Rightarrow> 'm list" +
  fixes waiting :: "'s \<Rightarrow> 'm list"
    and handed :: "'e \<Rightarrow> 's \<Rightarrow> 'm list"
    and in_order :: "'e \<Rightarrow> 's \<Rightarrow> bool"
  assumes accept_front: "step e s = Moves t \<Longrightarrow> in_order e s \<Longrightarrow> label e s = Accepts m \<Longrightarrow>
      waiting s @ handed e s = m # waiting t"
    and others_wait: "step e s = Moves t \<Longrightarrow> in_order e s \<Longrightarrow> (\<And>m. label e s \<noteq> Accepts m) \<Longrightarrow>
      subseq (waiting t) (waiting s @ handed e s)"
    and breaks_law: "step e s = Moves t \<Longrightarrow> label e s = Breaks \<Longrightarrow>
      written t = written s \<and> (queue t = queue s \<or> queue t = [])"
begin

text \<open>What was written, is queued or waits was handed over, in this order.\<close>

definition ordered :: "'m list \<Rightarrow> 's \<Rightarrow> bool" where
  "ordered h s \<longleftrightarrow> (\<exists>sent. written s = sent @ take 1 (queue s)
     \<and> subseq (sent @ queue s @ waiting s) h)"

lemma ordered_other:
  assumes "subseq (sent @ q @ waiting s) h" "subseq (waiting t) (waiting s @ x)"
  shows "subseq (sent @ q @ waiting t) (h @ x)"
  using list_emb_append_mono [OF assms(1) subseq_order.order_refl [of x]]
    list_emb_append_mono [OF subseq_order.order_refl [of "sent @ q"] assms(2)]
  by (metis append.assoc subseq_order.order_trans)

lemma ordered_step:
  assumes "ordered h s" "in_order e s" "step e s = Moves t"
  shows "ordered (h @ handed e s) t"
proof -
  obtain sent where w: "written s = sent @ take 1 (queue s)" "subseq (sent @ queue s @ waiting s) h"
    using assms(1) by (auto simp: ordered_def)
  note others = ordered_other [OF w(2) others_wait [OF assms(3,2)]]
  show ?thesis
  proof (cases "label e s")
    case (Accepts m)
    have "subseq ((sent @ queue s @ waiting s) @ handed e s) (h @ handed e s)"
      by (rule list_emb_append_mono [OF w(2)]) simp
    then have "subseq (sent @ (queue s @ [m]) @ waiting t) (h @ handed e s)"
      using accept_front [OF assms(3,2) Accepts] by simp
    moreover have "written t = sent @ take 1 (queue s @ [m])" "queue t = queue s @ [m]"
      using accept_law [OF assms(3) Accepts] w(1) by (cases "queue s"; simp)+
    ultimately show ?thesis
      unfolding ordered_def by (intro exI [of _ sent]) simp
  next
    case Completes
    obtain m ms where q: "queue s = m # ms" "queue t = ms" "written t = written s @ take 1 ms"
      using complete_law [OF assms(3) Completes] by blast
    have "written t = (sent @ [m]) @ take 1 (queue t)"
      using q w(1) by simp
    moreover have "subseq ((sent @ [m]) @ queue t @ waiting t) (h @ handed e s)"
      using others Completes q by simp
    ultimately show ?thesis
      unfolding ordered_def by blast
  next
    case Unrelated
    then show ?thesis
      using others w(1) unrelated_law [OF assms(3) Unrelated] unfolding ordered_def by auto
  next
    case Breaks
    then have b: "written t = written s" "queue t = queue s \<or> queue t = []"
      using breaks_law [OF assms(3)] by auto
    have "subseq (sent @ take 1 (queue s) @ waiting s) h"
      by (rule subseq_order.order_trans [OF _ w(2)])
        (simp add: subseq_append' prefix_imp_subseq take_is_prefix)
    then have "subseq ((sent @ take 1 (queue s)) @ [] @ waiting t) (h @ handed e s)"
      using ordered_other [of sent "take 1 (queue s)"] others_wait [OF assms(3,2)] Breaks by simp
    with b w(1) others Breaks show ?thesis
      unfolding ordered_def by auto
  qed
qed

end

sublocale ordered_writes \<subseteq> order: obliged_history step in_order handed ordered
  by unfold_locales (rule ordered_step)

context ordered_writes begin

text \<open>What is written is, in order and without repetition, part of what was handed over.\<close>

lemma ordered_written: "ordered h s \<Longrightarrow> subseq (written s) h"
proof -
  assume "ordered h s"
  then obtain sent where w: "written s = sent @ take 1 (queue s)" "subseq (sent @ queue s @ waiting s) h"
    by (auto simp: ordered_def)
  have "prefix (written s) (sent @ queue s @ waiting s)"
    using w(1) by (simp add: take_is_prefix prefix_prefix)
  then show ?thesis
    using w(2) prefix_imp_subseq subseq_order.order_trans by blast
qed

end

end
