(* ===== verification/Test_Program.thy ===== *)
theory Test_Program
  imports Console Write_Queue
begin

text \<open>
  What the client tests have in common: \<open>main\<close> reads lines and gives them to the client, a
  thread of its own sets the client up, and a service thread runs the \<open>io_context\<close>. A
  program is the client, if it exists yet, with the positions of the three threads; a step is
  one action of one thread. Calls on the client are one action each (they post a task or set
  a field).
\<close>

section \<open>The threads\<close>

datatype main_pc =
    M_read bytes istream   \<comment> \<open>about to read a line, with the array and the stream\<close>
  | M_send bytes istream   \<comment> \<open>with a message in hand\<close>
  | M_stop                 \<comment> \<open>in \<open>Test::stop\<close>, before the client is closed\<close>
  | M_join                 \<comment> \<open>in \<open>Test::stop\<close>, before the call of \<open>t_.join()\<close>\<close>
  | M_joining              \<comment> \<open>in \<open>t_.join()\<close>\<close>
  | M_returned

datatype setup_pc =
    D_construct
  | D_callbacks
  | D_open
  | D_thread
  | D_check
  | D_joining
  | D_over

datatype service_pc = V_none | V_running | V_returned

record 'c test_program =
  client_ptr :: "'c option"
  main_pc :: main_pc
  setup_pc :: setup_pc
  service :: service_pc
  thread_handle :: bool

definition test_start :: "bytes \<Rightarrow> bytes \<Rightarrow> 'c test_program" where
  "test_start mem inp = \<lparr>client_ptr = None, main_pc = M_read mem (fresh_input inp),
     setup_pc = D_construct, service = V_none, thread_handle = False\<rparr>"

definition at_client :: "('c \<Rightarrow> 'c) \<Rightarrow> 'c test_program \<Rightarrow> 'c test_program outcome" where
  "at_client f p = (case client_ptr p of
     None \<Rightarrow> Fails (Undefined Null_deref) | Some c \<Rightarrow> Moves (p\<lparr>client_ptr := Some (f c)\<rparr>))"

text \<open>The service thread runs a handler; nothing catches what a handler throws.\<close>

definition at_service :: "('e \<Rightarrow> 'c \<Rightarrow> 'c outcome) \<Rightarrow> 'e \<Rightarrow> 'c test_program \<Rightarrow> 'c test_program outcome" where
  "at_service step e p = (case client_ptr p of
     None \<Rightarrow> Disabled
   | Some c \<Rightarrow> (if service p = V_running
       then map_outcome (\<lambda>d. p\<lparr>client_ptr := Some d\<rparr>) (step e c) else Disabled))"

text \<open>\<open>io_context::run\<close> returns when nothing is outstanding.\<close>

definition service_ends :: "('o, 't, 'b, 'z) aio_scheme test_program \<Rightarrow> ('o, 't, 'b, 'z) aio_scheme test_program outcome" where
  "service_ends p = (case client_ptr p of
     None \<Rightarrow> Disabled
   | Some c \<Rightarrow> (if service p = V_running \<and> pending c = [] \<and> posted c = []
       then Moves (p\<lparr>service := V_returned\<rparr>) else Disabled))"

section \<open>The loop of \<open>main\<close>\<close>

text \<open>One evaluation of the loop's condition, and what follows up to \<open>send\<close> or \<open>stop\<close>.\<close>

definition main_read :: "bytes \<Rightarrow> istream \<Rightarrow> main_pc" where
  "main_read line st =
     (case getline (line_size - 1) line st of (line', st') \<Rightarrow>
        if failbit st' then M_stop
        else let msg = c_string line' in if msg = ''exit'' then M_stop else M_send msg st')"

text \<open>The messages \<open>main\<close> is still to send.\<close>

fun unsent :: "main_pc \<Rightarrow> bytes list" where
  "unsent (M_read line st) = fst (console_loop line st)"
| "unsent (M_send msg st) = msg # fst (console_loop (replicate line_size NUL) st)"
| "unsent _ = []"

lemma unsent_main_read: "unsent (main_read line st) = fst (console_loop line st)"
  by (subst console_loop.simps) (auto simp: main_read_def Let_def fst_consed split: prod.split)

named_theorems test_defs

lemmas [test_defs] = test_start_def at_client_def at_service_def service_ends_def Let_def

lemma map_outcome_Moves: "map_outcome f r = Moves t \<longleftrightarrow> (\<exists>s. r = Moves s \<and> t = f s)"
  by (cases r) auto

section \<open>What was typed and what the client was handed\<close>

text \<open>
  \<open>h\<close> is what \<open>main\<close> has handed to the client, \<open>all\<close> what it hands over in the end, \<open>P\<close>
  what the client makes of \<open>h\<close>.
\<close>

definition typed :: "(bytes list \<Rightarrow> 'c \<Rightarrow> bool) \<Rightarrow> bytes list \<Rightarrow> bytes list \<Rightarrow> 'c test_program \<Rightarrow> bool" where
  "typed P all h p \<longleftrightarrow> prefix (h @ unsent (main_pc p)) all
     \<and> (case client_ptr p of None \<Rightarrow> h = [] | Some c \<Rightarrow> P h c)
     \<and> (setup_pc p = D_construct \<longrightarrow> client_ptr p = None)"

lemma typed_start: "fst (console_loop mem (fresh_input inp)) = all \<Longrightarrow> typed P all [] (test_start mem inp)"
  by (simp add: typed_def test_start_def)

lemma typed_main:
  assumes "typed P all h p" "unsent pc = [] \<or> unsent pc = unsent (main_pc p)"
  shows "typed P all h (p\<lparr>main_pc := pc\<rparr>)"
  using assms by (auto simp: typed_def dest: append_prefixD)

lemma typed_threads:
  assumes "typed P all h p"
  shows "x \<noteq> D_construct \<Longrightarrow> typed P all h (p\<lparr>setup_pc := x\<rparr>)" "typed P all h (p\<lparr>service := v\<rparr>)"
    "typed P all h (p\<lparr>thread_handle := b\<rparr>)"
  using assms by (simp_all add: typed_def)

lemma typed_constructed:
  assumes "typed P all h p" "setup_pc p = D_construct" "P [] c" "x \<noteq> D_construct"
  shows "typed P all h (p\<lparr>client_ptr := Some c, setup_pc := x\<rparr>)"
  using assms by (auto simp: typed_def)

lemma at_client_typed:
  assumes "at_client f p = Moves q" "typed P all h p" "\<And>c. P h c \<Longrightarrow> P h (f c)"
  shows "typed P all h q"
  using assms(1,2) assms(3) by (auto simp: at_client_def typed_def split: option.splits)

lemma at_service_typed:
  assumes "at_service step e p = Moves q" "typed P all h p" "\<And>c d. P h c \<Longrightarrow> step e c = Moves d \<Longrightarrow> P h d"
  shows "typed P all h q"
  using assms(1,2) assms(3) by (auto simp: at_service_def typed_def map_outcome_Moves split: option.splits if_splits)

lemma service_ends_typed: "service_ends p = Moves q \<Longrightarrow> typed P all h p \<Longrightarrow> typed P all h q"
  by (auto simp: service_ends_def typed_def split: option.splits if_splits)

lemma send_typed:
  assumes "at_client f (p\<lparr>main_pc := M_read (replicate line_size NUL) st\<rparr>) = Moves q"
    and "typed P all h p" "main_pc p = M_send msg st" "\<And>c. P h c \<Longrightarrow> P (h @ [msg]) (f c)"
  shows "typed P all (h @ [msg]) q"
  using assms(1-3) assms(4) by (auto simp: at_client_def typed_def split: option.splits)

end
