(* ===== verification/Byte_Fifo.thy ===== *)
theory Byte_Fifo
  imports Prelude
begin

text \<open>
  The contract between a byte buffer and the connection that reads and writes through it:
  bytes go in at the end and are taken from the front. A history (\<open>fifo_history\<close>) is any
  interleaving of the two operations that stays within the room of the buffer; the
  locale's theorem is that the bytes taken, followed by the bytes still stored, are
  exactly the bytes put in, in order.
\<close>

inductive fifo_history ::
    "(bytes \<Rightarrow> 'b \<Rightarrow> 'b result) \<Rightarrow> (nat \<Rightarrow> 'b \<Rightarrow> 'b) \<Rightarrow> ('b \<Rightarrow> bytes) \<Rightarrow> (bytes \<Rightarrow> 'b \<Rightarrow> bool)
      \<Rightarrow> 'b \<Rightarrow> bytes \<Rightarrow> bytes \<Rightarrow> 'b \<Rightarrow> bool"
  for put take_front stored room b
where
  fifo_start: "fifo_history put take_front stored room b [] [] b"
| fifo_put: "fifo_history put take_front stored room b ins outs c \<Longrightarrow> room data c \<Longrightarrow>
    put data c = Inr d \<Longrightarrow> fifo_history put take_front stored room b (ins @ data) outs d"
| fifo_get: "fifo_history put take_front stored room b ins outs c \<Longrightarrow>
    n \<le> length (stored c) \<Longrightarrow>
    fifo_history put take_front stored room b ins (outs @ take n (stored c)) (take_front n c)"

locale byte_fifo =
  fixes put :: "bytes \<Rightarrow> 'b \<Rightarrow> 'b result"
    and take_front :: "nat \<Rightarrow> 'b \<Rightarrow> 'b"
    and stored :: "'b \<Rightarrow> bytes"
    and ok :: "'b \<Rightarrow> bool"
    and room :: "bytes \<Rightarrow> 'b \<Rightarrow> bool"
  assumes put_stores: "ok b \<Longrightarrow> room data b \<Longrightarrow> put data b = Inr b' \<Longrightarrow>
      ok b' \<and> stored b' = stored b @ data"
    and take_drops: "ok b \<Longrightarrow> n \<le> length (stored b) \<Longrightarrow>
      ok (take_front n b) \<and> stored (take_front n b) = drop n (stored b)"
begin

lemma fifo_order:
  assumes "fifo_history put take_front stored room b ins outs c" "ok b"
  shows "ok c \<and> stored b @ ins = outs @ stored c"
  using assms
proof (induction rule: fifo_history.induct)
  case fifo_start
  then show ?case by simp
next
  case (fifo_put ins outs c data d)
  then show ?case using put_stores [of c data d] by simp
next
  case (fifo_get ins outs c n)
  then show ?case using take_drops [of c n] by simp
qed

end

end
