(* ===== verification/Connection_Buffer.thy ===== *)
theory Connection_Buffer
  imports Byte_Fifo
begin

text \<open>
  \<open>ConnectionBuffer\<close> (\<^verbatim>\<open>asio-1.28/include/connection_buffer.h\<close> and
  \<^verbatim>\<open>asio-1.28/src/connection_buffer.cpp\<close>; the copy under \<^verbatim>\<open>asio-1.10/\<close> is the
  same text): a byte buffer with a read and a write index, the input and output buffer
  of \<open>TcpConnection\<close>.

  A pointer into the buffer is its offset. The two indices keep their 32 bits, the
  comparisons that the source makes in \<open>size_t\<close> keep their 64 bits, and a
  \<open>memcpy\<close> is checked for its bounds and for overlap. The abstraction is
  \<open>contents\<close>, the bytes between the two indices; \<open>buf_ok\<close> is the invariant
  \<open>read \<le> write \<le> size < 2\<^sup>3\<^sup>2\<close>. The last part states the buffer's contract as the
  locale \<open>byte_fifo\<close> and interprets it on these operations.
\<close>

section \<open>The class\<close>

record conn_buffer =
  buffer :: bytes
  read_index :: u32
  write_index :: u32

definition buf_size :: u32 where
  "buf_size = 4 * 1024"

definition new_buffer :: conn_buffer where
  "new_buffer = \<lparr>buffer = replicate (unat buf_size) NUL, read_index = 0, write_index = 0\<rparr>"

definition new_buffer_sized :: "u32 \<Rightarrow> conn_buffer" where
  "new_buffer_sized sz = \<lparr>buffer = replicate (unat sz) NUL, read_index = 0, write_index = 0\<rparr>"

text \<open>\<open>&*buffer_.begin()\<close>: dereferencing \<open>begin()\<close> of an empty vector is undefined.\<close>

definition start :: "conn_buffer \<Rightarrow> nat result" where
  "start b = (if buffer b = [] then Inl (Undefined Empty_container) else Inr 0)"

definition writePtr :: "conn_buffer \<Rightarrow> nat result" where
  "writePtr b = rbind (start b) (\<lambda>p. Inr (p + unat (write_index b)))"

definition readPtr :: "conn_buffer \<Rightarrow> nat result" where
  "readPtr b = rbind (start b) (\<lambda>p. Inr (p + unat (read_index b)))"

definition writableCount :: "conn_buffer \<Rightarrow> u32" where
  "writableCount b = of_nat (length (buffer b)) - write_index b"

definition readableCount :: "conn_buffer \<Rightarrow> u32" where
  "readableCount b = write_index b - read_index b"

text \<open>
  The three lines that end every branch of \<open>append\<close>, and the three lines with which
  both \<open>append\<close> and \<open>adjustInternal\<close> move the unread bytes to the front.
\<close>

definition append_at_write :: "bytes \<Rightarrow> conn_buffer \<Rightarrow> conn_buffer result" where
  "append_at_write data b =
     rbind (writePtr b) (\<lambda>p.
     rbind (memcpy_in p data (buffer b)) (\<lambda>buf.
     Inr (b\<lparr>buffer := buf, write_index := write_index b + of_nat (length data)\<rparr>)))"

definition move_to_front :: "conn_buffer \<Rightarrow> conn_buffer result" where
  "move_to_front b =
     rbind (start b) (\<lambda>dst.
     rbind (readPtr b) (\<lambda>src.
     rbind (memcpy_within dst src (unat (write_index b - read_index b)) (buffer b)) (\<lambda>buf.
     Inr (b\<lparr>buffer := buf, write_index := write_index b - read_index b, read_index := 0\<rparr>))))"

text \<open>The number of bytes \<open>buf_size * count\<close> that \<open>append\<close> adds, in 32 bits.\<close>

definition append_growth :: "nat \<Rightarrow> u32" where
  "append_growth datalen = buf_size * (of_nat (datalen div unat buf_size) + 1)"

definition buf_append :: "bytes \<Rightarrow> conn_buffer \<Rightarrow> conn_buffer result" where
  "buf_append data b =
     (let datalen = length data in
      if unat (writableCount b) > datalen then
        append_at_write data b
      else if (ucast (read_index b) :: u64)
                > of_nat (length (buffer b)) - ucast (write_index b) + of_nat datalen then
        rbind (move_to_front b) (append_at_write data)
      else
        append_at_write data
          (b\<lparr>buffer := resize (buffer b) (length (buffer b) + unat (append_growth datalen))\<rparr>))"

definition retrieveReadIndex :: "u32 \<Rightarrow> conn_buffer \<Rightarrow> conn_buffer" where
  "retrieveReadIndex count b =
     (let b = b\<lparr>read_index := read_index b + count\<rparr> in
      if read_index b \<ge> write_index b then b\<lparr>read_index := 0, write_index := 0\<rparr> else b)"

definition retrieveWriteIndex :: "u32 \<Rightarrow> conn_buffer \<Rightarrow> conn_buffer" where
  "retrieveWriteIndex count b =
     (let b = b\<lparr>write_index := write_index b + count\<rparr> in
      if unat (write_index b) \<ge> length (buffer b) then
        b\<lparr>write_index := of_nat (length (buffer b)),
          buffer := resize (buffer b) (length (buffer b) * 2)\<rparr>
      else b)"

definition retrieveBothIndex :: "conn_buffer \<Rightarrow> conn_buffer" where
  "retrieveBothIndex b = b\<lparr>read_index := 0, write_index := 0\<rparr>"

definition adjustInternal :: "conn_buffer \<Rightarrow> conn_buffer result" where
  "adjustInternal b =
     (if (ucast (read_index b) :: u64) \<ge> of_nat (length (buffer b)) - ucast (write_index b)
      then move_to_front b else Inr b)"

section \<open>Invariant and abstraction\<close>

definition buf_ok :: "conn_buffer \<Rightarrow> bool" where
  "buf_ok b \<longleftrightarrow> unat (read_index b) \<le> unat (write_index b)
      \<and> unat (write_index b) \<le> length (buffer b) \<and> length (buffer b) < 2 ^ 32"

definition contents :: "conn_buffer \<Rightarrow> bytes" where
  "contents b = segment (buffer b) (unat (read_index b))
     (unat (write_index b) - unat (read_index b))"

text \<open>The unread bytes are more than the gap in front of them: moving them overlaps.\<close>

definition move_overlaps :: "conn_buffer \<Rightarrow> bool" where
  "move_overlaps b \<longleftrightarrow>
     unat (read_index b) < unat (write_index b) - unat (read_index b)"

named_theorems buf_defs

lemmas [buf_defs] = start_def writePtr_def readPtr_def append_at_write_def
  move_to_front_def memcpy_in_def memcpy_within_def

lemma buf_okD:
  assumes "buf_ok b"
  shows "unat (read_index b) \<le> unat (write_index b)"
    and "unat (write_index b) \<le> length (buffer b)"
    and "length (buffer b) < 2 ^ 32"
  using assms by (simp_all add: buf_ok_def)

lemma buf_ok_unat:
  assumes "buf_ok b"
  shows "unat (writableCount b) = length (buffer b) - unat (write_index b)"
    and "unat (readableCount b) = unat (write_index b) - unat (read_index b)"
  using buf_okD [OF assms]
  by (simp_all add: writableCount_def readableCount_def unat_simps)

lemma length_contents: "buf_ok b \<Longrightarrow> length (contents b) = unat (readableCount b)"
  using buf_okD [of b] by (simp add: contents_def buf_ok_unat)

lemma size_t_room:
  assumes "buf_ok b"
  shows "unat (of_nat (length (buffer b)) - ucast (write_index b) :: u64)
    = length (buffer b) - unat (write_index b)"
  using buf_okD [OF assms] by (simp add: unat_simps)

lemma size_t_room_plus:
  assumes "buf_ok b" "n < 2 ^ 32"
  shows "unat (of_nat (length (buffer b)) - ucast (write_index b) + of_nat n :: u64)
    = length (buffer b) - unat (write_index b) + n"
  using buf_okD [OF assms(1)] assms(2) by (simp add: unat_simps size_t_room [OF assms(1)])

lemma unat_buf_size [simp]: "unat buf_size = 4096"
  by (simp add: buf_size_def)

lemma append_growth_mod: "unat (append_growth n) = 4096 * unat (of_nat (n div 4096) + 1 :: u32) mod 2 ^ 32"
  by (simp only: append_growth_def unat_word_ariths(2) unat_buf_size) simp

lemma append_growth_exact:
  assumes "n + 4096 < 2 ^ 32"
  shows "unat (append_growth n) = 4096 * (n div 4096 + 1)"
proof -
  have "n div 4096 + 1 < 2 ^ 32 div 4096"
    using assms by simp
  moreover have "unat (of_nat (n div 4096) + 1 :: u32) = n div 4096 + 1"
    using assms by (simp add: unat_simps)
  ultimately show ?thesis
    by (simp add: append_growth_mod)
qed

section \<open>Functional behaviour\<close>

lemma append_at_write_room:
  assumes "buf_ok b" "unat (write_index b) + length data \<le> length (buffer b)" "buffer b \<noteq> []"
  obtains b' where "append_at_write data b = Inr b'" "buf_ok b'"
    "contents b' = contents b @ data" "length (buffer b') = length (buffer b)"
    "read_index b' = read_index b"
    "unat (write_index b') = unat (write_index b) + length data"
proof -
  let ?b = "b\<lparr>buffer := overwrite (buffer b) (unat (write_index b)) data,
    write_index := write_index b + of_nat (length data)\<rparr>"
  have w: "unat (write_index b + of_nat (length data)) = unat (write_index b) + length data"
    using buf_okD [OF assms(1)] assms(2) by (simp add: unat_simps)
  have "append_at_write data b = Inr ?b"
    using assms by (simp add: buf_defs)
  moreover have "buf_ok ?b"
    using buf_okD [OF assms(1)] assms(2) by (simp add: buf_ok_def w)
  moreover have "contents ?b = contents b @ data"
    using buf_okD [OF assms(1)] assms(2) by (simp add: contents_def w segment_simps)
  ultimately show thesis
    using assms(2) by (intro that [of ?b]) (simp_all add: w)
qed

lemma move_to_front_overlap:
  assumes "buf_ok b" "buffer b \<noteq> []" "move_overlaps b"
  shows "move_to_front b = Inl (Undefined Memcpy_overlap)"
  using buf_okD [OF assms(1)] assms(2,3)
  by (auto simp: buf_defs move_overlaps_def unat_simps)

lemma move_to_front_ok:
  assumes "buf_ok b" "buffer b \<noteq> []" "\<not> move_overlaps b"
  obtains b' where "move_to_front b = Inr b'" "buf_ok b'" "contents b' = contents b"
    "length (buffer b') = length (buffer b)" "read_index b' = 0"
    "unat (write_index b') = unat (write_index b) - unat (read_index b)"
proof -
  let ?n = "unat (write_index b) - unat (read_index b)"
  let ?b = "b\<lparr>buffer := overwrite (buffer b) 0 (segment (buffer b) (unat (read_index b)) ?n),
    write_index := write_index b - read_index b, read_index := 0\<rparr>"
  note ok = buf_okD [OF assms(1)]
  have w: "unat (write_index b - read_index b) = ?n"
    using ok by (simp add: unat_simps)
  have "move_to_front b = Inr ?b"
    using ok assms(2,3) by (simp add: buf_defs move_overlaps_def w)
  moreover have "buf_ok ?b"
    using ok by (simp add: buf_ok_def w)
  moreover have "contents ?b = contents b"
    using ok by (simp add: contents_def w segment_simps)
  ultimately show thesis
    using ok by (intro that [of ?b]) (simp_all add: w)
qed

text \<open>The branch that \<open>append\<close> takes, with its word arithmetic read as naturals.\<close>

definition buf_room :: "bytes \<Rightarrow> conn_buffer \<Rightarrow> bool" where
  "buf_room data b \<longleftrightarrow> length (buffer b) + length data + 4096 < 2 ^ 32"

definition compacts :: "bytes \<Rightarrow> conn_buffer \<Rightarrow> bool" where
  "compacts data b \<longleftrightarrow> length (buffer b) - unat (write_index b) \<le> length data
     \<and> length (buffer b) - unat (write_index b) + length data < unat (read_index b)"

lemma buf_append_branches:
  assumes "buf_ok b" "length data < 2 ^ 32"
  shows "buf_append data b =
    (if length data < length (buffer b) - unat (write_index b) then append_at_write data b
     else if compacts data b then rbind (move_to_front b) (append_at_write data)
     else append_at_write data
       (b\<lparr>buffer := resize (buffer b)
          (length (buffer b) + unat (append_growth (length data)))\<rparr>))"
  using assms by (simp add: buf_append_def compacts_def buf_ok_unat word_less_nat_alt
      size_t_room_plus unat_simps)

lemma grown_ok:
  assumes "buf_ok b" "buf_room data b"
  defines "g \<equiv> b\<lparr>buffer := resize (buffer b)
    (length (buffer b) + unat (append_growth (length data)))\<rparr>"
  shows "buf_ok g" "contents g = contents b" "buffer g \<noteq> []"
    "unat (write_index g) + length data \<le> length (buffer g)"
proof -
  have grow: "unat (append_growth (length data)) = 4096 * (length data div 4096 + 1)"
    using assms(2) by (intro append_growth_exact) (simp add: buf_room_def)
  have "length data < 4096 * (length data div 4096 + 1)"
    using dividend_less_times_div [of 4096 "length data"] by simp
  then show "buf_ok g" "unat (write_index g) + length data \<le> length (buffer g)"
    using buf_okD [OF assms(1)] assms(2) by (auto simp: buf_ok_def g_def grow buf_room_def)
  show "contents g = contents b"
    using buf_okD [OF assms(1)] by (simp add: contents_def g_def segment_simps)
  have "length (buffer g) \<noteq> 0"
    by (simp add: g_def grow)
  then show "buffer g \<noteq> []"
    by auto
qed

lemma buf_append_cases:
  assumes "buf_ok b" "buf_room data b"
  obtains (overlap) "compacts data b" "move_overlaps b"
      "buf_append data b = Inl (Undefined Memcpy_overlap)"
  | (ok) b' where "\<not> (compacts data b \<and> move_overlaps b)" "buf_append data b = Inr b'"
      "buf_ok b'" "contents b' = contents b @ data"
proof -
  have len: "length data < 2 ^ 32"
    using assms(2) by (simp add: buf_room_def)
  note br = buf_append_branches [OF assms(1) len]
  consider (fits) "length data < length (buffer b) - unat (write_index b)"
    | (move) "compacts data b"
    | (grow) "\<not> length data < length (buffer b) - unat (write_index b)" "\<not> compacts data b"
    by blast
  then show thesis
  proof cases
    case fits
    then have c: "buffer b \<noteq> []" "\<not> compacts data b"
      "unat (write_index b) + length data \<le> length (buffer b)"
      by (auto simp: compacts_def)
    show thesis
      by (rule append_at_write_room [OF assms(1) c(3,1)]) (use ok br fits c(2) in simp)
  next
    case move
    have ne: "buffer b \<noteq> []"
      using move buf_okD [OF assms(1)] by (auto simp: compacts_def)
    have nf: "\<not> length data < length (buffer b) - unat (write_index b)"
      using move by (simp add: compacts_def)
    show thesis
    proof (cases "move_overlaps b")
      case True
      then show thesis
        using overlap br move nf move_to_front_overlap [OF assms(1) ne] by simp
    next
      case False
      then obtain m where m: "move_to_front b = Inr m" "buf_ok m" "contents m = contents b"
        "length (buffer m) = length (buffer b)"
        "unat (write_index m) = unat (write_index b) - unat (read_index b)"
        using move_to_front_ok [OF assms(1) ne] by metis
      have "unat (write_index m) + length data \<le> length (buffer m)" "buffer m \<noteq> []"
        using move m buf_okD [OF assms(1)] ne by (auto simp: compacts_def)
      then show thesis
        using append_at_write_room [OF m(2), of data] ok br move nf m False by auto
    qed
  next
    case grow
    then show thesis
      using append_at_write_room [OF grown_ok(1) grown_ok(4) grown_ok(3), OF assms assms assms]
        grown_ok(2) [OF assms] ok br by auto
  qed
qed


lemma grows_to_nothing:
  assumes "2 ^ 32 - 4096 \<le> n" "n < 2 ^ 32"
  shows "append_growth n = 0"
proof -
  have "n div 4096 = 1048575"
    using assms by simp
  then have "unat (append_growth n) = 0"
    by (simp add: append_growth_mod)
  then show ?thesis
    by (simp add: unat_eq_zero)
qed

text \<open>
  C13: appending. Whenever \<open>append\<close> returns, on whichever of its three branches, the unread
  bytes are the old ones followed by the new ones, and the indices stay in order and in
  bounds.
\<close>

theorem append_appends:
  assumes "buf_ok b" "buf_room data b" "buf_append data b = Inr b'"
  shows "buf_ok b' \<and> contents b' = contents b @ data"
  using assms(3) by (cases rule: buf_append_cases [OF assms(1,2)]) auto

theorem append_appends_witness:
  "buf_ok new_buffer \<and> buf_room ''abc'' new_buffer
   \<and> (\<exists>b'. buf_append ''abc'' new_buffer = Inr b' \<and> contents b' = ''abc'')"
proof -
  have ok: "buf_ok new_buffer" "buf_room ''abc'' new_buffer" "contents new_buffer = []"
    by (simp_all add: buf_ok_def buf_room_def contents_def new_buffer_def segment_simps)
  moreover have "\<not> compacts ''abc'' new_buffer"
    by (simp add: compacts_def new_buffer_def)
  ultimately obtain b' where "buf_append ''abc'' new_buffer = Inr b'"
    using buf_append_cases [OF ok(1,2)] by metis
  with append_appends [OF ok(1,2) this] ok show ?thesis
    by simp
qed

text \<open>
  C35: the only way \<open>append\<close> can fail. For data that fits in the 32-bit sizes it never
  accesses memory outside the buffer, and it runs into undefined behaviour exactly when
  it compacts (there is no room at the end, and the gap in front is larger than the room
  plus the data) and the unread bytes are longer than the gap: then its \<open>memcpy\<close> copies
  between overlapping regions.
\<close>

theorem append_fails_iff:
  assumes "buf_ok b" "buf_room data b"
  shows "buf_append data b = Inl f \<longleftrightarrow>
    f = Undefined Memcpy_overlap \<and> compacts data b \<and> move_overlaps b"
  by (cases rule: buf_append_cases [OF assms]) auto

text \<open>A concrete buffer of sixteen bytes: twelve unread behind a gap of four, no room.\<close>

definition full_tail_buffer :: conn_buffer where
  "full_tail_buffer = \<lparr>buffer = replicate 16 (CHR ''x''), read_index = 4, write_index = 16\<rparr>"

theorem append_fails_iff_witness:
  "buf_ok full_tail_buffer \<and> buf_room ''ab'' full_tail_buffer
   \<and> buf_append ''ab'' full_tail_buffer = Inl (Undefined Memcpy_overlap)"
proof -
  have ok: "buf_ok full_tail_buffer" "buf_room ''ab'' full_tail_buffer"
    by (simp_all add: buf_ok_def buf_room_def full_tail_buffer_def)
  have "compacts ''ab'' full_tail_buffer \<and> move_overlaps full_tail_buffer"
    by (simp add: compacts_def move_overlaps_def full_tail_buffer_def)
  with ok append_fails_iff [OF ok] show ?thesis
    by simp
qed

text \<open>
  The 32-bit growth. For data of \<open>2\<^sup>3\<^sup>2 - 4096\<close> bytes or more the product
  \<open>buf_size * count\<close> wraps to zero, \<open>resize\<close> does not grow the vector, and the copy
  runs past its end.
\<close>

theorem append_huge_overflows:
  assumes "buf_ok b" "length (buffer b) < 2 ^ 32 - 4096" "buffer b \<noteq> []"
    and "2 ^ 32 - 4096 \<le> length data" "length data < 2 ^ 32"
  shows "buf_append data b = Inl (Undefined Out_of_bounds)"
proof -
  note ok = buf_okD [OF assms(1)]
  have "\<not> compacts data b" "\<not> length data < length (buffer b) - unat (write_index b)"
    using ok assms by (auto simp: compacts_def)
  moreover have "resize (buffer b) (length (buffer b)) = buffer b"
    by (simp add: resize_def)
  moreover have "\<not> unat (write_index b) + length data \<le> length (buffer b)"
    using assms by auto
  ultimately show ?thesis
    using assms by (simp add: buf_append_branches grows_to_nothing buf_defs)
qed

theorem append_huge_overflows_witness:
  "buf_append (replicate (2 ^ 32 - 1) NUL) new_buffer = Inl (Undefined Out_of_bounds)"
  by (rule append_huge_overflows) (simp_all add: buf_ok_def new_buffer_def)

section \<open>The receive side\<close>

text \<open>
  \<open>TcpConnection\<close> hands the region \<open>[writePtr(), writePtr() + writableCount())\<close> to
  asio, which stores the received bytes there; the handler then calls
  \<open>retrieveWriteIndex\<close> with their number and \<open>adjustInternal\<close>.
\<close>

definition store_received :: "bytes \<Rightarrow> conn_buffer \<Rightarrow> conn_buffer" where
  "store_received data b = b\<lparr>buffer := overwrite (buffer b) (unat (write_index b)) data\<rparr>"

definition received :: "bytes \<Rightarrow> conn_buffer \<Rightarrow> conn_buffer" where
  "received data b = retrieveWriteIndex (of_nat (length data)) (store_received data b)"

definition recv_room :: "bytes \<Rightarrow> conn_buffer \<Rightarrow> bool" where
  "recv_room data b \<longleftrightarrow> length data \<le> unat (writableCount b)
     \<and> buffer b \<noteq> [] \<and> 2 * length (buffer b) < 2 ^ 32"

text \<open>The buffer between the two calls: full buffers are doubled first.\<close>

lemma received_ok:
  assumes "buf_ok b" "recv_room data b"
  shows "buf_ok (received data b)" "contents (received data b) = contents b @ data"
    "read_index (received data b) = read_index b"
    "unat (write_index (received data b)) = unat (write_index b) + length data"
    "unat (write_index (received data b)) < length (buffer (received data b))"
proof -
  note ok = buf_okD [OF assms(1)]
  have n: "length data \<le> length (buffer b) - unat (write_index b)" "buffer b \<noteq> []"
      "2 * length (buffer b) < 2 ^ 32"
    using assms(2) by (simp_all add: recv_room_def buf_ok_unat [OF assms(1)])
  then have w: "unat (write_index b + of_nat (length data)) = unat (write_index b) + length data"
    using ok by (simp add: unat_simps)
  let ?buf = "overwrite (buffer b) (unat (write_index b)) data"
  have full: "of_nat (length (buffer b)) = write_index b + of_nat (length data)"
    if "unat (write_index b) + length data = length (buffer b)"
    using that by (metis of_nat_add of_nat_unat ucast_id)
  have m: "received data b = b\<lparr>write_index := write_index b + of_nat (length data),
      buffer := (if unat (write_index b) + length data = length (buffer b)
        then resize ?buf (2 * length (buffer b)) else ?buf)\<rparr>"
    using ok n full
    by (auto simp: received_def retrieveWriteIndex_def store_received_def Let_def w mult.commute)
  show "buf_ok (received data b)" "read_index (received data b) = read_index b"
      "unat (write_index (received data b)) = unat (write_index b) + length data"
      "unat (write_index (received data b)) < length (buffer (received data b))"
    using ok n by (auto simp: m buf_ok_def w)
  show "contents (received data b) = contents b @ data"
    using ok n by (auto simp: m contents_def w segment_simps)
qed

lemma adjustInternal_branches:
  assumes "buf_ok b"
  shows "adjustInternal b =
    (if length (buffer b) - unat (write_index b) \<le> unat (read_index b)
     then move_to_front b else Inr b)"
  using assms by (simp add: adjustInternal_def word_le_nat_alt size_t_room unat_simps)

lemma adjustInternal_cases:
  assumes "buf_ok b" "unat (write_index b) < length (buffer b)"
  obtains (overlap) "length (buffer b) - unat (write_index b) \<le> unat (read_index b)"
      "move_overlaps b" "adjustInternal b = Inl (Undefined Memcpy_overlap)"
  | (moved) b' where "\<not> move_overlaps b" "adjustInternal b = Inr b'" "buf_ok b'"
      "contents b' = contents b" "unat (write_index b') < length (buffer b')"
  | (same) "unat (read_index b) < length (buffer b) - unat (write_index b)"
      "adjustInternal b = Inr b"
proof -
  note br = adjustInternal_branches [OF assms(1)]
  have ne: "buffer b \<noteq> []"
    using assms(2) by auto
  show thesis
  proof (cases "length (buffer b) - unat (write_index b) \<le> unat (read_index b)")
    case far: True
    show thesis
    proof (cases "move_overlaps b")
      case True
      then show thesis
        using overlap br far move_to_front_overlap [OF assms(1) ne] by simp
    next
      case False
      show thesis
        by (rule move_to_front_ok [OF assms(1) ne False])
          (use moved br far False assms(2) in simp)
    qed
  next
    case False
    then show thesis
      using same br by simp
  qed
qed

text \<open>
  Receiving. When the handler's two calls return, the unread bytes are the old ones
  followed by the received ones, and there is room for at least one more byte: the next
  \<open>async_read_some\<close> is never given an empty region.
\<close>

theorem receive_appends:
  assumes "buf_ok b" "recv_room data b" "adjustInternal (received data b) = Inr b'"
  shows "buf_ok b' \<and> contents b' = contents b @ data \<and> 0 < writableCount b'"
proof -
  note m = received_ok [OF assms(1,2)]
  have "buf_ok b' \<and> contents b' = contents b @ data \<and> unat (write_index b') < length (buffer b')"
    using assms(3) m(1,2,5) by (cases rule: adjustInternal_cases [OF m(1,5)]) auto
  then show ?thesis
    using buf_ok_unat(1) [of b'] by (simp add: word_less_nat_alt)
qed

theorem receive_appends_witness:
  "\<exists>b'. adjustInternal (received ''abc'' (new_buffer_sized 8)) = Inr b'
     \<and> contents b' = ''abc'' \<and> 0 < writableCount b'"
proof -
  let ?b = "new_buffer_sized 8"
  have ok: "buf_ok ?b" "recv_room ''abc'' ?b" "contents ?b = []"
    by (simp_all add: buf_ok_def recv_room_def new_buffer_sized_def contents_def
        writableCount_def segment_simps)
  have "adjustInternal (received ''abc'' ?b) = Inr (received ''abc'' ?b)"
    using received_ok(1,3,5) [OF ok(1,2)]
    by (simp add: adjustInternal_branches new_buffer_sized_def)
  with receive_appends [OF ok(1,2) this] ok(3) show ?thesis
    by simp
qed

text \<open>
  The receive side meets the overlapping \<open>memcpy\<close> too. It fails exactly when the
  unread bytes are longer than the gap in front of them while the gap is at least the
  free space at the end; a consumer that takes everything in its callback (so that the
  read index is zero when the next bytes arrive) never sees it.
\<close>

theorem receive_fails_iff:
  assumes "buf_ok b" "recv_room data b"
  shows "(adjustInternal (received data b) = Inl f \<longleftrightarrow>
      f = Undefined Memcpy_overlap \<and> move_overlaps (received data b)
      \<and> length (buffer (received data b)) - unat (write_index (received data b))
          \<le> unat (read_index b))
    \<and> (read_index b = 0 \<longrightarrow> adjustInternal (received data b) = Inr (received data b))"
proof -
  note m = received_ok [OF assms]
  show ?thesis
    by (cases rule: adjustInternal_cases [OF m(1,5)])
      (use m(3,5) in \<open>auto simp: adjustInternal_branches [OF m(1)]\<close>)
qed

theorem receive_fails_iff_witness:
  "adjustInternal (received ''ab'' (full_tail_buffer\<lparr>write_index := 12\<rparr>))
     = Inl (Undefined Memcpy_overlap)"
proof -
  let ?b = "full_tail_buffer\<lparr>write_index := 12\<rparr>"
  have ok: "buf_ok ?b" "recv_room ''ab'' ?b"
    by (simp_all add: buf_ok_def recv_room_def writableCount_def full_tail_buffer_def)
  have "length (buffer (received ''ab'' ?b)) = 16"
    by (simp add: received_def retrieveWriteIndex_def store_received_def
        full_tail_buffer_def Let_def)
  moreover have "read_index ?b = 4"
    by (simp add: full_tail_buffer_def)
  moreover have "unat (write_index (received ''ab'' ?b)) = 14"
    using received_ok(4) [OF ok] by (simp add: full_tail_buffer_def)
  ultimately have "move_overlaps (received ''ab'' ?b) \<and>
      length (buffer (received ''ab'' ?b)) - unat (write_index (received ''ab'' ?b))
        \<le> unat (read_index ?b)"
    using received_ok(3) [OF ok] by (simp add: move_overlaps_def)
  with receive_fails_iff [OF ok, of "Undefined Memcpy_overlap"] show ?thesis
    by blast
qed

section \<open>Consuming, and the buffer as a byte queue\<close>

lemma retrieveReadIndex_drops:
  assumes "buf_ok b" "n \<le> length (contents b)"
  shows "buf_ok (retrieveReadIndex (of_nat n) b)
    \<and> contents (retrieveReadIndex (of_nat n) b) = drop n (contents b)"
proof -
  note ok = buf_okD [OF assms(1)]
  have n: "n \<le> unat (write_index b) - unat (read_index b)"
    using assms by (simp add: length_contents buf_ok_unat)
  then have r: "unat (read_index b + of_nat n) = unat (read_index b) + n"
    using ok by (simp add: unat_simps)
  show ?thesis
  proof (cases "unat (read_index b) + n = unat (write_index b)")
    case True
    then show ?thesis
      using ok r assms(2)
      by (simp add: retrieveReadIndex_def Let_def word_le_nat_alt buf_ok_def contents_def
          segment_simps)
  next
    case False
    then have less: "unat (read_index b) + n < unat (write_index b)"
      using n ok by simp
    have "contents (retrieveReadIndex (of_nat n) b) = segment (buffer b)
        (unat (read_index b) + n) (unat (write_index b) - unat (read_index b) - n)"
      using less r by (simp add: retrieveReadIndex_def Let_def word_le_nat_alt contents_def)
    also have "\<dots> = drop n (contents b)"
      by (simp only: segment_drop contents_def)
    finally have "contents (retrieveReadIndex (of_nat n) b) = drop n (contents b)" .
    then show ?thesis
      using ok r less by (simp add: retrieveReadIndex_def Let_def word_le_nat_alt buf_ok_def)
  qed
qed

interpretation cb: byte_fifo buf_append "\<lambda>n. retrieveReadIndex (of_nat n)" contents buf_ok buf_room
proof unfold_locales
  show "buf_ok b' \<and> contents b' = contents b @ data"
    if "buf_ok b" "buf_room data b" "buf_append data b = Inr b'" for b data b'
    using that(3) by (cases rule: buf_append_cases [OF that(1,2)]) auto
qed (rule retrieveReadIndex_drops)

text \<open>
  C2: the buffer is a byte queue. Over any history of appends and retrievals from a good
  buffer, the bytes that came out followed by the unread ones are the bytes that were
  there followed by the bytes that went in, however often the buffer was compacted, grown
  or reset.
\<close>

theorem buffer_is_fifo:
  assumes "fifo_history buf_append (\<lambda>n. retrieveReadIndex (of_nat n)) contents buf_room
      b ins outs c"
    and "buf_ok b"
  shows "buf_ok c \<and> contents b @ ins = outs @ contents c"
  by (rule cb.fifo_order [OF assms])

theorem buffer_is_fifo_witness:
  "\<exists>c. fifo_history buf_append (\<lambda>n. retrieveReadIndex (of_nat n)) contents buf_room
      new_buffer ''hello'' ''he'' c \<and> contents c = ''llo''"
proof -
  let ?hist = "fifo_history buf_append (\<lambda>n. retrieveReadIndex (of_nat n)) contents buf_room"
  have ok: "buf_ok new_buffer" "buf_room ''hello'' new_buffer" "contents new_buffer = []"
      "\<not> compacts ''hello'' new_buffer"
    by (simp_all add: buf_ok_def buf_room_def contents_def new_buffer_def segment_simps
        compacts_def)
  obtain d where d: "buf_append ''hello'' new_buffer = Inr d" "contents d = ''hello''"
    using ok(4) by (cases rule: buf_append_cases [OF ok(1,2)]) (auto simp: ok(3))
  have "?hist new_buffer ([] @ ''hello'') ([] @ take 2 (contents d)) (retrieveReadIndex (of_nat 2) d)"
    using ok(2) d by (intro fifo_get fifo_put [OF fifo_start]) simp_all
  then have h: "?hist new_buffer ''hello'' ''he'' (retrieveReadIndex (of_nat 2) d)"
    by (simp add: d(2) numeral_2_eq_2)
  from buffer_is_fifo [OF h ok(1)] ok(3) h show ?thesis
    by (intro exI [of _ "retrieveReadIndex (of_nat 2) d"]) simp
qed

end
