(* ===== verification/Tcp_Connection.thy ===== *)
theory Tcp_Connection
  imports Connection_Buffer Write_Queue
begin

text \<open>
  \<open>TcpConnection\<close> of \<^verbatim>\<open>asio-1.10/src/tcp_connection.cpp\<close> (\<^verbatim>\<open>asio-1.28/\<close> has the
  same code with fewer states): a connection that receives into one \<open>ConnectionBuffer\<close> and
  sends out of another.

  asio is given addresses inside the buffers, not copies. A pending read is its offset and
  count in \<open>buf_in\<close>; asio stores the bytes there before the handler runs. A pending write
  is its offset and bytes in \<open>buf_out\<close>; asio may read the bytes when the write starts or
  only when the socket becomes writable, up to the completion (\<open>late\<close>), and then it reads
  what the storage holds then. Whether growing the vector moves its storage
  (\<open>out_moved\<close>) is up to the allocator; a late read of storage that has moved is a use
  after free. The receive callback is what it consumes of the buffer.
\<close>

section \<open>The class\<close>

datatype conn_state = S_CONNECTING | S_CONNECTED | S_DISCONNECTING | S_DISCONNECTED

datatype tn_op = TN_read nat nat | TN_write nat bytes

datatype tn_task = TN_receive_task | TN_send_task bytes | TN_close_task

datatype tn_obs = TN_consumed bytes | TN_wire bytes | TN_closed | TN_cancelled
  | TN_socket_closed

record tcp_connection = "(tn_op, tn_task, tn_obs) aio" +
  conn_name :: string
  receiving :: bool
  sending :: bool
  conn_state :: conn_state
  buf_in :: conn_buffer
  buf_out :: conn_buffer
  out_moved :: bool
  connection_callback :: bool
  close_callback :: bool
  retrieve_callback :: bool

definition tn_init :: "string \<Rightarrow> tcp_connection" where
  "tn_init name = \<lparr>pending = [], posted = [], trace = [], conn_name = name, receiving = False,
     sending = False, conn_state = S_CONNECTING, buf_in = new_buffer, buf_out = new_buffer,
     out_moved = False, connection_callback = False, close_callback = False,
     retrieve_callback = False\<rparr>"

definition connected :: "tcp_connection \<Rightarrow> bool" where
  "connected s \<longleftrightarrow> conn_state s = S_CONNECTED"

definition setConnState :: "conn_state \<Rightarrow> tcp_connection \<Rightarrow> tcp_connection" where
  "setConnState st s = s\<lparr>conn_state := st\<rparr>"

definition setConnectionCallback :: "bool \<Rightarrow> tcp_connection \<Rightarrow> tcp_connection" where
  "setConnectionCallback cb s = s\<lparr>connection_callback := cb\<rparr>"

definition setCloseCallback :: "bool \<Rightarrow> tcp_connection \<Rightarrow> tcp_connection" where
  "setCloseCallback cb s = s\<lparr>close_callback := cb\<rparr>"

definition setReceiveCallback :: "bool \<Rightarrow> tcp_connection \<Rightarrow> tcp_connection" where
  "setReceiveCallback cb s = s\<lparr>retrieve_callback := cb\<rparr>"

definition startReceive :: "tcp_connection \<Rightarrow> tcp_connection" where
  "startReceive s =
     (if receiving s then s else (post_task TN_receive_task s)\<lparr>receiving := True\<rparr>)"

definition sendMessage :: "bytes \<Rightarrow> tcp_connection \<Rightarrow> tcp_connection" where
  "sendMessage data s = post_task (TN_send_task data) s"

definition forceClose :: "tcp_connection \<Rightarrow> tcp_connection" where
  "forceClose s = post_task TN_close_task s"

definition receiveInService :: "tcp_connection \<Rightarrow> tcp_connection result" where
  "receiveInService s =
     rbind (writePtr (buf_in s)) (\<lambda>p.
     Inr (initiate (TN_read p (unat (writableCount (buf_in s)))) s))"

definition run_close_callback :: "tcp_connection \<Rightarrow> tcp_connection" where
  "run_close_callback s = (if close_callback s then observe TN_closed s else s)"

text \<open>\<open>socket_.cancel()\<close> throws when the socket is not open.\<close>

definition socket_cancel :: "bool \<Rightarrow> tcp_connection \<Rightarrow> tcp_connection result" where
  "socket_cancel is_open s =
     (if is_open then Inr (observe TN_cancelled s) else Inl (Throws ''cancel: Bad file descriptor''))"

definition cancel_and_close :: "bool \<Rightarrow> tcp_connection \<Rightarrow> tcp_connection result" where
  "cancel_and_close is_open s =
     rbind (socket_cancel is_open s) (\<lambda>s.
     Inr (run_close_callback (s\<lparr>conn_state := S_DISCONNECTED\<rparr>)))"

text \<open>The callback takes \<open>k\<close> bytes from the buffer.\<close>

definition run_retrieve_callback :: "nat \<Rightarrow> tcp_connection \<Rightarrow> tcp_connection" where
  "run_retrieve_callback k s =
     (if retrieve_callback s then
        observe (TN_consumed (take k (contents (buf_in s))))
          (s\<lparr>buf_in := retrieveReadIndex (of_nat k) (buf_in s)\<rparr>)
      else s)"

definition handleReceive :: "error_code \<Rightarrow> nat \<Rightarrow> bool \<Rightarrow> nat \<Rightarrow> tcp_connection \<Rightarrow> tcp_connection result" where
  "handleReceive ec bytes_transferred is_open k s =
     (if ec_ok ec then
        rbind (adjustInternal (retrieveWriteIndex (of_nat bytes_transferred) (buf_in s))) (\<lambda>b.
        receiveInService (run_retrieve_callback k (s\<lparr>buf_in := b\<rparr>)))
      else if ec_value ec = 2 \<and> close_callback s then
        Inr (run_close_callback (s\<lparr>conn_state := S_DISCONNECTED\<rparr>))
      else cancel_and_close is_open s)"

definition start_write :: "tcp_connection \<Rightarrow> tcp_connection result" where
  "start_write s =
     rbind (readPtr (buf_out s)) (\<lambda>p.
     Inr (initiate (TN_write p (segment (buffer (buf_out s)) p (unat (readableCount (buf_out s)))))
       (s\<lparr>out_moved := False\<rparr>)))"

definition sendInService :: "bool \<Rightarrow> bytes \<Rightarrow> tcp_connection \<Rightarrow> tcp_connection result" where
  "sendInService moves data s =
     rbind (buf_append data (buf_out s)) (\<lambda>b.
       let s = s\<lparr>buf_out := b,
             out_moved := out_moved s \<or> moves \<and> length (buffer b) > length (buffer (buf_out s))\<rparr>
       in if \<not> sending s \<and> connected s
          then rbind (start_write s) (\<lambda>s. Inr (s\<lparr>sending := True\<rparr>))
          else Inr s)"

definition handleSend :: "error_code \<Rightarrow> nat \<Rightarrow> bool \<Rightarrow> tcp_connection \<Rightarrow> tcp_connection result" where
  "handleSend ec bytes_transferred is_open s =
     (if ec_ok ec then
        let s = s\<lparr>buf_out := retrieveReadIndex (of_nat bytes_transferred) (buf_out s)\<rparr>
        in if readableCount (buf_out s) > 0 \<and> connected s then start_write s
           else Inr (s\<lparr>sending := False\<rparr>)
      else cancel_and_close is_open s)"

definition closeInService :: "bool \<Rightarrow> tcp_connection \<Rightarrow> tcp_connection result" where
  "closeInService is_open s = cancel_and_close is_open s"

text \<open>The destructor, when nothing holds the connection any more.\<close>

definition tn_destroy :: "tcp_connection \<Rightarrow> tcp_connection" where
  "tn_destroy s = observe TN_socket_closed s"

section \<open>Steps\<close>

text \<open>
  What a completed write has put on the wire. The wire is made of the writes that complete:
  what a write that fails has transmitted before (a prefix of its bytes) is not recorded, as
  the handler ignores it.
\<close>

definition wire_bytes :: "bool \<Rightarrow> nat \<Rightarrow> bytes \<Rightarrow> tcp_connection \<Rightarrow> bytes result" where
  "wire_bytes late p snapshot s =
     (if \<not> late then Inr snapshot
      else if out_moved s then Inl (Undefined Use_after_free)
      else Inr (segment (buffer (buf_out s)) p (length snapshot)))"

definition tn_store :: "nat \<Rightarrow> bytes \<Rightarrow> tcp_connection \<Rightarrow> tcp_connection" where
  "tn_store p data s = s\<lparr>buf_in := (buf_in s)\<lparr>buffer := overwrite (buffer (buf_in s)) p data\<rparr>\<rparr>"

datatype tn_event =
    TN_call_startReceive
  | TN_call_sendMessage bytes
  | TN_call_forceClose
  | TN_call_setState conn_state
  | TN_call_set bool bool bool
  | TN_run_task nat bool bool
  | TN_read_done nat nat error_code bytes bool nat
  | TN_write_done nat bytes error_code bool bool

definition tn_run_task :: "bool \<Rightarrow> bool \<Rightarrow> tn_task \<Rightarrow> tcp_connection \<Rightarrow> tcp_connection result" where
  "tn_run_task moves is_open k s =
     (case k of
        TN_receive_task \<Rightarrow> receiveInService s
      | TN_send_task data \<Rightarrow> sendInService moves data s
      | TN_close_task \<Rightarrow> closeInService is_open s)"

fun tn_step :: "tn_event \<Rightarrow> tcp_connection \<Rightarrow> tcp_connection outcome" where
  "tn_step TN_call_startReceive s = Moves (startReceive s)"
| "tn_step (TN_call_sendMessage data) s = Moves (sendMessage data s)"
| "tn_step TN_call_forceClose s = Moves (forceClose s)"
| "tn_step (TN_call_setState st) s = Moves (setConnState st s)"
| "tn_step (TN_call_set c d r) s =
     Moves (setConnectionCallback c (setCloseCallback d (setReceiveCallback r s)))"
| "tn_step (TN_run_task i moves is_open) s =
     (if i < length (posted s)
      then outcome_of (tn_run_task moves is_open (posted s ! i) (take_task i s)) else Disabled)"
| "tn_step (TN_read_done p n ec data is_open k) s =
     (if TN_read p n \<in> set (pending s) \<and> length data \<le> n
      then outcome_of (handleReceive ec (length data) is_open k
        (tn_store p data (finish_op (TN_read p n) s))) else Disabled)"
| "tn_step (TN_write_done p snapshot ec late is_open) s =
     (if TN_write p snapshot \<in> set (pending s)
      then outcome_of (
        if ec_ok ec then
          rbind (wire_bytes late p snapshot s) (\<lambda>bs.
          handleSend ec (length snapshot) is_open
            (observe (TN_wire bs) (finish_op (TN_write p snapshot) s)))
        else handleSend ec 0 is_open (finish_op (TN_write p snapshot) s))
      else Disabled)"

section \<open>The outgoing stream\<close>

fun tn_write_of :: "tn_op \<Rightarrow> (nat \<times> bytes) option" where
  "tn_write_of (TN_write p bs) = Some (p, bs)"
| "tn_write_of x = None"

fun tn_wire_of :: "tn_obs \<Rightarrow> bytes option" where
  "tn_wire_of (TN_wire bs) = Some bs"
| "tn_wire_of x = None"

definition tn_writes :: "tcp_connection \<Rightarrow> (nat \<times> bytes) list" where
  "tn_writes s = picks tn_write_of (pending s)"

definition tn_wire :: "tcp_connection \<Rightarrow> bytes" where
  "tn_wire s = concat (picks tn_wire_of (trace s))"

text \<open>The messages whose send task runs.\<close>

fun tn_sent :: "tn_event \<Rightarrow> tcp_connection \<Rightarrow> bytes list" where
  "tn_sent (TN_run_task i moves is_open) s =
     (if i < length (posted s) then (case posted s ! i of TN_send_task data \<Rightarrow> [data] | _ \<Rightarrow> []) else [])"
| "tn_sent _ s = []"

text \<open>
  The obligation under which the code is right: a message that arrives while a write is
  outstanding fits behind the bytes in the buffer, so that \<open>append\<close> neither moves nor
  grows it (and the sizes stay within 32 bits).
\<close>

fun tn_send_fits :: "tn_event \<Rightarrow> tcp_connection \<Rightarrow> bool" where
  "tn_send_fits (TN_run_task i moves is_open) s =
     (i < length (posted s) \<longrightarrow> (case posted s ! i of
        TN_send_task data \<Rightarrow> buf_room data (buf_out s)
          \<and> (tn_writes s = [] \<or> length data < unat (writableCount (buf_out s)))
      | _ \<Rightarrow> True))"
| "tn_send_fits _ s = True"

definition tn_outstanding :: "tcp_connection \<Rightarrow> bool" where
  "tn_outstanding s \<longleftrightarrow> (\<exists>bs. tn_writes s = [(unat (read_index (buf_out s)), bs)]
     \<and> bs = take (length bs) (contents (buf_out s)) \<and> sending s \<and> \<not> out_moved s)"

definition tn_send_inv :: "bytes list \<Rightarrow> tcp_connection \<Rightarrow> bool" where
  "tn_send_inv h s \<longleftrightarrow> buf_ok (buf_out s) \<and> buffer (buf_out s) \<noteq> []
     \<and> tn_wire s @ contents (buf_out s) = concat h \<and> (tn_writes s = [] \<or> tn_outstanding s)"

lemma tn_write_of_inj: "tn_write_of y = Some (p, bs) \<Longrightarrow> y = TN_write p bs"
  by (cases y) simp_all

lemma tn_writes_remove:
  "picks tn_write_of (remove1 (TN_write p bs) ops) = remove1 (p, bs) (picks tn_write_of ops)"
  "picks tn_write_of (remove1 (TN_read p n) ops) = picks tn_write_of ops"
  by (simp_all add: picks_remove1_same picks_remove1_other tn_write_of_inj)

lemma append_at_write_nonempty: "append_at_write data b = Inr b' \<Longrightarrow> buffer b' \<noteq> []"
  by (auto simp: buf_defs rbind_Inr_iff overwrite_def split: if_splits)

lemma buf_append_nonempty: "buf_append data b = Inr b' \<Longrightarrow> buffer b' \<noteq> []"
  by (auto simp: buf_append_def Let_def rbind_Inr_iff split: if_splits dest: append_at_write_nonempty)

lemma contents_prefix:
  "n \<le> length (contents b) \<Longrightarrow> segment (buffer b) (unat (read_index b)) n = take n (contents b)"
  by (simp add: contents_def segment_def)

lemma buffer_retrieveReadIndex [simp]: "buffer (retrieveReadIndex n b) = buffer b"
  by (simp add: retrieveReadIndex_def Let_def)

lemma start_write_ok:
  assumes "buf_ok (buf_out s)" "buffer (buf_out s) \<noteq> []"
  shows "start_write s = Inr (initiate (TN_write (unat (read_index (buf_out s))) (contents (buf_out s)))
    (s\<lparr>out_moved := False\<rparr>))"
  using assms by (simp add: start_write_def buf_defs contents_def buf_ok_unat)

lemma start_write_inv:
  assumes "tn_send_inv h s" "tn_writes s = []" "start_write s = Inr t"
  shows "tn_send_inv h (t\<lparr>sending := True\<rparr>)" "tn_writes t \<noteq> []"
  using assms start_write_ok [of s]
  by (auto simp: tn_send_inv_def tn_outstanding_def tn_writes_def tn_wire_def aio_defs)

lemma sendInService_inv:
  assumes "tn_send_inv h s" "buf_room data (buf_out s)"
    and "tn_writes s = [] \<or> length data < unat (writableCount (buf_out s))"
    and "sendInService moves data s = Inr t"
  shows "tn_send_inv (h @ [data]) t"
proof -
  obtain b where b: "buf_append data (buf_out s) = Inr b"
    using assms(4) by (auto simp: sendInService_def rbind_Inr_iff)
  let ?u = "s\<lparr>buf_out := b, out_moved := out_moved s \<or> moves \<and> length (buffer b) > length (buffer (buf_out s))\<rparr>"
  have t: "(if \<not> sending ?u \<and> connected ?u then rbind (start_write ?u) (\<lambda>s. Inr (s\<lparr>sending := True\<rparr>))
      else Inr ?u) = Inr t"
    using assms(4) b by (simp add: sendInService_def Let_def)
  have ok: "buf_ok (buf_out s)"
    using assms(1) by (simp add: tn_send_inv_def)
  have c: "buf_ok b" "contents b = contents (buf_out s) @ data"
    using b by (cases rule: buf_append_cases [OF ok assms(2)]; simp)+
  show ?thesis
  proof (cases "tn_writes s = []")
    case True
    then have u: "tn_send_inv (h @ [data]) ?u" "tn_writes ?u = []"
      using assms(1) c buf_append_nonempty [OF b]
      by (simp_all add: tn_send_inv_def tn_wire_def tn_writes_def flip: append_assoc)
    show ?thesis
    proof (cases "\<not> sending ?u \<and> connected ?u")
      case True
      then obtain v where "start_write ?u = Inr v" "t = v\<lparr>sending := True\<rparr>"
        using t by (auto simp: rbind_Inr_iff)
      then show ?thesis
        using start_write_inv(1) [OF u] by simp
    next
      case False
      then have "t = ?u" using t by (simp only: if_False sum.inject)
      then show ?thesis using u(1) by simp
    qed
  next
    case False
    then have out: "tn_outstanding s" and fits: "length data < unat (writableCount (buf_out s))"
      using assms(1,3) by (auto simp: tn_send_inv_def)
    have "length data < 2 ^ 32"
      using assms(2) by (simp add: buf_room_def)
    from buf_append_branches [OF ok this] fits have "append_at_write data (buf_out s) = Inr b"
      using b buf_ok_unat(1) [OF ok] by simp
    moreover have "unat (write_index (buf_out s)) + length data \<le> length (buffer (buf_out s))"
      using fits buf_ok_unat(1) [OF ok] by simp
    moreover have "buffer (buf_out s) \<noteq> []"
      using assms(1) by (simp add: tn_send_inv_def)
    ultimately have same: "length (buffer b) = length (buffer (buf_out s)) \<and> read_index b = read_index (buf_out s)"
      using append_at_write_room [OF ok] by (metis sum.inject(2))
    have "t = ?u"
      using t out by (auto simp: tn_outstanding_def)
    then show ?thesis
      using assms(1) out c same buf_append_nonempty [OF b]
      by (auto simp: tn_send_inv_def tn_outstanding_def tn_wire_def tn_writes_def simp flip: append_assoc)
  qed
qed

text \<open>What asio reads of an outstanding write is what was there when it started.\<close>

lemma write_in_flight:
  assumes "tn_send_inv h s" "TN_write p snapshot \<in> set (pending s)" "wire_bytes late p snapshot s = Inr bs"
  shows "bs = snapshot \<and> tn_writes s = [(p, snapshot)]
    \<and> snapshot = take (length snapshot) (contents (buf_out s)) \<and> sending s
    \<and> length snapshot \<le> length (contents (buf_out s))"
proof -
  have "(p, snapshot) \<in> set (tn_writes s)"
    using assms(2) picks_mem [of tn_write_of "TN_write p snapshot" "(p, snapshot)"] by (simp add: tn_writes_def)
  with assms(1) have out: "tn_writes s = [(p, snapshot)]" "p = unat (read_index (buf_out s))"
      "snapshot = take (length snapshot) (contents (buf_out s))" "sending s" "\<not> out_moved s"
    by (auto simp: tn_send_inv_def tn_outstanding_def)
  have le: "length snapshot \<le> length (contents (buf_out s))"
    using out(3) by (metis length_take min.cobounded1)
  have "bs = snapshot"
    using assms(3) out contents_prefix [OF le] by (auto simp: wire_bytes_def split: if_splits)
  with out le show ?thesis by simp
qed

lemma handleSend_inv:
  assumes "tn_send_inv h s" "TN_write p snapshot \<in> set (pending s)" "ec_ok ec"
    and "wire_bytes late p snapshot s = Inr bs"
    and "handleSend ec (length snapshot) is_open
      (observe (TN_wire bs) (finish_op (TN_write p snapshot) s)) = Inr t"
  shows "tn_send_inv h t"
proof -
  note fl = write_in_flight [OF assms(1,2,4)]
  then have bs: "bs = snapshot" and out: "tn_writes s = [(p, snapshot)]"
      "snapshot = take (length snapshot) (contents (buf_out s))" "sending s"
    and le: "length snapshot \<le> length (contents (buf_out s))" by auto
  have ok: "buf_ok (buf_out s)" "buffer (buf_out s) \<noteq> []" "tn_wire s @ contents (buf_out s) = concat h"
    using assms(1) by (simp_all add: tn_send_inv_def)
  let ?b = "retrieveReadIndex (of_nat (length snapshot)) (buf_out s)"
  let ?u = "(observe (TN_wire bs) (finish_op (TN_write p snapshot) s))\<lparr>buf_out := ?b\<rparr>"
  have u: "buf_ok ?b" "contents ?b = drop (length snapshot) (contents (buf_out s))"
    using retrieveReadIndex_drops [OF ok(1) le] by simp_all
  moreover have "tn_wire s @ snapshot @ drop (length snapshot) (contents (buf_out s)) = concat h"
    using ok(3) out(2) append_take_drop_id [of "length snapshot" "contents (buf_out s)"] by metis
  ultimately have inv: "tn_send_inv h ?u" "tn_writes ?u = []"
    using ok(2) out(1)
    by (simp_all add: tn_send_inv_def tn_wire_def tn_writes_def aio_defs tn_writes_remove bs)
  have t: "(if readableCount ?b > 0 \<and> connected ?u then start_write ?u else Inr (?u\<lparr>sending := False\<rparr>)) = Inr t"
    using assms(3,5) by (auto simp: handleSend_def Let_def aio_defs split: if_splits)
  show ?thesis
  proof (cases "readableCount ?b > 0 \<and> connected ?u")
    case True
    have "sending t"
      using t True inv ok(2) u(1) start_write_ok [of ?u] out(3) by (auto simp: aio_defs)
    then have "t\<lparr>sending := True\<rparr> = t"
      by simp
    then show ?thesis
      using start_write_inv(1) [OF inv, of t] t True by simp
  next
    case False
    then have "t = ?u\<lparr>sending := False\<rparr>"
      using t by (simp only: if_False sum.inject)
    then show ?thesis
      using inv by (simp add: tn_send_inv_def tn_wire_def tn_writes_def)
  qed
qed

definition same_out_side :: "tcp_connection \<Rightarrow> tcp_connection \<Rightarrow> bool" where
  "same_out_side s t \<longleftrightarrow> buf_out t = buf_out s \<and> tn_wire t = tn_wire s \<and> tn_writes t = tn_writes s
     \<and> sending t = sending s \<and> out_moved t = out_moved s"

lemma tn_send_inv_same: "same_out_side s t \<Longrightarrow> tn_send_inv h s \<Longrightarrow> tn_send_inv h t"
  by (simp add: same_out_side_def tn_send_inv_def tn_outstanding_def)

named_theorems tn_defs

lemmas [tn_defs] = aio_defs setConnState_def setConnectionCallback_def setCloseCallback_def
  setReceiveCallback_def startReceive_def sendMessage_def forceClose_def receiveInService_def
  run_close_callback_def socket_cancel_def cancel_and_close_def run_retrieve_callback_def
  handleReceive_def closeInService_def tn_store_def tn_run_task_def

text \<open>Reads and the calls of the user leave the outgoing side alone.\<close>

lemma tn_out_same:
  assumes "tn_step e s = Moves t"
    and "case e of TN_run_task i moves is_open \<Rightarrow> False | TN_write_done p bs ec late is_open \<Rightarrow> False | _ \<Rightarrow> True"
  shows "same_out_side s t \<and> tn_sent e s = []"
proof (cases e)
  case (TN_read_done p n ec data is_open k)
  then show ?thesis
    using assms(1)
    by (auto simp: same_out_side_def tn_defs rbind_Inr_iff tn_wire_def tn_writes_def
        tn_writes_remove split: if_splits)
qed (use assms in \<open>auto simp: same_out_side_def tn_defs tn_wire_def tn_writes_def split: if_splits\<close>)

lemma tn_send_step:
  assumes "tn_send_inv h s" "tn_send_fits e s" "tn_step e s = Moves t"
  shows "tn_send_inv (h @ tn_sent e s) t"
proof (cases e)
  case (TN_run_task i moves is_open)
  then have i: "i < length (posted s)"
      and r: "tn_run_task moves is_open (posted s ! i) (take_task i s) = Inr t"
    using assms(3) by (auto split: if_splits)
  have s: "tn_send_inv h (take_task i s)"
    by (rule tn_send_inv_same [OF _ assms(1)])
      (simp add: same_out_side_def aio_defs tn_wire_def tn_writes_def)
  show ?thesis
  proof (cases "posted s ! i")
    case (TN_send_task data)
    have "sendInService moves data (take_task i s) = Inr t"
      using r TN_send_task by (simp add: tn_run_task_def)
    then have "tn_send_inv (h @ [data]) t"
      using assms(2) TN_run_task i TN_send_task sendInService_inv [OF s]
      by (simp add: aio_defs tn_writes_def)
    then show ?thesis
      using TN_run_task i TN_send_task by simp
  qed (use r s TN_run_task i in \<open>auto simp: tn_defs rbind_Inr_iff tn_send_inv_def tn_outstanding_def
      tn_wire_def tn_writes_def split: if_splits\<close>)
next
  case (TN_write_done p snapshot ec late is_open)
  then have m: "TN_write p snapshot \<in> set (pending s)"
    using assms(3) by (auto split: if_splits)
  show ?thesis
  proof (cases "ec_ok ec")
    case True
    then show ?thesis
      using assms(3) TN_write_done m handleSend_inv [OF assms(1) m True] by (auto simp: rbind_Inr_iff)
  next
    case False
    have "(p, snapshot) \<in> set (tn_writes s)"
      using m picks_mem [of tn_write_of "TN_write p snapshot" "(p, snapshot)"] by (simp add: tn_writes_def)
    then have "tn_writes s = [(p, snapshot)]"
      using assms(1) by (auto simp: tn_send_inv_def tn_outstanding_def)
    then show ?thesis
      using assms(1,3) TN_write_done m False
      by (auto simp: tn_defs handleSend_def rbind_Inr_iff tn_send_inv_def tn_wire_def tn_writes_def
          tn_writes_remove split: if_splits)
  qed
qed (use tn_out_same [OF assms(3)] tn_send_inv_same [OF _ assms(1)] in auto)

interpretation tns: obliged_history tn_step tn_send_fits tn_sent tn_send_inv
  by unfold_locales (rule tn_send_step)

lemma new_buffer_ok: "buf_ok new_buffer" "contents new_buffer = []" "buffer new_buffer \<noteq> []"
    "length (buffer new_buffer) = 4096" "unat (writableCount new_buffer) = 4096"
  by (simp_all add: buf_ok_def contents_def new_buffer_def segment_simps writableCount_def)

lemma tn_send_inv_init: "tn_send_inv [] (tn_init name)"
  using new_buffer_ok by (simp add: tn_send_inv_def tn_init_def tn_wire_def tn_writes_def)

text \<open>
  C8: The outgoing stream. As long as every message whose send task runs while a write is
  outstanding fits behind the bytes in the buffer, so that \<open>append\<close> neither moves nor grows it,
  the bytes of the writes that completed, followed by what is in the output buffer, are the
  concatenation of the messages whose send task ran, whenever asio reads the bytes of a write;
  at most one write is outstanding.
\<close>

theorem connection_stream:
  assumes "run tn_step es (tn_init name) = Moves s" "guarded tn_send_fits tn_step es (tn_init name)"
  shows "tn_wire s @ contents (buf_out s) = concat (history tn_step tn_sent es (tn_init name))
    \<and> length (tn_writes s) \<le> 1"
  using tns.obliged_run [OF tn_send_inv_init assms]
  by (auto simp: tn_send_inv_def tn_outstanding_def)

definition tn_demo_events :: "tn_event list" where
  "tn_demo_events = [TN_call_setState S_CONNECTED, TN_call_sendMessage ''ab'', TN_run_task 0 False True]"

lemma append_fresh:
  assumes "length data < 4096"
  shows "buf_append data new_buffer = Inr (new_buffer\<lparr>buffer := data @ replicate (4096 - length data) NUL,
    write_index := of_nat (length data)\<rparr>)"
  using assms new_buffer_ok
  by (simp add: buf_append_def append_at_write_def writePtr_def start_def memcpy_in_def)
    (simp add: new_buffer_def overwrite_def Let_def)

text \<open>The example: a connected connection with two bytes on their way.\<close>

definition tn_demo_buffer :: conn_buffer where
  "tn_demo_buffer = new_buffer\<lparr>buffer := ''ab'' @ replicate 4094 NUL, write_index := 2\<rparr>"

definition tn_demo_state :: "string \<Rightarrow> tcp_connection" where
  "tn_demo_state n = (tn_init n)\<lparr>conn_state := S_CONNECTED, buf_out := tn_demo_buffer,
     pending := [TN_write 0 ''ab''], sending := True\<rparr>"

lemma tn_demo_buffer_ok:
  "buf_append ''ab'' new_buffer = Inr tn_demo_buffer" "buf_ok tn_demo_buffer"
  "contents tn_demo_buffer = ''ab''" "buffer tn_demo_buffer \<noteq> []" "read_index tn_demo_buffer = 0"
  "unat (writableCount tn_demo_buffer) = 4094" "\<not> compacts data tn_demo_buffer"
  "length (buffer tn_demo_buffer) = 4096"
  using append_fresh [of "''ab''"]
  by (simp_all add: tn_demo_buffer_def buf_ok_def contents_def new_buffer_def segment_def
      writableCount_def compacts_def)

lemma tn_demo_run:
  "run tn_step tn_demo_events (tn_init n) = Moves (tn_demo_state n)"
  "guarded tn_send_fits tn_step tn_demo_events (tn_init n)"
  "history tn_step tn_sent tn_demo_events (tn_init n) = [''ab'']"
proof -
  let ?u = "(tn_init n)\<lparr>conn_state := S_CONNECTED, buf_out := tn_demo_buffer\<rparr>"
  have "start_write ?u = Inr (?u\<lparr>pending := [TN_write 0 ''ab'']\<rparr>)"
    using start_write_ok [of ?u] tn_demo_buffer_ok by (simp add: tn_init_def aio_defs)
  then show "run tn_step tn_demo_events (tn_init n) = Moves (tn_demo_state n)"
    using tn_demo_buffer_ok(1)
    by (simp add: tn_demo_events_def tn_demo_state_def tn_init_def tn_defs sendInService_def connected_def)
  then show "guarded tn_send_fits tn_step tn_demo_events (tn_init n)"
    "history tn_step tn_sent tn_demo_events (tn_init n) = [''ab'']"
    by (simp_all add: tn_demo_events_def tn_init_def tn_defs buf_room_def new_buffer_ok tn_writes_def
        split: outcome.split)
qed

theorem connection_stream_witness:
  "\<exists>s. run tn_step tn_demo_events (tn_init ''c'') = Moves s \<and> tn_wire s @ contents (buf_out s) = ''ab''
    \<and> tn_writes s = [(0, ''ab'')]"
proof -
  have "tn_writes (tn_demo_state ''c'') = [(0, ''ab'')]"
    by (simp add: tn_writes_def tn_demo_state_def)
  with connection_stream [OF tn_demo_run(1,2), of "''c''"] tn_demo_run show ?thesis
    by auto
qed

text \<open>
  Sending while a write is outstanding can free its memory. When a message is sent that
  does not fit behind the bytes in the buffer, the vector grows; if that moves its storage
  and asio reads the bytes of the outstanding write only then, it reads freed memory.
\<close>

theorem append_during_write:
  assumes "i < length (posted s)" "posted s ! i = TN_send_task data"
    and "TN_write p bs \<in> set (pending s)" "sending s"
    and "buf_ok (buf_out s)" "buf_room data (buf_out s)"
    and "unat (writableCount (buf_out s)) \<le> length data" "\<not> compacts data (buf_out s)"
  shows "\<exists>t. tn_step (TN_run_task i True is_open) s = Moves t
    \<and> tn_step (TN_write_done p bs success_code True is_open) t = Fails (Undefined Use_after_free)"
proof -
  let ?g = "(buf_out s)\<lparr>buffer := resize (buffer (buf_out s))
    (length (buffer (buf_out s)) + unat (append_growth (length data)))\<rparr>"
  have "length data < 2 ^ 32"
    using assms(6) by (simp add: buf_room_def)
  from buf_append_branches [OF assms(5) this] have "buf_append data (buf_out s) = append_at_write data ?g"
    using assms(7,8) buf_ok_unat(1) [OF assms(5)] by simp
  moreover obtain b where "append_at_write data ?g = Inr b" "length (buffer b) = length (buffer ?g)"
    using append_at_write_room [OF grown_ok(1,4,3) [OF assms(5,6)]] by metis
  moreover have "0 < unat (append_growth (length data))"
    using assms(6) by (subst append_growth_exact) (simp_all add: buf_room_def)
  ultimately have b: "buf_append data (buf_out s) = Inr b" "length (buffer (buf_out s)) < length (buffer b)"
    by simp_all
  then have "tn_step (TN_run_task i True is_open) s
      = Moves ((take_task i s)\<lparr>buf_out := b, out_moved := True\<rparr>)"
    using assms(1,2,4) by (simp add: tn_run_task_def sendInService_def aio_defs Let_def)
  then show ?thesis
    using assms(3) by (simp add: wire_bytes_def aio_defs)
qed

theorem append_during_write_witness:
  "\<exists>s t. run tn_step (tn_demo_events @ [TN_call_sendMessage (replicate 5000 (CHR ''x''))]) (tn_init ''c'') = Moves s
    \<and> tn_step (TN_run_task 0 True True) s = Moves t
    \<and> tn_step (TN_write_done 0 ''ab'' success_code True True) t = Fails (Undefined Use_after_free)"
proof -
  let ?s = "sendMessage (replicate 5000 (CHR ''x'')) (tn_demo_state ''c'')"
  have r: "run tn_step (tn_demo_events @ [TN_call_sendMessage (replicate 5000 (CHR ''x''))]) (tn_init ''c'') = Moves ?s"
    by (simp add: run_append tn_demo_run)
  have ok: "0 < length (posted ?s)" "posted ?s ! 0 = TN_send_task (replicate 5000 (CHR ''x''))"
      "TN_write 0 ''ab'' \<in> set (pending ?s)" "sending ?s" "buf_out ?s = tn_demo_buffer"
    by (simp_all add: tn_demo_state_def tn_init_def sendMessage_def aio_defs)
  have "buf_room (replicate 5000 (CHR ''x'')) tn_demo_buffer"
    by (simp add: buf_room_def tn_demo_buffer_ok)
  with append_during_write [OF ok(1-4), of True] ok(5) tn_demo_buffer_ok r show ?thesis
    by auto
qed

section \<open>The incoming stream\<close>

fun tn_read_of :: "tn_op \<Rightarrow> (nat \<times> nat) option" where
  "tn_read_of (TN_read p n) = Some (p, n)"
| "tn_read_of x = None"

fun tn_consumed_of :: "tn_obs \<Rightarrow> bytes option" where
  "tn_consumed_of (TN_consumed bs) = Some bs"
| "tn_consumed_of x = None"

definition tn_reads :: "tcp_connection \<Rightarrow> (nat \<times> nat) list" where
  "tn_reads s = picks tn_read_of (pending s)"

definition tn_read_tasks :: "tcp_connection \<Rightarrow> tn_task list" where
  "tn_read_tasks s = filter (\<lambda>k. k = TN_receive_task) (posted s)"

definition tn_consumed :: "tcp_connection \<Rightarrow> bytes" where
  "tn_consumed s = concat (picks tn_consumed_of (trace s))"

fun tn_received :: "tn_event \<Rightarrow> tcp_connection \<Rightarrow> bytes list" where
  "tn_received (TN_read_done p n ec data is_open k) s = (if ec_ok ec then [data] else [])"
| "tn_received _ s = []"

text \<open>
  The obligations of the environment: the callback takes no more than the buffer holds, and
  the buffer stays below \<open>2 ^ 31\<close> bytes, so that doubling it does not leave 32 bits.
\<close>

fun tn_recv_fits :: "tn_event \<Rightarrow> tcp_connection \<Rightarrow> bool" where
  "tn_recv_fits (TN_read_done p n ec data is_open k) s =
     (ec_ok ec \<longrightarrow> 2 * length (buffer (buf_in s)) < 2 ^ 32 \<and> k \<le> length (contents (buf_in s) @ data))"
| "tn_recv_fits _ s = True"

text \<open>The next read: one is outstanding into the free region, or one is about to be.\<close>

definition tn_recv_inv :: "bytes list \<Rightarrow> tcp_connection \<Rightarrow> bool" where
  "tn_recv_inv h s \<longleftrightarrow> buf_ok (buf_in s) \<and> unat (write_index (buf_in s)) < length (buffer (buf_in s))
     \<and> tn_consumed s @ contents (buf_in s) = concat h
     \<and> (tn_reads s = [] \<and> length (tn_read_tasks s) \<le> (if receiving s then 1 else 0)
        \<or> tn_reads s = [(unat (write_index (buf_in s)), unat (writableCount (buf_in s)))]
          \<and> tn_read_tasks s = [] \<and> receiving s)"

lemma tn_read_of_inj: "tn_read_of y = Some (p, n) \<Longrightarrow> y = TN_read p n"
  by (cases y) simp_all

lemma tn_reads_remove:
  "picks tn_read_of (remove1 (TN_read p n) ops) = remove1 (p, n) (picks tn_read_of ops)"
  "picks tn_read_of (remove1 (TN_write q bs) ops) = picks tn_read_of ops"
  by (simp_all add: picks_remove1_same picks_remove1_other tn_read_of_inj)

lemma write_index_retrieveReadIndex:
  "unat (write_index (retrieveReadIndex n b)) \<le> unat (write_index b)"
  by (simp add: retrieveReadIndex_def Let_def)

lemma receiveInService_eq:
  "buffer (buf_in s) \<noteq> [] \<Longrightarrow> receiveInService s =
    Inr (initiate (TN_read (unat (write_index (buf_in s))) (unat (writableCount (buf_in s)))) s)"
  by (simp add: receiveInService_def buf_defs)

text \<open>The buffer as the callback finds it after a successful read.\<close>

lemma tn_recv_adjusted:
  assumes "tn_recv_inv h s" "TN_read p n \<in> set (pending s)" "length data \<le> n"
    and "2 * length (buffer (buf_in s)) < 2 ^ 32"
    and "adjustInternal (retrieveWriteIndex (of_nat (length data)) (buf_in (tn_store p data u))) = Inr b"
    and "buf_in u = buf_in s"
  shows "buf_ok b" "contents b = contents (buf_in s) @ data" "unat (write_index b) < length (buffer b)"
    "tn_reads s = [(p, n)]" "tn_read_tasks s = []" "receiving s"
proof -
  have "(p, n) \<in> set (tn_reads s)"
    using assms(2) picks_mem [of tn_read_of "TN_read p n" "(p, n)"] by (simp add: tn_reads_def)
  with assms(1) have rd: "tn_reads s = [(p, n)]" "p = unat (write_index (buf_in s))"
      "n = unat (writableCount (buf_in s))" "tn_read_tasks s = []" "receiving s"
    by (auto simp: tn_recv_inv_def)
  then show "tn_reads s = [(p, n)]" "tn_read_tasks s = []" "receiving s"
    by simp_all
  have ok: "buf_ok (buf_in s)" "unat (write_index (buf_in s)) < length (buffer (buf_in s))"
    using assms(1) by (simp_all add: tn_recv_inv_def)
  have room: "recv_room data (buf_in s)"
    using assms(3,4) rd(3) ok(2) by (auto simp: recv_room_def)
  note rc = received_ok [OF ok(1) room]
  have "adjustInternal (received data (buf_in s)) = Inr b"
    using assms(5,6) by (simp add: received_def store_received_def tn_store_def rd(2))
  then show "buf_ok b" "contents b = contents (buf_in s) @ data" "unat (write_index b) < length (buffer b)"
    using rc(1,2,5) by (cases rule: adjustInternal_cases [OF rc(1,5)]; auto)+
qed

lemma tn_recv_buffer:
  assumes "tn_recv_inv h s" "TN_read p n \<in> set (pending s)" "length data \<le> n"
    and "2 * length (buffer (buf_in s)) < 2 ^ 32" "ec_ok ec"
    and "handleReceive ec (length data) is_open k (tn_store p data (finish_op (TN_read p n) s)) = Inr t"
  obtains b where "adjustInternal (retrieveWriteIndex (of_nat (length data)) (buf_in (tn_store p data s))) = Inr b"
    "buf_ok b" "contents b = contents (buf_in s) @ data" "unat (write_index b) < length (buffer b)"
    "receiveInService (run_retrieve_callback k ((tn_store p data (finish_op (TN_read p n) s))\<lparr>buf_in := b\<rparr>)) = Inr t"
    "tn_reads s = [(p, n)]" "tn_read_tasks s = []" "receiving s"
proof -
  have same: "buf_in (finish_op (TN_read p n) s) = buf_in s"
    by (simp add: finish_op_def)
  obtain b where b: "adjustInternal (retrieveWriteIndex (of_nat (length data))
        (buf_in (tn_store p data (finish_op (TN_read p n) s)))) = Inr b"
      "receiveInService (run_retrieve_callback k ((tn_store p data (finish_op (TN_read p n) s))\<lparr>buf_in := b\<rparr>)) = Inr t"
    using assms(5,6) by (auto simp: handleReceive_def rbind_Inr_iff)
  note adj = tn_recv_adjusted [OF assms(1-4) b(1) same]
  have "adjustInternal (retrieveWriteIndex (of_nat (length data)) (buf_in (tn_store p data s))) = Inr b"
    using b(1) by (simp add: tn_store_def same)
  from that [OF this adj(1-3) b(2) adj(4-6)] show ?thesis .
qed

lemma tn_recv_read:
  assumes "tn_recv_inv h s" "TN_read p n \<in> set (pending s)" "length data \<le> n"
    and "2 * length (buffer (buf_in s)) < 2 ^ 32" "k \<le> length (contents (buf_in s) @ data)" "ec_ok ec"
    and "handleReceive ec (length data) is_open k (tn_store p data (finish_op (TN_read p n) s)) = Inr t"
  shows "tn_recv_inv (h @ [data]) t"
proof -
  let ?u = "tn_store p data (finish_op (TN_read p n) s)"
  obtain b where b: "buf_ok b" "contents b = contents (buf_in s) @ data" "unat (write_index b) < length (buffer b)"
      and t: "receiveInService (run_retrieve_callback k (?u\<lparr>buf_in := b\<rparr>)) = Inr t"
      and rd: "tn_reads s = [(p, n)]" "tn_read_tasks s = []" "receiving s"
    by (rule tn_recv_buffer [OF assms(1-4,6,7)])
  let ?v = "run_retrieve_callback k (?u\<lparr>buf_in := b\<rparr>)"
  have k: "k \<le> length (contents b)"
    using b(2) assms(5) by simp
  have cat: "tn_consumed s @ contents b = concat (h @ [data])"
    using b(2) assms(1) by (simp add: tn_recv_inv_def)
  have "tn_consumed ?v @ contents (buf_in ?v) = tn_consumed s @ contents b"
    using retrieveReadIndex_drops [OF b(1) k]
    by (simp add: run_retrieve_callback_def tn_consumed_def tn_store_def aio_defs)
  then have v: "buf_ok (buf_in ?v) \<and> unat (write_index (buf_in ?v)) < length (buffer (buf_in ?v))
      \<and> tn_consumed ?v @ contents (buf_in ?v) = concat (h @ [data])"
    using b cat retrieveReadIndex_drops [of b k] k write_index_retrieveReadIndex [of "of_nat k" b]
    by (auto simp: run_retrieve_callback_def observe_def tn_store_def finish_op_def)
  moreover have "tn_reads ?v = []" "tn_read_tasks ?v = []" "receiving ?v"
    using rd by (simp_all add: run_retrieve_callback_def tn_store_def aio_defs tn_reads_def
        tn_read_tasks_def tn_reads_remove)
  moreover have "buffer (buf_in ?v) \<noteq> []"
    using v by auto
  from t [unfolded receiveInService_eq [OF this]] have
    "t = initiate (TN_read (unat (write_index (buf_in ?v))) (unat (writableCount (buf_in ?v)))) ?v"
    by simp
  ultimately show ?thesis
    by (simp add: tn_recv_inv_def aio_defs tn_consumed_def tn_reads_def tn_read_tasks_def)
qed

lemma tn_read_tasks_take:
  assumes "i < length (posted s)"
  shows "length (tn_read_tasks s) = length (tn_read_tasks (take_task i s))
    + (if posted s ! i = TN_receive_task then 1 else 0)"
  using filter_remove_nth [OF assms, of "\<lambda>k. k = TN_receive_task"]
  by (simp add: tn_read_tasks_def take_task_def)

definition same_in_side :: "tcp_connection \<Rightarrow> tcp_connection \<Rightarrow> bool" where
  "same_in_side s t \<longleftrightarrow> buf_in t = buf_in s \<and> tn_consumed t = tn_consumed s \<and> tn_reads t = tn_reads s
     \<and> tn_read_tasks t = tn_read_tasks s \<and> receiving t = receiving s"

lemma tn_recv_inv_same: "same_in_side s t \<Longrightarrow> tn_recv_inv h s \<Longrightarrow> tn_recv_inv h t"
  by (simp add: same_in_side_def tn_recv_inv_def)

lemma same_in_side_trans: "same_in_side s t \<Longrightarrow> same_in_side t u \<Longrightarrow> same_in_side s u"
  by (simp add: same_in_side_def)

lemma cancel_and_close_in_side: "cancel_and_close is_open s = Inr t \<Longrightarrow> same_in_side s t"
  by (auto simp: same_in_side_def tn_defs rbind_Inr_iff tn_consumed_def tn_reads_def tn_read_tasks_def
      split: if_splits)

lemma sendInService_in_side: "sendInService moves data s = Inr t \<Longrightarrow> same_in_side s t"
  by (auto simp: same_in_side_def sendInService_def start_write_def Let_def aio_defs rbind_Inr_iff
      tn_consumed_def tn_reads_def tn_read_tasks_def split: if_splits)

lemma handleSend_in_side: "handleSend ec n is_open s = Inr t \<Longrightarrow> same_in_side s t"
  by (auto simp: handleSend_def start_write_def Let_def aio_defs rbind_Inr_iff same_in_side_def
      tn_consumed_def tn_reads_def tn_read_tasks_def split: if_splits
      dest!: cancel_and_close_in_side)

lemma tn_recv_run_task:
  assumes "tn_recv_inv h s" "i < length (posted s)"
    and "tn_run_task moves is_open (posted s ! i) (take_task i s) = Inr t"
  shows "tn_recv_inv h t"
proof (cases "posted s ! i = TN_receive_task")
  case True
  have n: "length (tn_read_tasks s) = Suc (length (tn_read_tasks (take_task i s)))"
    using tn_read_tasks_take [OF assms(2)] True by simp
  have "buffer (buf_in (take_task i s)) \<noteq> []"
    using assms(1) by (auto simp: tn_recv_inv_def aio_defs)
  from assms(3) [unfolded True] this have
    "t = initiate (TN_read (unat (write_index (buf_in s))) (unat (writableCount (buf_in s)))) (take_task i s)"
    by (simp add: tn_run_task_def receiveInService_eq aio_defs)
  then show ?thesis
    using assms(1) n
    by (auto simp: tn_recv_inv_def aio_defs tn_reads_def tn_read_tasks_def tn_consumed_def split: if_splits)
next
  case False
  then have "length (tn_read_tasks (take_task i s)) = length (tn_read_tasks s)"
    using tn_read_tasks_take [OF assms(2)] by simp
  then have "tn_recv_inv h (take_task i s)"
    using assms(1) by (auto simp: tn_recv_inv_def take_task_def tn_reads_def tn_consumed_def)
  moreover have "same_in_side (take_task i s) t"
    using assms(3) False sendInService_in_side cancel_and_close_in_side
    by (cases "posted s ! i") (auto simp: tn_run_task_def closeInService_def)
  ultimately show ?thesis
    by (rule tn_recv_inv_same [rotated])
qed

lemma tn_recv_step:
  assumes "tn_recv_inv h s" "tn_recv_fits e s" "tn_step e s = Moves t"
  shows "tn_recv_inv (h @ tn_received e s) t"
proof (cases e)
  case (TN_run_task i moves is_open)
  then show ?thesis
    using assms tn_recv_run_task by (auto split: if_splits)
next
  case (TN_read_done p n ec data is_open k)
  then have m: "TN_read p n \<in> set (pending s)" "length data \<le> n"
      and r: "handleReceive ec (length data) is_open k (tn_store p data (finish_op (TN_read p n) s)) = Inr t"
    using assms(3) by (auto split: if_splits)
  show ?thesis
  proof (cases "ec_ok ec")
    case True
    then show ?thesis
      using tn_recv_read [OF assms(1) m _ _ True r] assms(2) TN_read_done by simp
  next
    case False
    have "(p, n) \<in> set (tn_reads s)"
      using m picks_mem [of tn_read_of "TN_read p n" "(p, n)"] by (simp add: tn_reads_def)
    with assms(1) have rd: "tn_reads s = [(p, n)]" "p = unat (write_index (buf_in s))"
        "n = unat (writableCount (buf_in s))" "tn_read_tasks s = []" "receiving s"
      by (auto simp: tn_recv_inv_def)
    let ?u = "tn_store p data (finish_op (TN_read p n) s)"
    have ok: "buf_ok (buf_in s)"
      using assms(1) by (simp add: tn_recv_inv_def)
    have "p + length data \<le> length (buffer (buf_in s))"
      using m(2) rd buf_okD(2) [OF ok] buf_ok_unat(1) [OF ok] by simp
    then have "tn_recv_inv h ?u"
      using assms(1) rd buf_okD(1) [OF ok]
      by (simp add: tn_recv_inv_def tn_store_def aio_defs tn_reads_def tn_reads_remove tn_read_tasks_def
          tn_consumed_def buf_ok_def contents_def segment_simps)
    moreover have "same_in_side ?u t"
      using r False cancel_and_close_in_side
      by (auto simp: handleReceive_def run_close_callback_def aio_defs same_in_side_def tn_reads_def
          tn_read_tasks_def tn_consumed_def split: if_splits)
    ultimately show ?thesis
      using tn_recv_inv_same TN_read_done False by simp
  qed
next
  case (TN_write_done p bs ec late is_open)
  have pre: "same_in_side s (finish_op (TN_write p bs) s)"
    "same_in_side s (observe (TN_wire x) (finish_op (TN_write p bs) s))" for x
    by (simp_all add: same_in_side_def aio_defs tn_reads_def tn_reads_remove tn_read_tasks_def tn_consumed_def)
  have "same_in_side s t"
    using assms(3) TN_write_done same_in_side_trans [OF pre(1) handleSend_in_side]
      same_in_side_trans [OF pre(2) handleSend_in_side]
    by (auto simp: rbind_Inr_iff split: if_splits)
  then show ?thesis
    using tn_recv_inv_same assms(1) TN_write_done by simp
qed (use assms in \<open>auto simp: tn_recv_inv_def tn_defs tn_reads_def tn_read_tasks_def tn_consumed_def
    split: if_splits\<close>)

interpretation tnr: obliged_history tn_step tn_recv_fits tn_received tn_recv_inv
  by unfold_locales (rule tn_recv_step)

lemma tn_recv_inv_init: "tn_recv_inv [] (tn_init name)"
  using new_buffer_ok
  by (simp add: tn_recv_inv_def tn_init_def tn_consumed_def tn_reads_def tn_read_tasks_def new_buffer_def)

text \<open>
  C9: The incoming stream. As long as the callback takes no more than there is and the input
  buffer stays below \<open>2 ^ 31\<close> bytes, the bytes the callback has taken followed by the bytes
  still in the buffer are exactly the bytes received, in order; at most one read is
  outstanding, into the free region behind them, and that region is never empty.
\<close>

theorem connection_receives:
  assumes "run tn_step es (tn_init name) = Moves s" "guarded tn_recv_fits tn_step es (tn_init name)"
  shows "tn_consumed s @ contents (buf_in s) = concat (history tn_step tn_received es (tn_init name))
    \<and> (tn_reads s = [] \<or> tn_reads s = [(unat (write_index (buf_in s)), unat (writableCount (buf_in s)))])
    \<and> 0 < unat (writableCount (buf_in s))"
proof -
  have inv: "tn_recv_inv (history tn_step tn_received es (tn_init name)) s"
    using tnr.obliged_run [OF tn_recv_inv_init assms] by simp
  then have "0 < unat (writableCount (buf_in s))"
    by (simp add: tn_recv_inv_def buf_ok_unat(1))
  with inv show ?thesis
    by (auto simp: tn_recv_inv_def)
qed

definition tn_recv_events :: "tn_event list" where
  "tn_recv_events = [TN_call_set False False True, TN_call_startReceive, TN_run_task 0 False True,
     TN_read_done 0 4096 success_code ''abc'' True 2]"

text \<open>A first read, into the fresh buffer, of which the callback takes \<open>k\<close> bytes.\<close>

lemma read_fresh:
  assumes "buf_in c = new_buffer" "TN_read 0 4096 \<in> set (pending c)" "retrieve_callback c"
    and "length data < 4096" "k \<le> length data"
  shows "\<exists>d. tn_step (TN_read_done 0 4096 success_code data True k) c = Moves d
    \<and> adjustInternal (retrieveWriteIndex (of_nat (length data)) (buf_in (tn_store 0 data c))) = Inr (received data new_buffer)
    \<and> unat (readableCount (received data new_buffer)) = length data
    \<and> tn_consumed d = tn_consumed c @ take k data \<and> contents (buf_in d) = drop k data"
proof -
  have room: "recv_room data new_buffer"
    using assms(4) by (simp add: recv_room_def new_buffer_ok)
  note rc = received_ok [OF new_buffer_ok(1) room]
  let ?b = "received data new_buffer"
  have wi: "unat (write_index new_buffer) = 0" "unat (read_index new_buffer) = 0"
    by (simp_all add: new_buffer_def)
  have ad: "adjustInternal ?b = Inr ?b"
    using rc(3,5) wi by (simp add: adjustInternal_branches [OF rc(1)])
  have w: "retrieveWriteIndex (of_nat (length data)) (buf_in (tn_store 0 data u)) = ?b"
    if "buf_in u = new_buffer" for u
    using that wi by (simp add: received_def store_received_def tn_store_def)
  have cont: "contents ?b = data"
    using rc(2) new_buffer_ok by simp
  let ?u = "tn_store 0 data (finish_op (TN_read 0 4096) c)"
  let ?v = "run_retrieve_callback k (?u\<lparr>buf_in := ?b\<rparr>)"
  have "buffer (buf_in ?v) \<noteq> []"
    using rc(5) by (auto simp: run_retrieve_callback_def observe_def)
  from receiveInService_eq [OF this] have
    "tn_step (TN_read_done 0 4096 success_code data True k) c
      = Moves (initiate (TN_read (unat (write_index (buf_in ?v))) (unat (writableCount (buf_in ?v)))) ?v)"
    using assms(1,2,4) ad w [of "finish_op (TN_read 0 4096) c"] by (simp add: handleReceive_def finish_op_def)
  moreover have "tn_consumed (initiate x ?v) = tn_consumed c @ take k data"
    "contents (buf_in (initiate x ?v)) = drop k data" for x
    using assms(3,5) cont retrieveReadIndex_drops [OF rc(1), of k]
    by (simp_all add: run_retrieve_callback_def tn_consumed_def tn_store_def aio_defs)
  ultimately show ?thesis
    using ad w [OF assms(1)] length_contents [OF rc(1)] cont by simp
qed

theorem connection_receives_witness:
  "\<exists>s. run tn_step tn_recv_events (tn_init ''c'') = Moves s
    \<and> tn_consumed s @ contents (buf_in s) = ''abc'' \<and> tn_consumed s = ''ab''"
proof -
  let ?i = "tn_init ''c''"
  let ?s1 = "?i\<lparr>retrieve_callback := True, receiving := True, pending := [TN_read 0 4096]\<rparr>"
  have s1: "run tn_step (butlast tn_recv_events) ?i = Moves ?s1"
    by (simp add: tn_recv_events_def tn_init_def tn_defs buf_defs new_buffer_ok)
      (simp add: new_buffer_def)
  obtain s where s: "tn_step (TN_read_done 0 4096 success_code ''abc'' True 2) ?s1 = Moves s" "tn_consumed s = ''ab''"
    using read_fresh [of ?s1 "''abc''" 2] by (auto simp: tn_init_def tn_consumed_def)
  have es: "tn_recv_events = butlast tn_recv_events @ [TN_read_done 0 4096 success_code ''abc'' True 2]"
    by (simp add: tn_recv_events_def)
  have r: "run tn_step tn_recv_events ?i = Moves s"
    using s1 s(1) by (subst es) (simp only: run_append outcome.case run.simps)
  have pre: "guarded tn_recv_fits tn_step (butlast tn_recv_events) ?i"
      "history tn_step tn_received (butlast tn_recv_events) ?i = []"
    by (simp_all add: tn_recv_events_def split: outcome.split)
  have "tn_recv_fits (TN_read_done 0 4096 success_code ''abc'' True 2) ?s1"
    by (simp add: tn_init_def new_buffer_ok)
  then have g: "guarded tn_recv_fits tn_step tn_recv_events ?i"
    using pre(1) s1 s(1) by (subst es) (simp only: guarded_append outcome.case guarded.simps simp_thms)
  have "history tn_step tn_received tn_recv_events ?i = [''abc'']"
    using pre(2) s1 s(1) by (subst es) (simp add: history_append)
  then show ?thesis
    using connection_receives [OF r g] s(2) r by auto
qed

end
