(* ===== verification/Asio_Timer.thy ===== *)
theory Asio_Timer
  imports Asio_Runtime
begin

text \<open>
  \<open>AsioTimer\<close> of \<^verbatim>\<open>asio-1.10/src/asio_timer.cpp\<close>: a timer that runs a task once or, with
  \<open>cycle_\<close>, again and again. A pending operation is an outstanding wait. The task may throw
  (the handler catches it) and may call \<open>stopTimer\<close>; both come with the event. The
  destructor runs only when no wait is outstanding, since every wait holds the object.
\<close>

datatype at_op = AT_wait

datatype at_obs = AT_task_run | AT_expires_in int | AT_cancelled

record asio_timer = "(at_op, unit, at_obs) aio" +
  at_interval :: int
  at_task :: bool
  at_cycle :: bool

definition at_init :: "int \<Rightarrow> asio_timer" where
  "at_init interval = \<lparr>pending = [], posted = [], trace = [], at_interval = interval,
     at_task = False, at_cycle = False\<rparr>"

definition at_init_task :: "int \<Rightarrow> bool \<Rightarrow> asio_timer" where
  "at_init_task interval task = \<lparr>pending = [], posted = [], trace = [], at_interval = interval,
     at_task = task, at_cycle = False\<rparr>"

definition at_destroy :: "asio_timer \<Rightarrow> asio_timer" where
  "at_destroy s = observe AT_cancelled (s\<lparr>at_cycle := False\<rparr>)"

definition setTaskCallback :: "bool \<Rightarrow> asio_timer \<Rightarrow> asio_timer" where
  "setTaskCallback task s = s\<lparr>at_task := task\<rparr>"

definition startTimer :: "bool \<Rightarrow> asio_timer \<Rightarrow> asio_timer" where
  "startTimer cycle s = initiate AT_wait (s\<lparr>at_cycle := cycle\<rparr>)"

definition stopTimer :: "asio_timer \<Rightarrow> asio_timer" where
  "stopTimer s = s\<lparr>at_cycle := False\<rparr>"

text \<open>The task, which calls \<open>stopTimer\<close> when \<open>stops\<close>.\<close>

definition run_task :: "bool \<Rightarrow> asio_timer \<Rightarrow> asio_timer" where
  "run_task stops s = (let s = observe AT_task_run s in if stops then stopTimer s else s)"

definition handleTimer :: "error_code \<Rightarrow> bool \<Rightarrow> asio_timer \<Rightarrow> asio_timer" where
  "handleTimer ec stops s =
     (if ec_ok ec then
        let s = (if at_task s then run_task stops s else s)
        in if at_cycle s then initiate AT_wait (observe (AT_expires_in (at_interval s)) s) else s
      else s)"

datatype at_event =
    AT_call_start bool
  | AT_call_stop
  | AT_call_setTask bool
  | AT_wait_done error_code bool

fun at_step :: "at_event \<Rightarrow> asio_timer \<Rightarrow> asio_timer outcome" where
  "at_step (AT_call_start cycle) s = Moves (startTimer cycle s)"
| "at_step AT_call_stop s = Moves (stopTimer s)"
| "at_step (AT_call_setTask task) s = Moves (setTaskCallback task s)"
| "at_step (AT_wait_done ec stops) s =
     (if AT_wait \<in> set (pending s) then Moves (handleTimer ec stops (finish_op AT_wait s)) else Disabled)"

named_theorems at_defs

lemmas [at_defs] = aio_defs setTaskCallback_def startTimer_def stopTimer_def run_task_def
  handleTimer_def Let_def

section \<open>How often the task runs\<close>

definition task_runs :: "asio_timer \<Rightarrow> nat" where
  "task_runs s = length (filter (\<lambda>x. x = AT_task_run) (trace s))"

text \<open>The waits that are still to come, and the runs they can lead to.\<close>

definition stopped_budget :: "nat \<Rightarrow> asio_timer \<Rightarrow> bool" where
  "stopped_budget n s \<longleftrightarrow> \<not> at_cycle s \<and> task_runs s + length (pending s) \<le> n"

fun at_no_start :: "at_event \<Rightarrow> bool" where
  "at_no_start (AT_call_start cycle) = False"
| "at_no_start _ = True"

lemma stopped_budget_step:
  assumes "stopped_budget n s" "at_no_start e" "at_step e s = Moves t"
  shows "stopped_budget n t"
proof (cases e)
  case (AT_wait_done ec stops)
  then have "Suc (length (remove1 AT_wait (pending s))) = length (pending s)"
    using assms(3) by (simp add: length_remove1 split: if_splits)
      (metis Suc_pred length_pos_if_in_set)
  then show ?thesis
    using assms AT_wait_done
    by (auto simp: stopped_budget_def at_defs task_runs_def split: if_splits)
qed (use assms in \<open>auto simp: stopped_budget_def at_defs task_runs_def\<close>)

interpretation stopped: restricted_invariant at_step at_no_start "stopped_budget n"
  by unfold_locales (rule stopped_budget_step)

text \<open>
  \<open>stopTimer\<close> does not cancel. It only ends the cycle: after it, and until the timer is
  started again, the task still runs once for each wait that was outstanding, but no more.
\<close>

theorem stop_bounds_runs:
  assumes "run at_step es (stopTimer s) = Moves t" "list_all at_no_start es"
  shows "task_runs t + length (pending t) \<le> task_runs s + length (pending s)"
proof -
  have "stopped_budget (task_runs s + length (pending s)) (stopTimer s)"
    by (simp add: stopped_budget_def stopTimer_def task_runs_def)
  from stopped.kept_by_run [OF this assms(2,1)] show ?thesis
    by (simp add: stopped_budget_def)
qed

theorem stop_bounds_runs_witness:
  "\<exists>t. run at_step [AT_wait_done success_code False] (stopTimer (startTimer True (at_init_task 1000 True))) = Moves t
    \<and> task_runs t = 1 \<and> pending t = []"
proof -
  let ?s = "startTimer True (at_init_task 1000 True)"
  obtain t where t: "run at_step [AT_wait_done success_code False] (stopTimer ?s) = Moves t"
      "task_runs t = 1"
    by (simp add: at_init_task_def at_defs task_runs_def)
  have "task_runs ?s + length (pending ?s) = 1"
    by (simp add: at_init_task_def at_defs task_runs_def)
  with stop_bounds_runs [OF t(1)] t show ?thesis
    by simp
qed

text \<open>A running cyclic timer: it was started and its waits do not fail.\<close>

fun at_undisturbed :: "at_event \<Rightarrow> bool" where
  "at_undisturbed (AT_wait_done ec stops) = (ec_ok ec \<and> \<not> stops)"
| "at_undisturbed (AT_call_setTask task) = task"
| "at_undisturbed _ = False"

definition ticking :: "asio_timer \<Rightarrow> bool" where
  "ticking s \<longleftrightarrow> at_cycle s \<and> at_task s \<and> pending s = [AT_wait]"

fun at_ticks :: "at_event \<Rightarrow> asio_timer \<Rightarrow> unit list" where
  "at_ticks (AT_wait_done ec stops) s = [()]"
| "at_ticks _ s = []"

lemma ticking_step:
  assumes "ticking s \<and> task_runs s = n + length h" "at_undisturbed e" "at_step e s = Moves t"
  shows "ticking t \<and> task_runs t = n + length (h @ at_ticks e s)"
  using assms by (cases e) (auto simp: ticking_def at_defs task_runs_def)

interpretation tick: obliged_history at_step "\<lambda>e s. at_undisturbed e" at_ticks
    "\<lambda>h s. ticking s \<and> task_runs s = n + length h"
  by unfold_locales (rule ticking_step)

text \<open>
  A cyclic timer ticks. Started with a task on an idle timer, it runs the task exactly
  once per wait that elapses and always has the next wait outstanding.
\<close>

theorem cyclic_timer_ticks:
  assumes "pending s = []" "at_task s" "list_all at_undisturbed es"
    and "run at_step es (startTimer True s) = Moves t"
  shows "task_runs t = task_runs s + length (history at_step at_ticks es (startTimer True s))
    \<and> pending t = [AT_wait]"
proof -
  have "ticking (startTimer True s) \<and> task_runs (startTimer True s) = task_runs s + length ([] :: unit list)"
    using assms(1,2) by (simp add: ticking_def at_defs task_runs_def)
  from tick.obliged_run [OF this assms(4) guarded_events [OF assms(3)]] show ?thesis
    by (simp add: ticking_def)
qed

theorem cyclic_timer_ticks_witness:
  "\<exists>t. run at_step [AT_wait_done success_code False, AT_wait_done success_code False]
      (startTimer True (at_init_task 1000 True)) = Moves t \<and> task_runs t = 2 \<and> pending t = [AT_wait]"
proof -
  let ?es = "[AT_wait_done success_code False, AT_wait_done success_code False]"
  let ?s = "at_init_task 1000 True"
  obtain t where t: "run at_step ?es (startTimer True ?s) = Moves t"
    and h: "length (history at_step at_ticks ?es (startTimer True ?s)) = 2"
    by (simp add: at_init_task_def at_defs)
  have "pending ?s = []" "at_task ?s" "task_runs ?s = 0"
    by (simp_all add: at_init_task_def task_runs_def)
  with cyclic_timer_ticks [OF this(1,2) _ t] t h show ?thesis
    by simp
qed

end
