(* ===== verification/Net_Client.thy ===== *)
theory Net_Client
  imports Tcp_Connection Asio_Timer Framing
begin

text \<open>
  \<open>asio_net::TcpClient\<close> of \<^verbatim>\<open>asio-1.10/src/tcp_client.cpp\<close>, which owns a
  \<open>TcpConnection\<close> and an \<open>AsioTimer\<close>. Each of the two is a component of its own; the client's
  record holds all connections it has made (\<open>conn_\<close> is the last; the earlier ones live as long
  as something posted holds them) and all its timers (\<open>timer_\<close> is the last). A step of the
  client is a handler of its own, or a step of one of its connections or timers; the task
  of a timer is \<open>connectInter\<close>, bound to the raw \<open>this\<close>.
\<close>

section \<open>The class\<close>

datatype nc_op = NC_resolve | NC_connect "string list"

datatype nc_task = NC_send_task bytes

datatype nc_obs = NC_connection_callback bool

record net_client = "(nc_op, nc_task, nc_obs) aio" +
  nc_ip :: string
  nc_port :: nat
  conns :: "tcp_connection list"
  conn_sequence :: u32
  nc_reconnect :: bool
  nc_interval :: int
  nc_timers :: "asio_timer list"
  nc_connection_callback :: bool
  nc_retrieve_callback :: bool
  nc_destroyed :: bool

definition kMinInterval :: int where
  "kMinInterval = 1000"

definition kMaxInterval :: int where
  "kMaxInterval = 3000"

text \<open>\<open>new TcpConnection(io_service_, "tcp_client#" + std::to_string(++conn_sequence))\<close>\<close>

definition new_connection :: "net_client \<Rightarrow> net_client" where
  "new_connection s =
     (let n = conn_sequence s + 1
      in s\<lparr>conn_sequence := n, conns := conns s @ [tn_init (''tcp_client#'' @ to_string (unat n))]\<rparr>)"

definition nc_init :: "u32 \<Rightarrow> string \<Rightarrow> nat \<Rightarrow> net_client" where
  "nc_init sequence ip port = new_connection \<lparr>pending = [], posted = [], trace = [], nc_ip = ip,
     nc_port = port, conns = [], conn_sequence = sequence, nc_reconnect = False,
     nc_interval = kMinInterval, nc_timers = [], nc_connection_callback = False,
     nc_retrieve_callback = False, nc_destroyed = False\<rparr>"

definition nc_setConnectionCallback :: "bool \<Rightarrow> net_client \<Rightarrow> net_client" where
  "nc_setConnectionCallback cb s = s\<lparr>nc_connection_callback := cb\<rparr>"

definition nc_setReceiveCallback :: "bool \<Rightarrow> net_client \<Rightarrow> net_client" where
  "nc_setReceiveCallback cb s = s\<lparr>nc_retrieve_callback := cb\<rparr>"

text \<open>A call on \<open>conn_\<close>.\<close>

definition on_conn :: "(tcp_connection \<Rightarrow> tcp_connection) \<Rightarrow> net_client \<Rightarrow> net_client" where
  "on_conn f s = s\<lparr>conns := butlast (conns s) @ [f (last (conns s))]\<rparr>"

definition connectInter :: "net_client \<Rightarrow> net_client" where
  "connectInter s = initiate NC_resolve s"

definition nc_connect :: "bool \<Rightarrow> net_client \<Rightarrow> net_client" where
  "nc_connect reconnect s = connectInter (s\<lparr>nc_reconnect := reconnect\<rparr>)"

definition closeClient :: "net_client \<Rightarrow> net_client" where
  "closeClient s = on_conn forceClose (s\<lparr>nc_reconnect := False\<rparr>)"

definition nc_sendMessage :: "bytes \<Rightarrow> net_client \<Rightarrow> net_client" where
  "nc_sendMessage data s = post_task (NC_send_task data) s"

definition handleSending :: "bytes \<Rightarrow> net_client \<Rightarrow> net_client" where
  "handleSending data s = on_conn (sendMessage data) s"

definition handleResolver :: "error_code \<Rightarrow> string list \<Rightarrow> net_client \<Rightarrow> net_client" where
  "handleResolver ec endpoints s = (if ec_ok ec then initiate (NC_connect endpoints) s else s)"

definition run_connection_callback :: "net_client \<Rightarrow> net_client" where
  "run_connection_callback s =
     (if nc_connection_callback s then observe (NC_connection_callback (connected (last (conns s)))) s
      else s)"

definition start_reconnect_timer :: "net_client \<Rightarrow> net_client" where
  "start_reconnect_timer s =
     (let timer = at_init_task (nc_interval s) True
      in s\<lparr>nc_timers := nc_timers s @ [startTimer (\<not> nc_interval s < kMaxInterval) timer]\<rparr>)"

text \<open>
  \<open>rest\<close> is the iterator that \<open>async_connect\<close> passes, as the endpoints from it to the end; the
  end iterator is the empty list, and incrementing it is not reached.
\<close>

definition handleConnect :: "error_code \<Rightarrow> string list \<Rightarrow> net_client \<Rightarrow> net_client" where
  "handleConnect ec rest s =
     (if ec_ok ec then
        run_connection_callback
          (on_conn (\<lambda>c. startReceive
             (setCloseCallback (nc_connection_callback s)
             (setReceiveCallback (nc_retrieve_callback s)
             (setConnectionCallback (nc_connection_callback s)
             (setConnState S_CONNECTED c))))) s)
      else
        let s = new_connection (run_connection_callback s)
        in if rest \<noteq> [] then initiate (NC_connect (tl rest)) s
           else if nc_reconnect s then start_reconnect_timer s else s)"

section \<open>Steps\<close>

text \<open>
  On an error \<open>async_connect\<close> passes the end iterator, as asio documents. The user reaches a
  connection through the pointer the callbacks hand out (\<open>sendMessage\<close>, \<open>forceClose\<close>).
  Handlers of the client hold it alive; a wait of a timer does not.
\<close>

datatype nc_event =
    NC_call_connect bool
  | NC_call_close
  | NC_call_send bytes
  | NC_call_set bool bool
  | NC_run_task nat
  | NC_resolved error_code "string list"
  | NC_connected "string list" error_code "string list"
  | NC_conn nat tn_event
  | NC_timer nat error_code
  | NC_destroy

fun nc_conn_event :: "tn_event \<Rightarrow> bool" where
  "nc_conn_event (TN_call_setState st) = False"
| "nc_conn_event (TN_call_set c d r) = False"
| "nc_conn_event TN_call_startReceive = False"
| "nc_conn_event _ = True"

definition nc_on_timer :: "nat \<Rightarrow> error_code \<Rightarrow> net_client \<Rightarrow> net_client outcome" where
  "nc_on_timer k ec s =
     (case at_step (AT_wait_done ec False) (nc_timers s ! k) of
        Moves t \<Rightarrow>
          let s' = s\<lparr>nc_timers := (nc_timers s)[k := t]\<rparr>
          in if ec_ok ec \<and> at_task (nc_timers s ! k) then
               (if nc_destroyed s then Fails (Undefined Use_after_free) else Moves (connectInter s'))
             else Moves s'
      | Fails f \<Rightarrow> Fails f | Disabled \<Rightarrow> Disabled)"

fun nc_step :: "nc_event \<Rightarrow> net_client \<Rightarrow> net_client outcome" where
  "nc_step (NC_call_connect reconnect) s =
     (if nc_destroyed s then Disabled else Moves (nc_connect reconnect s))"
| "nc_step NC_call_close s = (if nc_destroyed s then Disabled else Moves (closeClient s))"
| "nc_step (NC_call_send data) s = (if nc_destroyed s then Disabled else Moves (nc_sendMessage data s))"
| "nc_step (NC_call_set c r) s =
     (if nc_destroyed s then Disabled
      else Moves (nc_setConnectionCallback c (nc_setReceiveCallback r s)))"
| "nc_step (NC_run_task i) s =
     (if i < length (posted s)
      then (case posted s ! i of NC_send_task data \<Rightarrow> Moves (handleSending data (take_task i s)))
      else Disabled)"
| "nc_step (NC_resolved ec endpoints) s =
     (if NC_resolve \<in> set (pending s)
      then Moves (handleResolver ec endpoints (finish_op NC_resolve s)) else Disabled)"
| "nc_step (NC_connected endpoints ec rest) s =
     (if NC_connect endpoints \<in> set (pending s) \<and> (\<not> ec_ok ec \<longrightarrow> rest = [])
      then Moves (handleConnect ec rest (finish_op (NC_connect endpoints) s)) else Disabled)"
| "nc_step (NC_conn i e) s =
     (if i < length (conns s) \<and> nc_conn_event e then
        (case tn_step e (conns s ! i) of
           Moves c \<Rightarrow> Moves (s\<lparr>conns := (conns s)[i := c]\<rparr>)
         | Fails f \<Rightarrow> Fails f | Disabled \<Rightarrow> Disabled)
      else Disabled)"
| "nc_step (NC_timer k ec) s = (if k < length (nc_timers s) then nc_on_timer k ec s else Disabled)"
| "nc_step NC_destroy s =
     (if pending s = [] \<and> posted s = [] \<and> \<not> nc_destroyed s then Moves (s\<lparr>nc_destroyed := True\<rparr>)
      else Disabled)"

named_theorems nc_defs

lemmas [nc_defs] = aio_defs nc_setConnectionCallback_def nc_setReceiveCallback_def on_conn_def
  connectInter_def nc_connect_def closeClient_def nc_sendMessage_def handleSending_def
  handleResolver_def run_connection_callback_def start_reconnect_timer_def handleConnect_def
  new_connection_def Let_def

section \<open>Its connections are connections\<close>

text \<open>
  Whatever the client does to a connection is a run of that connection, so the properties of
  \<open>TcpConnection\<close> hold for every connection of the client.
\<close>

definition conn_ok :: "tcp_connection \<Rightarrow> bool" where
  "conn_ok c \<longleftrightarrow> (\<exists>name. reachable tn_step (tn_init name) c)"

lemma conn_ok_step: "conn_ok c \<Longrightarrow> tn_step e c = Moves d \<Longrightarrow> conn_ok d"
  unfolding conn_ok_def by (meson reach_step)

lemma conn_ok_init: "conn_ok (tn_init name)"
  unfolding conn_ok_def by (meson reach_start)

lemma conn_ok_set:
  "conn_ok c \<Longrightarrow> conn_ok (setConnectionCallback x (setCloseCallback y (setReceiveCallback z c)))"
  using conn_ok_step [of c "TN_call_set x y z"] by simp

lemma conn_ok_calls:
  assumes "conn_ok c"
  shows "conn_ok (forceClose c)" "conn_ok (sendMessage data c)" "conn_ok (startReceive c)"
    "conn_ok (setConnState st c)"
  using conn_ok_step [OF assms, of TN_call_forceClose] conn_ok_step [OF assms, of "TN_call_sendMessage data"]
    conn_ok_step [OF assms, of TN_call_startReceive] conn_ok_step [OF assms, of "TN_call_setState st"]
  by simp_all

lemma set_callbacks_commute:
  "setCloseCallback d (setReceiveCallback r (setConnectionCallback c x))
    = setConnectionCallback c (setCloseCallback d (setReceiveCallback r x))"
  by (simp add: setCloseCallback_def setReceiveCallback_def setConnectionCallback_def)

definition conns_ok :: "net_client \<Rightarrow> bool" where
  "conns_ok s \<longleftrightarrow> conns s \<noteq> [] \<and> list_all conn_ok (conns s)"

lemma conns_ok_same: "conns t = conns s \<Longrightarrow> conns_ok s \<Longrightarrow> conns_ok t"
  by (simp add: conns_ok_def)

lemma conns_ok_on_conn:
  assumes "conns_ok s" "\<And>c. conn_ok c \<Longrightarrow> conn_ok (f c)"
  shows "conns_ok (on_conn f s)"
proof -
  have "conns s = butlast (conns s) @ [last (conns s)]"
    using assms(1) by (simp add: conns_ok_def)
  then have "\<forall>c \<in> set (butlast (conns s) @ [last (conns s)]). conn_ok c"
    using assms(1) by (simp add: conns_ok_def list_all_iff)
  then show ?thesis
    using assms(2) by (simp add: conns_ok_def on_conn_def list_all_iff)
qed

lemma conns_ok_new: "conns_ok s \<or> conns s = [] \<Longrightarrow> conns_ok (new_connection s)"
  by (auto simp: conns_ok_def new_connection_def Let_def conn_ok_init)

lemma conns_ok_handleConnect: "conns_ok s \<Longrightarrow> conns_ok (handleConnect ec rest s)"
proof (cases "ec_ok ec")
  case True
  assume "conns_ok s"
  then have "conns_ok (on_conn (\<lambda>c. startReceive
             (setCloseCallback (nc_connection_callback s)
             (setReceiveCallback (nc_retrieve_callback s)
             (setConnectionCallback (nc_connection_callback s)
             (setConnState S_CONNECTED c))))) s)"
    by (rule conns_ok_on_conn) (simp add: set_callbacks_commute conn_ok_set conn_ok_calls)
  then show ?thesis
    using True by (simp add: handleConnect_def conns_ok_def run_connection_callback_def aio_defs)
next
  case False
  assume "conns_ok s"
  then have "conns_ok (new_connection (run_connection_callback s))"
    by (intro conns_ok_new) (simp add: conns_ok_def run_connection_callback_def aio_defs)
  then show ?thesis
    using False by (simp add: handleConnect_def Let_def conns_ok_def start_reconnect_timer_def aio_defs)
qed

lemma conns_ok_step:
  assumes "conns_ok s" "nc_step e s = Moves t"
  shows "conns_ok t"
proof (cases e)
  case (NC_conn i e')
  then obtain c where c: "i < length (conns s)" "tn_step e' (conns s ! i) = Moves c"
      "t = s\<lparr>conns := (conns s)[i := c]\<rparr>"
    using assms(2) by (auto split: if_splits outcome.splits)
  then have "conn_ok c"
    using assms(1) conn_ok_step [OF _ c(2)] by (simp add: conns_ok_def list_all_length)
  then show ?thesis
    using assms(1) c by (auto simp: conns_ok_def list_all_length nth_list_update)
next
  case NC_call_close
  then show ?thesis
    using assms conns_ok_on_conn [of "s\<lparr>nc_reconnect := False\<rparr>" forceClose] conn_ok_calls
    by (auto simp: closeClient_def conns_ok_def split: if_splits)
next
  case (NC_run_task i)
  then obtain data where "t = handleSending data (take_task i s)"
    using assms(2) by (auto split: if_splits nc_task.splits)
  moreover have "conns_ok (take_task i s)"
    using assms(1) by (simp add: conns_ok_def aio_defs)
  ultimately show ?thesis
    using conns_ok_on_conn conn_ok_calls(2) by (simp add: handleSending_def)
next
  case (NC_connected endpoints ec rest)
  then show ?thesis
    using assms conns_ok_handleConnect conns_ok_same [of "finish_op (NC_connect endpoints) s" s]
    by (auto simp: aio_defs split: if_splits)
qed (use assms in \<open>auto simp: conns_ok_def nc_on_timer_def nc_defs split: if_splits outcome.splits\<close>)

interpretation ncc: step_invariant nc_step conns_ok
  by unfold_locales (rule conns_ok_step)

text \<open>
  The client composes the connection. In every reachable state of the client, the
  connection \<open>conn_\<close> exists, and every connection the client has made is in a state that a
  \<open>TcpConnection\<close> reaches by its own steps, so that what is proved of connections holds of
  them.
\<close>

theorem client_connections_reachable:
  assumes "reachable nc_step (nc_init sequence ip port) s"
  shows "conns s \<noteq> [] \<and> (\<forall>c \<in> set (conns s). \<exists>name. reachable tn_step (tn_init name) c)"
proof -
  have "conns_ok (nc_init sequence ip port)"
    unfolding nc_init_def by (rule conns_ok_new) simp
  from ncc.kept_reachable [OF this assms] show ?thesis
    by (simp add: conns_ok_def conn_ok_def list_all_iff)
qed

definition nc_demo_events :: "nc_event list" where
  "nc_demo_events = [NC_call_connect True, NC_resolved success_code [''ep''],
     NC_connected [''ep''] refused_code []]"

lemma nc_demo_run:
  obtains s where "run nc_step nc_demo_events (nc_init 0 ''h'' 777) = Moves s"
    and "pending s = []" "posted s = []" "length (conns s) = 2" "\<not> nc_destroyed s"
    and "nc_timers s = [startTimer False (at_init_task 1000 True)]" "nc_reconnect s"
  by (simp add: nc_demo_events_def nc_init_def nc_defs kMinInterval_def kMaxInterval_def)

theorem client_connections_reachable_witness:
  "\<exists>s. run nc_step nc_demo_events (nc_init 0 ''h'' 777) = Moves s \<and> length (conns s) = 2
    \<and> (\<forall>c \<in> set (conns s). \<exists>name. reachable tn_step (tn_init name) c)"
proof -
  obtain s where s: "run nc_step nc_demo_events (nc_init 0 ''h'' 777) = Moves s" "length (conns s) = 2"
    by (rule nc_demo_run)
  then have "reachable nc_step (nc_init 0 ''h'' 777) s"
    unfolding reachable_iff_run by blast
  from client_connections_reachable [OF this] s show ?thesis
    by blast
qed

section \<open>The reconnect timer outlives the client\<close>

text \<open>
  After a failed attempt nothing but the timer refers to the client, and the timer does so
  by a raw pointer: the client can be destroyed while the wait is outstanding, and when it
  elapses \<open>connectInter\<close> runs on the destroyed object.
\<close>

theorem timer_outlives_client:
  assumes "nc_step (NC_connected endpoints ec []) s = Moves t" "\<not> ec_ok ec" "nc_reconnect s"
    and "pending s = [NC_connect endpoints]" "posted s = []" "\<not> nc_destroyed s"
  shows "\<exists>u. nc_step NC_destroy t = Moves u
    \<and> nc_step (NC_timer (length (nc_timers s)) success_code) u = Fails (Undefined Use_after_free)"
  using assms
  by (cases "nc_connection_callback s") (auto simp: nc_on_timer_def at_init_task_def at_defs nc_defs)

theorem timer_outlives_client_witness:
  "\<exists>s t u. run nc_step [NC_call_connect True, NC_resolved success_code [''ep'']] (nc_init 0 ''h'' 777) = Moves s
    \<and> nc_step (NC_connected [''ep''] refused_code []) s = Moves t \<and> nc_step NC_destroy t = Moves u
    \<and> nc_step (NC_timer 0 success_code) u = Fails (Undefined Use_after_free)"
proof -
  obtain s t where h: "run nc_step [NC_call_connect True, NC_resolved success_code [''ep'']] (nc_init 0 ''h'' 777) = Moves s"
      "nc_step (NC_connected [''ep''] refused_code []) s = Moves t" "nc_reconnect s"
      "pending s = [NC_connect [''ep'']]" "posted s = []" "\<not> nc_destroyed s" "nc_timers s = []"
    by (simp add: nc_init_def nc_defs)
  from timer_outlives_client [OF h(2) _ h(3-6)] h show ?thesis
    by auto
qed

section \<open>When the client tries again\<close>

fun nc_no_connect :: "nc_event \<Rightarrow> bool" where
  "nc_no_connect (NC_call_connect reconnect) = False"
| "nc_no_connect _ = True"

definition nc_quiet :: "nat \<Rightarrow> net_client \<Rightarrow> bool" where
  "nc_quiet n s \<longleftrightarrow> pending s = [] \<and> list_all (\<lambda>t. pending t = []) (nc_timers s) \<and> length (conns s) = n \<and> 0 < n"

lemma nc_quiet_step:
  assumes "nc_quiet n s" "nc_no_connect e" "nc_step e s = Moves t"
  shows "nc_quiet n t"
proof (cases e)
  case (NC_timer k ec)
  then have "k < length (nc_timers s)" "nc_on_timer k ec s = Moves t"
    using assms(3) by (auto split: if_splits)
  then show ?thesis
    using assms(1) by (auto simp: nc_quiet_def nc_on_timer_def list_all_length)
qed (use assms in \<open>auto simp: nc_quiet_def nc_defs split: if_splits outcome.splits nc_task.splits\<close>)

interpretation ncq: restricted_invariant nc_step nc_no_connect "nc_quiet n"
  by unfold_locales (rule nc_quiet_step)

text \<open>
  Only a refused connection is tried again. When the one attempt of a client ends in a
  resolver error or in a connection, then, whatever happens afterwards (the connection may
  be lost), the client never resolves, connects or waits again until \<open>connect\<close> is called,
  although \<open>reconnect_\<close> is set.
\<close>

theorem reconnects_only_refused:
  assumes "e = NC_resolved ec eps \<and> \<not> ec_ok ec \<or> e = NC_connected eps ec rest \<and> ec_ok ec"
    and "nc_step e s = Moves t" "length (pending s) = 1" "conns s \<noteq> []"
    and "list_all (\<lambda>x. pending x = []) (nc_timers s)"
    and "run nc_step es t = Moves u" "list_all nc_no_connect es"
  shows "pending u = [] \<and> list_all (\<lambda>x. pending x = []) (nc_timers u) \<and> length (conns u) = length (conns s)"
proof -
  have "remove1 x (pending s) = []" if "x \<in> set (pending s)" for x
    using assms(3) that by (cases "pending s") auto
  then have "nc_quiet (length (conns s)) t"
    using assms(1,2,4,5) by (cases "nc_connection_callback s") (auto simp: nc_quiet_def nc_defs split: if_splits)
  from ncq.kept_by_run [OF this assms(7,6)] show ?thesis
    by (simp add: nc_quiet_def)
qed

theorem reconnects_only_refused_witness:
  "\<exists>s t u. run nc_step [NC_call_connect True, NC_resolved success_code [''ep'']] (nc_init 0 ''h'' 777) = Moves s
    \<and> nc_step (NC_connected [''ep''] success_code [''ep'']) s = Moves t
    \<and> run nc_step [NC_conn 0 (TN_run_task 0 False True), NC_conn 0 (TN_read_done 0 4096 reset_code [] True 0)] t = Moves u
    \<and> nc_reconnect u \<and> \<not> connected (last (conns u)) \<and> pending u = []"
proof -
  let ?es = "[NC_conn 0 (TN_run_task 0 False True), NC_conn 0 (TN_read_done 0 4096 reset_code [] True 0)]"
  have b: "writePtr new_buffer = Inr 0" "unat (writableCount new_buffer) = 4096"
    by (simp_all add: buf_defs new_buffer_ok) (simp add: new_buffer_def)
  obtain s t u where h: "run nc_step [NC_call_connect True, NC_resolved success_code [''ep'']] (nc_init 0 ''h'' 777) = Moves s"
      "nc_step (NC_connected [''ep''] success_code [''ep'']) s = Moves t" "run nc_step ?es t = Moves u"
      "length (pending s) = 1" "conns s \<noteq> []" "nc_timers s = []" "nc_reconnect u" "\<not> connected (last (conns u))"
    using b by (simp add: nc_init_def nc_defs tn_init_def tn_defs connected_def)
  from reconnects_only_refused [OF _ h(2,4,5) _ h(3), of success_code "[''ep'']"] h show ?thesis
    by auto
qed

definition nc_single_shot :: "net_client \<Rightarrow> bool" where
  "nc_single_shot s \<longleftrightarrow> nc_interval s = kMinInterval
     \<and> list_all (\<lambda>t. \<not> at_cycle t \<and> at_interval t = kMinInterval \<and> length (pending t) \<le> 1) (nc_timers s)"

lemma nc_single_shot_step:
  assumes "nc_single_shot s" "nc_step e s = Moves t"
  shows "nc_single_shot t"
proof (cases e)
  case (NC_timer k ec)
  then have k: "k < length (nc_timers s)" "nc_on_timer k ec s = Moves t"
    using assms(2) by (auto split: if_splits)
  obtain x where x: "at_step (AT_wait_done ec False) (nc_timers s ! k) = Moves x"
      "nc_timers t = (nc_timers s)[k := x]" "nc_interval t = nc_interval s"
    using k(2) by (auto simp: nc_on_timer_def connectInter_def aio_defs Let_def split: outcome.splits if_splits)
  have "\<not> at_cycle x \<and> at_interval x = kMinInterval \<and> length (pending x) \<le> 1"
    using assms(1) k(1) x(1)
    by (auto simp: nc_single_shot_def list_all_length at_defs length_remove1 split: if_splits)
  then show ?thesis
    using assms(1) x(2,3) k(1) by (auto simp: nc_single_shot_def list_all_length nth_list_update)
qed (use assms in \<open>auto simp: nc_single_shot_def nc_defs at_init_task_def startTimer_def kMinInterval_def
    kMaxInterval_def split: if_splits outcome.splits nc_task.splits\<close>)

interpretation nct: step_invariant nc_step nc_single_shot
  by unfold_locales (rule nc_single_shot_step)

text \<open>
  The retry interval never grows: every timer the client makes waits one second and fires
  once, and the branch that starts a cyclic timer is never taken.
\<close>

theorem retry_timers_single_shot:
  assumes "reachable nc_step (nc_init sequence ip port) s"
  shows "nc_interval s = 1000
    \<and> (\<forall>t \<in> set (nc_timers s). \<not> at_cycle t \<and> at_interval t = 1000 \<and> length (pending t) \<le> 1)"
proof -
  have "nc_single_shot (nc_init sequence ip port)"
    by (simp add: nc_single_shot_def nc_init_def new_connection_def Let_def)
  from nct.kept_reachable [OF this assms] show ?thesis
    by (simp add: nc_single_shot_def list_all_iff kMinInterval_def)
qed

section \<open>Messages sent too early\<close>

text \<open>A connection that is not connected and has no write outstanding stays silent.\<close>

definition silent :: "tcp_connection \<Rightarrow> bool" where
  "silent c \<longleftrightarrow> \<not> connected c \<and> tn_writes c = []"

lemma handleReceive_silent:
  assumes "silent c" "handleReceive ec n is_open k c = Inr d"
  shows "silent d \<and> tn_wire d = tn_wire c"
  using assms
  by (auto simp: silent_def connected_def tn_writes_def tn_wire_def tn_defs rbind_Inr_iff split: if_splits)

lemma silent_step:
  assumes "silent c" "nc_conn_event e" "tn_step e c = Moves d"
  shows "silent d \<and> tn_wire d = tn_wire c"
proof (cases e)
  case (TN_run_task i moves is_open)
  then show ?thesis
    using assms
    by (auto simp: silent_def connected_def tn_writes_def tn_wire_def tn_defs sendInService_def
        Let_def rbind_Inr_iff split: if_splits tn_task.splits)
next
  case (TN_read_done p n ec data is_open k)
  let ?u = "tn_store p data (finish_op (TN_read p n) c)"
  have "silent ?u" "tn_wire ?u = tn_wire c"
    using assms(1) by (simp_all add: silent_def connected_def tn_writes_def tn_wire_def tn_store_def
        aio_defs tn_writes_remove)
  then show ?thesis
    using handleReceive_silent [of ?u] assms(3) TN_read_done by (auto split: if_splits)
next
  case (TN_write_done p bs ec late is_open)
  then have "(p, bs) \<in> set (tn_writes c)"
    using assms(3) picks_mem [of tn_write_of "TN_write p bs" "(p, bs)" "pending c"]
    by (auto simp: tn_writes_def split: if_splits)
  then show ?thesis
    using assms(1) by (simp add: silent_def)
qed (use assms in \<open>auto simp: silent_def connected_def tn_writes_def tn_wire_def tn_defs\<close>)

definition abandoned :: "nat \<Rightarrow> bytes \<Rightarrow> net_client \<Rightarrow> bool" where
  "abandoned i w s \<longleftrightarrow> Suc i < length (conns s) \<and> silent (conns s ! i) \<and> tn_wire (conns s ! i) = w"

lemma abandoned_on_conn: "abandoned i w s \<Longrightarrow> abandoned i w (on_conn f s)"
  by (auto simp: abandoned_def on_conn_def nth_append nth_butlast)

lemma abandoned_same: "abandoned i w s \<Longrightarrow> conns t = conns s \<Longrightarrow> abandoned i w t"
  by (simp add: abandoned_def)

lemma abandoned_new: "abandoned i w s \<Longrightarrow> abandoned i w (new_connection s)"
  by (auto simp: abandoned_def new_connection_def Let_def nth_append)

lemma abandoned_handleConnect:
  assumes "abandoned i w s"
  shows "abandoned i w (handleConnect ec rest s)"
proof -
  have cb: "conns (run_connection_callback u) = conns u" for u
    by (simp add: run_connection_callback_def aio_defs)
  have "abandoned i w (new_connection (run_connection_callback s))"
    by (rule abandoned_new [OF abandoned_same [OF assms cb]])
  then show ?thesis
    using abandoned_same [OF abandoned_on_conn [OF assms] cb]
    by (auto simp: handleConnect_def Let_def start_reconnect_timer_def aio_defs intro: abandoned_same)
qed

lemma abandoned_step:
  assumes "abandoned i w s" "nc_step e s = Moves t"
  shows "abandoned i w t"
proof (cases e)
  case (NC_conn j e')
  then obtain c where c: "j < length (conns s)" "nc_conn_event e'" "tn_step e' (conns s ! j) = Moves c"
      "t = s\<lparr>conns := (conns s)[j := c]\<rparr>"
    using assms(2) by (auto split: if_splits outcome.splits)
  then show ?thesis
    using assms(1) silent_step [OF _ c(2,3)] by (auto simp: abandoned_def nth_list_update)
next
  case NC_call_close
  then show ?thesis
    using assms abandoned_on_conn [OF abandoned_same [OF assms(1)]]
    by (auto simp: closeClient_def split: if_splits)
next
  case (NC_run_task k)
  then obtain data where "t = handleSending data (take_task k s)"
    using assms(2) by (auto split: if_splits nc_task.splits)
  then show ?thesis
    using abandoned_on_conn [OF abandoned_same [OF assms(1)], of "take_task k s"]
    by (simp add: handleSending_def aio_defs)
next
  case (NC_connected endpoints ec rest)
  then show ?thesis
    using assms(2) abandoned_handleConnect [OF abandoned_same [OF assms(1), of "finish_op (NC_connect endpoints) s"]]
    by (auto simp: aio_defs split: if_splits)
qed (use assms in \<open>auto simp: abandoned_def nc_on_timer_def nc_defs split: if_splits outcome.splits\<close>)

interpretation ncl: step_invariant nc_step "abandoned i w"
  by unfold_locales (rule abandoned_step)

text \<open>
  A message sent before the connection stands is lost when the attempt fails. The failed
  attempt replaces \<open>conn_\<close>; the old connection, with the messages that were given to it in
  its tasks and its output buffer, never puts another byte on the wire in any continuation.
\<close>

theorem early_messages_lost:
  assumes "nc_step (NC_connected endpoints ec rest) s = Moves t" "\<not> ec_ok ec"
    and "conns s \<noteq> []" "\<not> connected (last (conns s))" "tn_writes (last (conns s)) = []"
    and "run nc_step es t = Moves u"
  shows "tn_wire (conns u ! (length (conns s) - 1)) = tn_wire (last (conns s))
    \<and> length (conns s) < length (conns u)"
proof -
  have "conns t = conns s @ [last (conns t)]"
    using assms(1,2) by (cases "nc_connection_callback s") (auto simp: nc_defs split: if_splits)
  then obtain c where c: "conns t = conns s @ [c]"
    by blast
  have "conns t ! (length (conns s) - 1) = last (conns s)"
    using assms(3) c by (simp add: nth_append last_conv_nth)
  then have "abandoned (length (conns s) - 1) (tn_wire (last (conns s))) t"
    using c assms(3-5) by (simp add: abandoned_def silent_def)
  from ncl.kept_run [OF this assms(6)] assms(3) show ?thesis
    by (auto simp: abandoned_def)
qed

theorem early_messages_lost_witness:
  "\<exists>s t u. run nc_step [NC_call_connect True, NC_resolved success_code [''ep''], NC_call_send ''hi'', NC_run_task 0]
      (nc_init 0 ''h'' 777) = Moves s
    \<and> posted (last (conns s)) = [TN_send_task ''hi'']
    \<and> nc_step (NC_connected [''ep''] refused_code []) s = Moves t
    \<and> run nc_step [NC_conn 0 (TN_run_task 0 False True)] t = Moves u \<and> tn_wire (conns u ! 0) = []"
proof -
  obtain s t u where h: "run nc_step [NC_call_connect True, NC_resolved success_code [''ep''], NC_call_send ''hi'',
        NC_run_task 0] (nc_init 0 ''h'' 777) = Moves s" "posted (last (conns s)) = [TN_send_task ''hi'']"
      "nc_step (NC_connected [''ep''] refused_code []) s = Moves t"
      "run nc_step [NC_conn 0 (TN_run_task 0 False True)] t = Moves u" "length (conns s) = 1"
      "\<not> connected (last (conns s))" "tn_writes (last (conns s)) = []" "tn_wire (last (conns s)) = []"
    using append_fresh [of "''hi''"]
    by (simp add: nc_init_def nc_defs tn_init_def tn_defs connected_def sendInService_def tn_writes_def tn_wire_def)
  have "conns s \<noteq> []"
    using h(5) by auto
  from early_messages_lost [OF h(3) _ this h(6,7,4)] have "tn_wire (conns u ! 0) = []"
    using h(5,8) by simp
  with h(1-4) show ?thesis
    by blast
qed

end
