(* ===== verification/Net_Stream.thy ===== *)
theory Net_Stream
  imports Net_Client "HOL-Library.Sublist"
begin

text \<open>
  The messages of the asio-1.10 \<open>TcpClient\<close> on their way through its connections: posted in
  the client, posted in a connection, in that connection's output buffer, on the wire. The
  lemmas on one connection are about any of its steps; the invariant is about all
  connections the client has made.
\<close>

section \<open>One connection\<close>

fun tn_message_of :: "tn_task \<Rightarrow> bytes option" where
  "tn_message_of (TN_send_task m) = Some m"
| "tn_message_of _ = None"

definition tn_waiting :: "tcp_connection \<Rightarrow> bytes list" where
  "tn_waiting c = picks tn_message_of (posted c)"

text \<open>Tasks run first come, first served, and only the client gives messages to a connection.\<close>

fun tn_in_order :: "tn_event \<Rightarrow> bool" where
  "tn_in_order (TN_run_task i moves is_open) = (i = 0)"
| "tn_in_order (TN_call_sendMessage m) = False"
| "tn_in_order _ = True"

definition holds_stream :: "bytes list \<Rightarrow> tcp_connection \<Rightarrow> bool" where
  "holds_stream x c \<longleftrightarrow> (\<exists>ms. tn_send_inv ms c \<and> x = ms @ tn_waiting c)"

lemma posted_same:
  "cancel_and_close is_open s = Inr t \<Longrightarrow> posted t = posted s"
  "start_write s = Inr t \<Longrightarrow> posted t = posted s"
  "sendInService moves data s = Inr t \<Longrightarrow> posted t = posted s"
  "handleSend ec n is_open s = Inr t \<Longrightarrow> posted t = posted s"
  "receiveInService s = Inr t \<Longrightarrow> posted t = posted s"
  "handleReceive ec n is_open k s = Inr t \<Longrightarrow> posted t = posted s"
  by (auto simp: tn_defs start_write_def sendInService_def handleSend_def rbind_Inr_iff Let_def split: if_splits)

lemma tn_run_task_posted: "tn_run_task moves is_open k s = Inr t \<Longrightarrow> posted t = posted s"
  by (cases k) (auto simp: tn_run_task_def closeInService_def dest: posted_same)

lemma tn_waiting_step:
  assumes "tn_step e c = Moves d" "tn_in_order e"
  shows "tn_sent e c @ tn_waiting d = tn_waiting c"
proof (cases e)
  case (TN_run_task i moves is_open)
  then have i: "i = 0" "posted c \<noteq> []" "posted d = drop 1 (posted c)"
    using assms by (auto simp: aio_defs split: if_splits dest: tn_run_task_posted)
  then show ?thesis
    using TN_run_task by (cases "posted c") (auto simp: tn_waiting_def split: tn_task.splits)
next
  case (TN_read_done p n ec data is_open k)
  then show ?thesis
    using assms by (auto simp: tn_waiting_def tn_store_def aio_defs split: if_splits dest!: posted_same)
next
  case (TN_write_done p bs ec late is_open)
  then show ?thesis
    using assms by (auto simp: tn_waiting_def aio_defs rbind_Inr_iff split: if_splits dest!: posted_same)
qed (use assms in \<open>auto simp: tn_waiting_def tn_defs\<close>)

text \<open>A step moves messages along, and neither adds nor loses one.\<close>

lemma holds_stream_step:
  assumes "holds_stream x c" "tn_send_fits e c" "tn_in_order e" "tn_step e c = Moves d"
  shows "holds_stream x d"
proof -
  obtain ms where "tn_send_inv ms c" "x = ms @ tn_waiting c"
    using assms(1) by (auto simp: holds_stream_def)
  then have "tn_send_inv (ms @ tn_sent e c) d" "x = (ms @ tn_sent e c) @ tn_waiting d"
    using tn_send_step [OF _ assms(2,4)] tn_waiting_step [OF assms(4,3)] by simp_all
  then show ?thesis
    unfolding holds_stream_def by blast
qed

lemma holds_stream_calls:
  assumes "holds_stream x c"
  shows "holds_stream x (forceClose c)" "holds_stream x (startReceive c)" "holds_stream x (setConnState st c)"
    "holds_stream x (setConnectionCallback a (setCloseCallback b (setReceiveCallback r c)))"
  using holds_stream_step [OF assms, of TN_call_forceClose] holds_stream_step [OF assms, of TN_call_startReceive]
    holds_stream_step [OF assms, of "TN_call_setState st"] holds_stream_step [OF assms, of "TN_call_set a b r"]
  by simp_all

lemma holds_stream_send: "holds_stream x c \<Longrightarrow> holds_stream (x @ [m]) (sendMessage m c)"
  using tn_out_same [of "TN_call_sendMessage m" c "sendMessage m c"] tn_send_inv_same
  by (fastforce simp: holds_stream_def tn_waiting_def sendMessage_def post_task_def)

lemma holds_stream_init: "holds_stream [] (tn_init name)"
  using tn_send_inv_init by (auto simp: holds_stream_def tn_waiting_def tn_init_def)

section \<open>The client\<close>

fun nc_message_of :: "nc_task \<Rightarrow> bytes option" where
  "nc_message_of (NC_send_task m) = Some m"

definition nc_waiting :: "net_client \<Rightarrow> bytes list" where
  "nc_waiting s = picks nc_message_of (posted s)"

fun nc_handed :: "nc_event \<Rightarrow> net_client \<Rightarrow> bytes list" where
  "nc_handed (NC_call_send m) s = [m]"
| "nc_handed _ s = []"

fun nc_stream_fits :: "nc_event \<Rightarrow> net_client \<Rightarrow> bool" where
  "nc_stream_fits (NC_run_task i) s = (i = 0)"
| "nc_stream_fits (NC_conn i e) s =
     (i < length (conns s) \<longrightarrow> tn_in_order e \<and> tn_send_fits e (conns s ! i))"
| "nc_stream_fits _ s = True"

text \<open>\<open>xs\<close> is what each connection was given.\<close>

definition nc_carries :: "bytes list \<Rightarrow> net_client \<Rightarrow> bool" where
  "nc_carries h s \<longleftrightarrow> conns s \<noteq> [] \<and> (\<exists>xs. list_all2 holds_stream xs (conns s)
     \<and> subseq (concat xs @ nc_waiting s) h)"

lemma nc_carries_same:
  "nc_carries h s \<Longrightarrow> conns t = conns s \<Longrightarrow> posted t = posted s \<Longrightarrow> nc_carries h t"
  by (simp add: nc_carries_def nc_waiting_def)

lemma nc_carries_conns:
  assumes "nc_carries h s" "length cs = length (conns s)" "posted t = posted s" "conns t = cs"
    and "\<And>x i. i < length cs \<Longrightarrow> holds_stream x (conns s ! i) \<Longrightarrow> holds_stream x (cs ! i)"
  shows "nc_carries h t"
proof -
  obtain xs where xs: "list_all2 holds_stream xs (conns s)" "subseq (concat xs @ nc_waiting s) h"
    using assms(1) by (auto simp: nc_carries_def)
  have "list_all2 holds_stream xs cs"
    using xs(1) assms(2,5) by (simp add: list_all2_conv_all_nth)
  then show ?thesis
    using assms xs(2) by (auto simp: nc_carries_def nc_waiting_def)
qed

lemma conns_on_conn:
  assumes "conns s \<noteq> []"
  shows "length (conns (on_conn f s)) = length (conns s)"
    "i < length (conns s) \<Longrightarrow> conns (on_conn f s) ! i =
      (if Suc i = length (conns s) then f (conns s ! i) else conns s ! i)"
  using assms by (auto simp: on_conn_def nth_append nth_butlast last_conv_nth less_Suc_eq dest: sym)

lemma nc_carries_on_conn:
  assumes "nc_carries h s" "\<And>x c. holds_stream x c \<Longrightarrow> holds_stream x (f c)"
  shows "nc_carries h (on_conn f s)"
proof (rule nc_carries_conns [OF assms(1)])
  have ne: "conns s \<noteq> []" using assms(1) by (simp add: nc_carries_def)
  show "length (conns (on_conn f s)) = length (conns s)" "posted (on_conn f s) = posted s"
    using conns_on_conn(1) [OF ne] by (simp_all add: on_conn_def)
  show "holds_stream x (conns (on_conn f s) ! i)"
    if "i < length (conns (on_conn f s))" "holds_stream x (conns s ! i)" for x i
    using that conns_on_conn [OF ne] assms(2) by simp
qed simp

lemma nc_carries_new: "nc_carries h s \<Longrightarrow> nc_carries h (new_connection s)"
  unfolding nc_carries_def
proof (elim conjE exE)
  fix xs
  assume "list_all2 holds_stream xs (conns s)" "subseq (concat xs @ nc_waiting s) h"
  then have "list_all2 holds_stream (xs @ [[]]) (conns (new_connection s))"
      "subseq (concat (xs @ [[]]) @ nc_waiting (new_connection s)) h"
    by (simp_all add: new_connection_def Let_def nc_waiting_def holds_stream_init list_all2_appendI)
  then show "conns (new_connection s) \<noteq> [] \<and> (\<exists>xs. list_all2 holds_stream xs (conns (new_connection s))
      \<and> subseq (concat xs @ nc_waiting (new_connection s)) h)"
    by (auto simp: new_connection_def Let_def)
qed

text \<open>A posted message becomes one of the current connection.\<close>

lemma nc_carries_task:
  assumes "nc_carries h s" "posted s = NC_send_task m # ks"
  shows "nc_carries h (handleSending m (take_task 0 s))"
proof -
  obtain xs where xs: "list_all2 holds_stream xs (conns s)" "subseq (concat xs @ nc_waiting s) h" "conns s \<noteq> []"
    using assms(1) by (auto simp: nc_carries_def)
  then have ne: "xs \<noteq> []" "length xs = length (conns s)"
    by (auto dest: list_all2_lengthD)
  let ?ys = "butlast xs @ [last xs @ [m]]" and ?t = "handleSending m (take_task 0 s)"
  have "list_all2 holds_stream (butlast xs @ [last xs]) (butlast (conns s) @ [last (conns s)])"
    using xs(1,3) ne(1) by simp
  then have "holds_stream (last xs) (last (conns s))" "list_all2 holds_stream (butlast xs) (butlast (conns s))"
    using ne(2) by (simp_all only: list_all2_append length_butlast list_all2_Cons)
  then have "list_all2 holds_stream ?ys (conns ?t)"
    using holds_stream_send by (simp add: handleSending_def on_conn_def take_task_def list_all2_appendI)
  moreover have "concat ?ys @ nc_waiting ?t = concat (butlast xs @ [last xs]) @ nc_waiting s"
    using assms(2) by (simp add: nc_waiting_def handleSending_def on_conn_def take_task_def)
  then have "subseq (concat ?ys @ nc_waiting ?t) h"
    using xs(2) append_butlast_last_id [OF ne(1)] by metis
  moreover have "conns ?t \<noteq> []"
    by (simp add: handleSending_def on_conn_def)
  ultimately show ?thesis
    unfolding nc_carries_def by blast
qed

lemma nc_carries_handleConnect: "nc_carries h s \<Longrightarrow> nc_carries h (handleConnect ec rest s)"
proof (cases "ec_ok ec")
  case True
  assume "nc_carries h s"
  then have "nc_carries h (on_conn (\<lambda>c. startReceive
             (setCloseCallback (nc_connection_callback s)
             (setReceiveCallback (nc_retrieve_callback s)
             (setConnectionCallback (nc_connection_callback s)
             (setConnState S_CONNECTED c))))) s)"
    by (rule nc_carries_on_conn) (simp add: set_callbacks_commute holds_stream_calls)
  then show ?thesis
    using True by (auto simp: handleConnect_def run_connection_callback_def aio_defs intro: nc_carries_same)
next
  case False
  assume "nc_carries h s"
  then have "nc_carries h (new_connection (run_connection_callback s))"
    by (intro nc_carries_new) (auto simp: run_connection_callback_def aio_defs intro: nc_carries_same)
  then show ?thesis
    using False by (auto simp: handleConnect_def Let_def start_reconnect_timer_def aio_defs intro: nc_carries_same)
qed

lemma nc_carries_step:
  assumes "nc_carries h s" "nc_stream_fits e s" "nc_step e s = Moves t"
  shows "nc_carries (h @ nc_handed e s) t"
proof (cases e)
  case (NC_conn i e')
  then obtain c where c: "i < length (conns s)" "tn_step e' (conns s ! i) = Moves c"
      "t = s\<lparr>conns := (conns s)[i := c]\<rparr>"
    using assms(3) by (auto split: if_splits outcome.splits)
  have "nc_carries h t"
  proof (rule nc_carries_conns [OF assms(1)])
    show "holds_stream x ((conns s)[i := c] ! j)"
      if "j < length ((conns s)[i := c])" "holds_stream x (conns s ! j)" for x j
      using that c assms(2) NC_conn holds_stream_step [of x "conns s ! i" e' c]
      by (cases "j = i") auto
  qed (simp_all add: c(3))
  then show ?thesis using NC_conn by simp
next
  case (NC_call_send m)
  then have t: "t = nc_sendMessage m s"
    using assms(3) by (auto split: if_splits)
  obtain xs where "list_all2 holds_stream xs (conns s)" "subseq (concat xs @ nc_waiting s) h" "conns s \<noteq> []"
    using assms(1) by (auto simp: nc_carries_def)
  moreover from this(2) have "subseq ((concat xs @ nc_waiting s) @ [m]) (h @ [m])"
    by (simp only: subseq_append)
  ultimately show ?thesis
    using NC_call_send t by (auto simp: nc_carries_def nc_waiting_def nc_sendMessage_def post_task_def)
next
  case NC_call_close
  then have "t = on_conn forceClose (s\<lparr>nc_reconnect := False\<rparr>)"
    using assms(3) by (auto simp: closeClient_def split: if_splits)
  then show ?thesis
    using NC_call_close nc_carries_on_conn [OF nc_carries_same [OF assms(1)]] holds_stream_calls(1) by simp
next
  case (NC_run_task i)
  then obtain m ks where "posted s = NC_send_task m # ks" "t = handleSending m (take_task 0 s)"
    using assms(2,3) by (cases "posted s") (auto split: nc_task.splits)
  then show ?thesis
    using NC_run_task nc_carries_task [OF assms(1)] by simp
next
  case (NC_connected endpoints ec rest)
  then have "t = handleConnect ec rest (finish_op (NC_connect endpoints) s)"
    using assms(3) by (auto split: if_splits)
  then show ?thesis
    using NC_connected nc_carries_handleConnect [OF nc_carries_same [OF assms(1)]] by (simp add: finish_op_def)
next
  case (NC_timer k ec)
  then have "conns t = conns s \<and> posted t = posted s"
    using assms(3) by (auto simp: nc_on_timer_def connectInter_def aio_defs Let_def split: outcome.splits if_splits)
  then show ?thesis
    using NC_timer nc_carries_same [OF assms(1)] by simp
qed (use assms(3) in \<open>auto simp: nc_defs split: if_splits intro!: nc_carries_same [OF assms(1)]\<close>)

interpretation ncs: obliged_history nc_step nc_stream_fits nc_handed nc_carries
  by unfold_locales (rule nc_carries_step)

lemma nc_carries_init: "nc_carries [] (nc_init sequence ip port)"
  unfolding nc_carries_def nc_init_def new_connection_def
  by (simp add: Let_def nc_waiting_def)
    (rule exI [of _ "[[]]"], simp add: holds_stream_init)

lemma nc_carries_wires:
  assumes "nc_carries h s"
  shows "\<exists>xs. length xs = length (conns s) \<and> subseq (concat xs) h
    \<and> (\<forall>i < length xs. prefix (tn_wire (conns s ! i)) (concat (xs ! i)))"
proof -
  obtain xs where xs: "list_all2 holds_stream xs (conns s)" "subseq (concat xs @ nc_waiting s) h"
    using assms by (auto simp: nc_carries_def)
  have "prefix (tn_wire (conns s ! i)) (concat (xs ! i))" if "i < length xs" for i
  proof -
    have "holds_stream (xs ! i) (conns s ! i)"
      using xs(1) that by (simp add: list_all2_nthD)
    then obtain ms where "tn_send_inv ms (conns s ! i)" "xs ! i = ms @ tn_waiting (conns s ! i)"
      by (auto simp: holds_stream_def)
    then have "concat (xs ! i) = tn_wire (conns s ! i) @ contents (buf_out (conns s ! i)) @ concat (tn_waiting (conns s ! i))"
      by (simp add: tn_send_inv_def)
    then show ?thesis by (rule prefixI)
  qed
  moreover have "subseq (concat xs) h"
    using xs(2) prefix_imp_subseq subseq_order.order_trans by (metis prefixI)
  ultimately show ?thesis
    using list_all2_lengthD [OF xs(1)] by blast
qed

text \<open>
  From \<open>sendMessage\<close> to the wire, across reconnections. The messages given to the client can
  be shared out to its connections, in order, each message to at most one of them (some are
  lost), such that what a connection has put on the wire is a prefix of its share, put
  together. This needs that tasks run in order and that a message sent during a write fits
  into the output buffer.
\<close>

theorem net_client_stream:
  assumes "run nc_step es (nc_init sequence ip port) = Moves s"
    and "guarded nc_stream_fits nc_step es (nc_init sequence ip port)"
  shows "\<exists>xs. length xs = length (conns s) \<and> subseq (concat xs) (history nc_step nc_handed es (nc_init sequence ip port))
    \<and> (\<forall>i < length xs. prefix (tn_wire (conns s ! i)) (concat (xs ! i)))"
  using nc_carries_wires [OF ncs.obliged_run [OF nc_carries_init assms]] by simp

text \<open>The example: a connected client puts one message on the wire.\<close>

definition nc_stream_events :: "nc_event list" where
  "nc_stream_events = [NC_call_connect True, NC_resolved success_code [''ep''],
     NC_connected [''ep''] success_code [''ep''], NC_call_send ''ab'', NC_run_task 0,
     NC_conn 0 (TN_run_task 0 False True), NC_conn 0 (TN_run_task 0 False True),
     NC_conn 0 (TN_write_done 0 ''ab'' success_code False True)]"

lemma retrieve_demo: "readableCount (retrieveReadIndex 2 tn_demo_buffer) = 0"
  by (simp add: retrieveReadIndex_def tn_demo_buffer_def new_buffer_def readableCount_def)

lemma write_demo:
  assumes "buf_out c = tn_demo_buffer"
  shows "start_write c = Inr (initiate (TN_write 0 ''ab'') (c\<lparr>out_moved := False\<rparr>))"
  using start_write_ok [of c] assms tn_demo_buffer_ok by simp

theorem net_client_stream_witness:
  "\<exists>s xs. run nc_step nc_stream_events (nc_init 0 ''h'' 777) = Moves s \<and> tn_wire (conns s ! 0) = ''ab''
    \<and> subseq (concat xs) [''ab''] \<and> prefix ''ab'' (concat (xs ! 0))"
proof -
  let ?i = "nc_init 0 ''h'' 777"
  have b: "writePtr new_buffer = Inr 0" "unat (writableCount new_buffer) = 4096"
    by (simp_all add: buf_defs new_buffer_ok) (simp add: new_buffer_def)
  note demo = tn_demo_buffer_ok(1) retrieve_demo write_demo b
  obtain s where s: "run nc_step nc_stream_events ?i = Moves s" "tn_wire (conns s ! 0) = ''ab''" "length (conns s) = 1"
    by (simp add: nc_stream_events_def nc_init_def nc_defs tn_init_def tn_defs connected_def sendInService_def
        handleSend_def wire_bytes_def tn_wire_def demo)
  have "guarded nc_stream_fits nc_step nc_stream_events ?i"
    by (simp add: nc_stream_events_def nc_init_def nc_defs tn_init_def tn_defs connected_def sendInService_def
        handleSend_def wire_bytes_def demo buf_room_def new_buffer_ok tn_writes_def split: outcome.split)
  from net_client_stream [OF s(1) this] obtain xs where
    xs: "length xs = 1" "subseq (concat xs) (history nc_step nc_handed nc_stream_events ?i)" "prefix ''ab'' (concat (xs ! 0))"
    using s(2,3) by auto
  have "history nc_step nc_handed nc_stream_events ?i = [''ab'']"
    by (simp add: nc_stream_events_def nc_init_def nc_defs split: outcome.split)
  with s xs show ?thesis by auto
qed

end
