(* ===== verification/Test_Net.thy ===== *)
theory Test_Net
  imports Test_Program Net_Stream
begin

text \<open>
  The program of \<^verbatim>\<open>asio-1.10/src/test.cpp\<close> around the \<open>TcpClient\<close> of that directory. Its one
  thread sets the client up and then runs the \<open>io_service\<close>, with everything it throws caught;
  \<open>main\<close> reads the console, and joins that thread in \<open>stop\<close>. The receive callback prints what
  the buffer holds and takes it out.
\<close>

section \<open>The program\<close>

type_synonym test_net = "net_client test_program"

definition tm_start :: "bytes \<Rightarrow> bytes \<Rightarrow> test_net" where
  "tm_start mem inp = (test_start mem inp)\<lparr>thread_handle := True\<rparr>"

definition tm_send :: "bytes \<Rightarrow> test_net \<Rightarrow> test_net outcome" where
  "tm_send msg p = at_client (nc_sendMessage msg) p"

definition tm_stop :: "test_net \<Rightarrow> test_net outcome" where
  "tm_stop p = (case main_pc p of
     M_stop \<Rightarrow> at_client closeClient (p\<lparr>main_pc := M_join\<rparr>)
   | M_join \<Rightarrow> Moves (p\<lparr>main_pc := M_joining\<rparr>)
   | M_joining \<Rightarrow>
       if service p = V_returned then Moves (p\<lparr>thread_handle := False, main_pc := M_returned\<rparr>)
       else Disabled
   | _ \<Rightarrow> Disabled)"

definition tm_main :: "test_net \<Rightarrow> test_net outcome" where
  "tm_main p = (case main_pc p of
     M_read line st \<Rightarrow> Moves (p\<lparr>main_pc := main_read line st\<rparr>)
   | M_send msg st \<Rightarrow> tm_send msg (p\<lparr>main_pc := M_read (replicate line_size NUL) st\<rparr>)
   | M_returned \<Rightarrow> Disabled
   | _ \<Rightarrow> tm_stop p)"

text \<open>The thread, up to \<open>io_service_.run()\<close>.\<close>

definition tm_setup :: "u32 \<Rightarrow> test_net \<Rightarrow> test_net outcome" where
  "tm_setup sequence p = (case setup_pc p of
     D_construct \<Rightarrow> Moves (p\<lparr>client_ptr := Some (nc_init sequence ''172.16.100.247'' 777), setup_pc := D_callbacks\<rparr>)
   | D_callbacks \<Rightarrow> at_client (\<lambda>c. nc_setReceiveCallback True (nc_setConnectionCallback True c)) (p\<lparr>setup_pc := D_open\<rparr>)
   | D_open \<Rightarrow> at_client (nc_connect True) (p\<lparr>setup_pc := D_thread\<rparr>)
   | D_thread \<Rightarrow> Moves (p\<lparr>service := V_running, setup_pc := D_over\<rparr>)
   | _ \<Rightarrow> Disabled)"

fun tn_handler :: "tn_event \<Rightarrow> bool" where
  "tn_handler (TN_run_task i moves is_open) = True"
| "tn_handler (TN_read_done p n ec data is_open k) = True"
| "tn_handler (TN_write_done p bs ec late is_open) = True"
| "tn_handler _ = False"

fun nc_handler :: "nc_event \<Rightarrow> bool" where
  "nc_handler (NC_run_task i) = True"
| "nc_handler (NC_resolved ec eps) = True"
| "nc_handler (NC_connected eps ec rest) = True"
| "nc_handler (NC_conn i e) = tn_handler e"
| "nc_handler (NC_timer k ec) = True"
| "nc_handler _ = False"

text \<open>
  The receive callback: \<open>retrieveReadIndex(readableCount())\<close>, so a read makes it take what is
  readable then.
\<close>

fun takes_all :: "tn_event \<Rightarrow> tcp_connection \<Rightarrow> bool" where
  "takes_all (TN_read_done p n ec data is_open k) c =
     (case adjustInternal (retrieveWriteIndex (of_nat (length data)) (buf_in (tn_store p data c))) of
        Inl f \<Rightarrow> True
      | Inr b \<Rightarrow> ec_ok ec \<longrightarrow> k = unat (readableCount b))"
| "takes_all _ c = True"

fun nc_takes_all :: "nc_event \<Rightarrow> net_client \<Rightarrow> bool" where
  "nc_takes_all (NC_conn i e) s = (i < length (conns s) \<longrightarrow> takes_all e (conns s ! i))"
| "nc_takes_all _ s = True"

text \<open>
  A handler. An exception leaves \<open>run\<close>, is caught and reported, and ends the thread; the handlers
  of the client and its connections throw in their first action (\<open>cancel\<close>), so the client is left
  as it was (with the operation that has completed still listed, which no thread looks at any more).
\<close>

definition tm_service :: "nc_event \<Rightarrow> test_net \<Rightarrow> test_net outcome" where
  "tm_service e p = (case client_ptr p of
     None \<Rightarrow> Disabled
   | Some s \<Rightarrow>
       if service p = V_running \<and> nc_handler e \<and> nc_takes_all e s then
         (case nc_step e s of
            Moves t \<Rightarrow> Moves (p\<lparr>client_ptr := Some t\<rparr>)
          | Fails (Throws msg) \<Rightarrow> Moves (p\<lparr>service := V_returned\<rparr>)
          | Fails (Undefined u) \<Rightarrow> Fails (Undefined u)
          | Disabled \<Rightarrow> Disabled)
       else Disabled)"

text \<open>
  The callback itself throws when the remote address cannot be had any more (\<open>remoteIP\<close>, before
  anything is printed or taken): the bytes of the read stay in the buffer, no next read starts,
  and the exception leaves \<open>run\<close>.
\<close>

fun receive_throws :: "tn_event \<Rightarrow> tcp_connection \<Rightarrow> tcp_connection outcome" where
  "receive_throws (TN_read_done p n ec data is_open k) c =
     (if TN_read p n \<in> set (pending c) \<and> length data \<le> n \<and> ec_ok ec \<and> retrieve_callback c then
        (let c = tn_store p data (finish_op (TN_read p n) c)
         in outcome_of (rbind (adjustInternal (retrieveWriteIndex (of_nat (length data)) (buf_in c))) (\<lambda>b.
              Inr (c\<lparr>buf_in := b\<rparr>))))
      else Disabled)"
| "receive_throws _ c = Disabled"

definition tm_callback_throws :: "nat \<Rightarrow> tn_event \<Rightarrow> test_net \<Rightarrow> test_net outcome" where
  "tm_callback_throws i e p = (case client_ptr p of
     None \<Rightarrow> Disabled
   | Some s \<Rightarrow>
       if service p = V_running \<and> i < length (conns s) then
         map_outcome (\<lambda>c. p\<lparr>client_ptr := Some (s\<lparr>conns := (conns s)[i := c]\<rparr>), service := V_returned\<rparr>)
           (receive_throws e (conns s ! i))
       else Disabled)"

text \<open>\<open>run\<close> returns when the client, its connections and its timers have nothing outstanding.\<close>

definition nc_idle :: "net_client \<Rightarrow> bool" where
  "nc_idle s \<longleftrightarrow> pending s = [] \<and> posted s = []
     \<and> list_all (\<lambda>c. pending c = [] \<and> posted c = []) (conns s)
     \<and> list_all (\<lambda>t. pending t = []) (nc_timers s)"

definition tm_service_ends :: "test_net \<Rightarrow> test_net outcome" where
  "tm_service_ends p = (case client_ptr p of
     None \<Rightarrow> Disabled
   | Some s \<Rightarrow> if service p = V_running \<and> nc_idle s then Moves (p\<lparr>service := V_returned\<rparr>) else Disabled)"

datatype tm_event = TM_main | TM_setup u32 | TM_service nc_event | TM_callback_throws nat tn_event | TM_service_ends

fun tm_step :: "tm_event \<Rightarrow> test_net \<Rightarrow> test_net outcome" where
  "tm_step TM_main p = tm_main p"
| "tm_step (TM_setup sequence) p = tm_setup sequence p"
| "tm_step (TM_service e) p = tm_service e p"
| "tm_step (TM_callback_throws i e) p = tm_callback_throws i e p"
| "tm_step TM_service_ends p = tm_service_ends p"

named_theorems tm_defs

lemmas [tm_defs] = test_defs tm_start_def tm_send_def tm_stop_def tm_main_def tm_setup_def tm_service_def
  tm_callback_throws_def tm_service_ends_def

text \<open>The step of the client inside a step of the service.\<close>

lemma tm_service_Moves:
  assumes "tm_service e p = Moves q"
  obtains (handled) s t where "client_ptr p = Some s" "nc_step e s = Moves t" "q = p\<lparr>client_ptr := Some t\<rparr>"
      "service p = V_running" "nc_handler e" "nc_takes_all e s"
    | (thrown) s msg where "client_ptr p = Some s" "nc_step e s = Fails (Throws msg)"
      "q = p\<lparr>service := V_returned\<rparr>" "service p = V_running"
  using assms by (auto simp: tm_service_def split: option.splits if_splits outcome.splits fault.splits)

lemma tm_service_ends_Moves: "tm_service_ends p = Moves q \<Longrightarrow> q = p\<lparr>service := V_returned\<rparr>"
  by (auto simp: tm_service_ends_def split: option.splits if_splits)

lemma receive_throws_Moves:
  assumes "receive_throws e c = Moves d"
  obtains p n ec data is_open k b where "e = TN_read_done p n ec data is_open k"
    and "TN_read p n \<in> set (pending c)" "length data \<le> n" "ec_ok ec"
    and "adjustInternal (retrieveWriteIndex (of_nat (length data))
      (buf_in (tn_store p data (finish_op (TN_read p n) c)))) = Inr b"
    and "d = (tn_store p data (finish_op (TN_read p n) c))\<lparr>buf_in := b\<rparr>"
  using assms by (cases e) (auto simp: Let_def rbind_Inr_iff split: if_splits)

lemma tm_callback_throws_Moves:
  assumes "tm_callback_throws i e p = Moves q"
  obtains s d where "client_ptr p = Some s" "service p = V_running" "i < length (conns s)"
    "receive_throws e (conns s ! i) = Moves d"
    "q = p\<lparr>client_ptr := Some (s\<lparr>conns := (conns s)[i := d]\<rparr>), service := V_returned\<rparr>"
  using assms by (auto simp: tm_callback_throws_def map_outcome_Moves split: option.splits if_splits)

section \<open>From the console to the wire\<close>

fun tm_handed :: "tm_event \<Rightarrow> test_net \<Rightarrow> bytes list" where
  "tm_handed TM_main p = (case main_pc p of M_send msg st \<Rightarrow> [msg] | _ \<Rightarrow> [])"
| "tm_handed _ p = []"

fun tm_stream_fits :: "tm_event \<Rightarrow> test_net \<Rightarrow> bool" where
  "tm_stream_fits (TM_service e) p = (case client_ptr p of None \<Rightarrow> True | Some s \<Rightarrow> nc_stream_fits e s)"
| "tm_stream_fits _ p = True"

lemma nc_carries_calls:
  assumes "nc_carries h s"
  shows "nc_carries (h @ [m]) (nc_sendMessage m s)" "nc_carries h (closeClient s)"
    "nc_carries h (nc_setReceiveCallback r (nc_setConnectionCallback c s))" "nc_carries h (nc_connect b s)"
proof -
  have "nc_carries (h @ [m]) (nc_sendMessage m (s\<lparr>nc_destroyed := False\<rparr>))"
    using nc_carries_step [OF nc_carries_same [OF assms], of "s\<lparr>nc_destroyed := False\<rparr>" "NC_call_send m"]
    by simp
  then show "nc_carries (h @ [m]) (nc_sendMessage m s)"
    by (rule nc_carries_same) (simp_all add: nc_sendMessage_def post_task_def)
  show "nc_carries h (closeClient s)"
    using nc_carries_on_conn [OF nc_carries_same [OF assms]] holds_stream_calls(1)
    by (simp add: closeClient_def)
qed (use nc_carries_same [OF assms] in \<open>simp_all add: nc_defs\<close>)

lemma tm_setup_typed:
  assumes "tm_setup sequence p = Moves q" "typed nc_carries all h p"
  shows "typed nc_carries all h q"
proof (cases "setup_pc p")
  case D_construct
  then show ?thesis
    using assms typed_constructed [OF assms(2) _ nc_carries_init] by (auto simp: tm_setup_def)
next
  case D_callbacks
  then show ?thesis
    using assms by (auto simp: tm_setup_def typed_threads intro: at_client_typed nc_carries_calls(3))
next
  case D_open
  then show ?thesis
    using assms by (auto simp: tm_setup_def typed_threads intro: at_client_typed nc_carries_calls(4))
qed (use assms in \<open>auto simp: tm_setup_def typed_def\<close>)

lemma tm_main_typed:
  assumes "tm_main p = Moves q" "typed nc_carries all h p"
  shows "typed nc_carries all (h @ tm_handed TM_main p) q"
proof (cases "main_pc p")
  case (M_read line st)
  then show ?thesis
    using assms by (auto simp: tm_main_def unsent_main_read intro: typed_main)
next
  case (M_send msg st)
  then have "at_client (nc_sendMessage msg) (p\<lparr>main_pc := M_read (replicate line_size NUL) st\<rparr>) = Moves q"
    using assms(1) by (simp add: tm_main_def tm_send_def)
  from send_typed [OF this assms(2) M_send nc_carries_calls(1)] M_send show ?thesis
    by simp
next
  case M_stop
  then have "at_client closeClient (p\<lparr>main_pc := M_join\<rparr>) = Moves q"
    using assms(1) by (simp add: tm_main_def tm_stop_def)
  from at_client_typed [OF this typed_main [OF assms(2)] nc_carries_calls(2)] M_stop show ?thesis
    by simp
qed (use assms in \<open>auto simp: tm_main_def tm_stop_def typed_def split: if_splits\<close>)

lemma receive_throws_stream:
  assumes "receive_throws e c = Moves d" "holds_stream x c"
  shows "holds_stream x d"
proof -
  have "same_out_side c d" "posted d = posted c"
    using assms(1) by (auto elim!: receive_throws_Moves simp: same_out_side_def tn_store_def aio_defs tn_wire_def
        tn_writes_def tn_writes_remove)
  then show ?thesis
    using assms(2) tn_send_inv_same by (auto simp: holds_stream_def tn_waiting_def)
qed

lemma tm_typed_step:
  assumes "typed nc_carries all h p" "tm_stream_fits e p" "tm_step e p = Moves q"
  shows "typed nc_carries all (h @ tm_handed e p) q"
proof (cases e)
  case TM_main
  then show ?thesis using assms tm_main_typed by simp
next
  case (TM_setup sequence)
  then show ?thesis using assms tm_setup_typed by simp
next
  case (TM_service ne)
  then have "tm_service ne p = Moves q"
    using assms(3) by simp
  then have "typed nc_carries all h q"
  proof (cases rule: tm_service_Moves)
    case (handled s t)
    have "nc_handed ne s = []"
      using handled(5) by (cases ne) simp_all
    then have "nc_carries h s \<Longrightarrow> nc_carries h t"
      using nc_carries_step [OF _ _ handled(2), of h] assms(2) TM_service handled(1) by simp
    then show ?thesis
      using assms(1) handled by (simp add: typed_def)
  next
    case thrown
    then show ?thesis using typed_threads [OF assms(1)] by simp
  qed
  then show ?thesis using TM_service by simp
next
  case (TM_callback_throws i ce)
  then have "tm_callback_throws i ce p = Moves q"
    using assms(3) by simp
  then obtain s d where s: "client_ptr p = Some s" "receive_throws ce (conns s ! i) = Moves d"
      and i: "i < length (conns s)" and q: "q = p\<lparr>client_ptr := Some (s\<lparr>conns := (conns s)[i := d]\<rparr>), service := V_returned\<rparr>"
    by (rule tm_callback_throws_Moves)
  have "nc_carries h (s\<lparr>conns := (conns s)[i := d]\<rparr>)" if "nc_carries h s"
    by (rule nc_carries_conns [OF that, where cs = "(conns s)[i := d]"])
      (use receive_throws_stream [OF s(2)] i in \<open>auto simp: nth_list_update\<close>)
  then show ?thesis
    using assms(1) s(1) q TM_callback_throws by (simp add: typed_def)
qed (use assms typed_threads(2) [OF assms(1)] in \<open>auto dest: tm_service_ends_Moves\<close>)

interpretation tmt: obliged_history tm_step tm_stream_fits tm_handed "typed nc_carries all"
  by unfold_locales (rule tm_typed_step)

text \<open>
  C10: from the keyboard to the wire, through the client, its connections and their output
  buffers. Let the posted tasks run in order, and let every message that reaches a connection
  while a write is outstanding fit behind the bytes in its output buffer, so that \<open>append\<close>
  neither moves nor grows it. Whatever the attempts and losses, the lines typed can be shared
  out to the connections, in order and each to at most one, so that the completed writes of
  every connection carry a prefix of its share.
\<close>

theorem net_test_writes_lines:
  assumes "run tm_step es (tm_start mem (as_input ls rest)) = Moves p"
    and "guarded tm_stream_fits tm_step es (tm_start mem (as_input ls rest))"
    and "\<forall>l \<in> set ls. LF \<notin> set l" "LF \<notin> set rest" "client_ptr p = Some s"
  shows "\<exists>xs. length xs = length (conns s)
    \<and> subseq (concat xs) (typed_messages (ls @ (if rest = [] then [] else [rest])))
    \<and> (\<forall>i < length xs. prefix (tn_wire (conns s ! i)) (concat (xs ! i)))"
proof -
  let ?p0 = "tm_start mem (as_input ls rest)" and ?all = "typed_messages (ls @ (if rest = [] then [] else [rest]))"
  have "typed nc_carries ?all [] ?p0"
    unfolding tm_start_def
    by (rule typed_threads(3) [OF typed_start [OF console_loop_lines [OF assms(3,4)]]])
  from tmt.obliged_run [OF this assms(1,2)] assms(5)
  have h: "prefix (history tm_step tm_handed es ?p0) ?all" "nc_carries (history tm_step tm_handed es ?p0) s"
    by (auto simp: typed_def dest: append_prefixD)
  from nc_carries_wires [OF h(2)] obtain xs where
    "length xs = length (conns s)" "subseq (concat xs) (history tm_step tm_handed es ?p0)"
    "\<forall>i < length xs. prefix (tn_wire (conns s ! i)) (concat (xs ! i))" by blast
  then show ?thesis
    using subseq_order.order_trans [OF _ prefix_imp_subseq [OF h(1)]] by blast
qed

text \<open>The example: the line \<open>ab\<close> is typed while the client connects.\<close>

definition tm_connect_events :: "tm_event list" where
  "tm_connect_events = [TM_setup 0, TM_setup 0, TM_setup 0, TM_setup 0,
     TM_service (NC_resolved success_code [''ep'']), TM_service (NC_connected [''ep''] success_code [''ep''])]"

definition tm_demo_events :: "tm_event list" where
  "tm_demo_events = tm_connect_events @ [TM_main, TM_main, TM_service (NC_run_task 0),
     TM_service (NC_conn 0 (TN_run_task 0 False True)), TM_service (NC_conn 0 (TN_run_task 0 False True)),
     TM_service (NC_conn 0 (TN_write_done 0 ''ab'' success_code False True))]"

theorem net_test_writes_lines_witness:
  "\<exists>p s xs. run tm_step tm_demo_events (tm_start (replicate 1024 NUL) (as_input [''ab''] [])) = Moves p
    \<and> client_ptr p = Some s \<and> tn_wire (conns s ! 0) = ''ab''
    \<and> subseq (concat xs) [''ab''] \<and> prefix ''ab'' (concat (xs ! 0))"
proof -
  let ?p0 = "tm_start (replicate 1024 NUL) (as_input [''ab''] [])"
  have b: "writePtr new_buffer = Inr 0" "unat (writableCount new_buffer) = 4096"
    by (simp_all add: buf_defs new_buffer_ok) (simp add: new_buffer_def)
  note demo = tn_demo_buffer_ok(1) retrieve_demo write_demo b
  obtain p s where p: "run tm_step tm_demo_events ?p0 = Moves p" "client_ptr p = Some s"
      "tn_wire (conns s ! 0) = ''ab''" "length (conns s) = 1"
    by (simp add: tm_demo_events_def tm_connect_events_def tm_defs nc_init_def nc_defs tn_init_def tn_defs
        connected_def sendInService_def handleSend_def wire_bytes_def tn_wire_def demo main_read_def getline_def
        fresh_input_def line_size_def c_string_def overwrite_def)
  have "guarded tm_stream_fits tm_step tm_demo_events ?p0"
    by (simp add: tm_demo_events_def tm_connect_events_def tm_defs nc_init_def nc_defs tn_init_def tn_defs
        connected_def sendInService_def handleSend_def wire_bytes_def demo main_read_def getline_def
        fresh_input_def line_size_def c_string_def overwrite_def buf_room_def new_buffer_ok tn_writes_def)
  from net_test_writes_lines [OF p(1) this _ _ p(2)] p obtain xs where
    "length xs = 1" "subseq (concat xs) [''ab'']" "prefix ''ab'' (concat (xs ! 0))"
    by (auto simp: line_size_def c_string_def)
  with p show ?thesis by blast
qed

section \<open>What the program prints\<close>

text \<open>A connection whose callback takes everything has an empty input buffer between reads.\<close>

definition prints_all :: "bytes list \<Rightarrow> tcp_connection \<Rightarrow> bool" where
  "prints_all h c \<longleftrightarrow> tn_recv_inv h c \<and> contents (buf_in c) = [] \<and> (receiving c \<longrightarrow> retrieve_callback c)"

lemma prints_all_read:
  assumes "prints_all h c" "takes_all (TN_read_done p n ec data is_open k) c" "ec_ok ec"
    and "2 * length (buffer (buf_in c)) < 2 ^ 32"
    and "tn_step (TN_read_done p n ec data is_open k) c = Moves d"
  shows "prints_all (h @ [data]) d"
proof -
  have m: "TN_read p n \<in> set (pending c)" "length data \<le> n"
      and r: "handleReceive ec (length data) is_open k (tn_store p data (finish_op (TN_read p n) c)) = Inr d"
    using assms(5) by (auto split: if_splits)
  have c: "tn_recv_inv h c" "contents (buf_in c) = []" "receiving c \<longrightarrow> retrieve_callback c"
    using assms(1) by (simp_all add: prints_all_def)
  let ?u = "tn_store p data (finish_op (TN_read p n) c)"
  obtain b where b: "adjustInternal (retrieveWriteIndex (of_nat (length data)) (buf_in (tn_store p data c))) = Inr b"
      "buf_ok b" "contents b = contents (buf_in c) @ data" "unat (write_index b) < length (buffer b)"
      "receiveInService (run_retrieve_callback k (?u\<lparr>buf_in := b\<rparr>)) = Inr d" "receiving c"
    by (rule tn_recv_buffer [OF c(1) m assms(4,3) r])
  have k: "k = length (contents b)" "contents b = data"
    using assms(2,3) b(1,3) c(2) length_contents [OF b(2)] by simp_all
  have "tn_recv_inv (h @ [data]) d"
    using tn_recv_read [OF c(1) m assms(4) _ assms(3) r] k c(2) by simp
  moreover have "buf_in d = retrieveReadIndex (of_nat k) b \<and> receiving d \<and> retrieve_callback d"
    using b(5,6) c(3) by (auto simp: receiveInService_def run_retrieve_callback_def tn_store_def aio_defs rbind_Inr_iff)
  ultimately show ?thesis
    using retrieveReadIndex_drops [OF b(2), of k] k by (simp add: prints_all_def)
qed

text \<open>Everything else leaves the incoming side of a connection alone.\<close>

lemma quiet_in_side:
  assumes "tn_step e c = Moves d" "tn_handler e" "tn_received e c = []"
  shows "tn_consumed d = tn_consumed c \<and> receiving d = receiving c \<and> retrieve_callback d = retrieve_callback c"
proof (cases e)
  case (TN_run_task i moves is_open)
  then have "tn_run_task moves is_open (posted c ! i) (take_task i c) = Inr d"
    using assms(1) by (auto split: if_splits)
  then show ?thesis
    by (cases "posted c ! i")
      (auto simp: tn_run_task_def closeInService_def receiveInService_def sendInService_def start_write_def
        cancel_and_close_def socket_cancel_def run_close_callback_def rbind_Inr_iff tn_consumed_def aio_defs
        Let_def split: if_splits)
next
  case (TN_read_done p n ec data is_open k)
  then have "\<not> ec_ok ec" "handleReceive ec (length data) is_open k (tn_store p data (finish_op (TN_read p n) c)) = Inr d"
    using assms(1,3) by (auto split: if_splits)
  then show ?thesis
    by (auto simp: handleReceive_def run_close_callback_def cancel_and_close_def socket_cancel_def rbind_Inr_iff
        tn_consumed_def tn_store_def aio_defs split: if_splits)
next
  case (TN_write_done p bs ec late is_open)
  then show ?thesis
    using assms(1)
    by (auto simp: handleSend_def start_write_def cancel_and_close_def socket_cancel_def run_close_callback_def
        rbind_Inr_iff tn_consumed_def aio_defs Let_def split: if_splits)
qed (use assms(2) in auto)

fun small_read :: "tn_event \<Rightarrow> tcp_connection \<Rightarrow> bool" where
  "small_read (TN_read_done p n ec data is_open k) c = (2 * length (buffer (buf_in c)) < 2 ^ 32)"
| "small_read _ c = True"

lemma prints_all_step:
  assumes "prints_all h c" "takes_all e c" "small_read e c" "tn_handler e" "tn_step e c = Moves d"
  shows "prints_all (h @ tn_received e c) d"
proof (cases "tn_received e c = []")
  case True
  have "tn_recv_fits e c"
    using True by (cases e) (auto split: if_splits)
  then have "tn_recv_inv h d"
    using tn_recv_step [OF _ _ assms(5)] assms(1) True by (simp add: prints_all_def)
  moreover note q = quiet_in_side [OF assms(5,4) True]
  moreover have "tn_consumed c = concat h"
    using assms(1) unfolding prints_all_def tn_recv_inv_def by (metis append_Nil2)
  ultimately have "contents (buf_in d) = []"
    by (simp add: tn_recv_inv_def)
  then show ?thesis
    using \<open>tn_recv_inv h d\<close> q assms(1) True by (simp add: prints_all_def)
next
  case False
  then obtain p n ec data is_open k where e: "e = TN_read_done p n ec data is_open k" "ec_ok ec"
    by (cases e) (auto split: if_splits)
  then show ?thesis
    using prints_all_read [OF assms(1) _ e(2) _ assms(5) [unfolded e(1)]] assms(2,3) by simp
qed

lemma prints_all_init: "prints_all [] (tn_init name)"
  using tn_recv_inv_init new_buffer_ok by (simp add: prints_all_def tn_init_def)

lemma prints_all_calls:
  assumes "prints_all h c"
  shows "prints_all h (sendMessage m c)" "prints_all h (forceClose c)"
    "r \<Longrightarrow> prints_all h (startReceive (setCloseCallback a (setReceiveCallback r (setConnectionCallback b (setConnState st c)))))"
  using assms
  by (auto simp: prints_all_def tn_recv_inv_def tn_defs tn_consumed_def tn_reads_def tn_read_tasks_def)

text \<open>Connection \<open>i\<close> of the client; before it exists it has received nothing.\<close>

definition prints_at :: "nat \<Rightarrow> bytes list \<Rightarrow> net_client \<Rightarrow> bool" where
  "prints_at i h s \<longleftrightarrow> conns s \<noteq> [] \<and> (if i < length (conns s) then prints_all h (conns s ! i) else h = [])"

fun nc_received :: "nat \<Rightarrow> nc_event \<Rightarrow> net_client \<Rightarrow> bytes list" where
  "nc_received i (NC_conn j e) s = (if j = i \<and> i < length (conns s) then tn_received e (conns s ! i) else [])"
| "nc_received i _ s = []"

fun nc_small_read :: "nat \<Rightarrow> nc_event \<Rightarrow> net_client \<Rightarrow> bool" where
  "nc_small_read i (NC_conn j e) s = (j = i \<and> i < length (conns s) \<longrightarrow> small_read e (conns s ! i))"
| "nc_small_read i _ s = True"

lemma prints_at_same: "prints_at i h s \<Longrightarrow> conns t = conns s \<Longrightarrow> prints_at i h t"
  by (simp add: prints_at_def)

lemma prints_at_on_conn:
  assumes "prints_at i h s" "\<And>h c. prints_all h c \<Longrightarrow> prints_all h (f c)"
  shows "prints_at i h (on_conn f s)"
proof -
  have "conns s \<noteq> []" using assms(1) by (simp add: prints_at_def)
  moreover have "conns (on_conn f s) \<noteq> []" by (simp add: on_conn_def)
  ultimately show ?thesis
    using assms conns_on_conn(1) [of s f] conns_on_conn(2) [of s i f] by (simp add: prints_at_def)
qed

lemma prints_at_new: "prints_at i h s \<Longrightarrow> prints_at i h (new_connection s)"
  using prints_all_init by (auto simp: prints_at_def new_connection_def Let_def nth_append)

lemma prints_at_handleConnect:
  assumes "prints_at i h s" "nc_retrieve_callback s"
  shows "prints_at i h (handleConnect ec rest s)"
proof (cases "ec_ok ec")
  case True
  have "prints_at i h (on_conn (\<lambda>c. startReceive (setCloseCallback (nc_connection_callback s)
      (setReceiveCallback (nc_retrieve_callback s) (setConnectionCallback (nc_connection_callback s)
      (setConnState S_CONNECTED c))))) s)"
    by (rule prints_at_on_conn [OF assms(1)]) (rule prints_all_calls(3) [OF _ assms(2)])
  then show ?thesis
    using True by (auto simp: handleConnect_def run_connection_callback_def aio_defs intro: prints_at_same)
next
  case False
  have "prints_at i h (new_connection (run_connection_callback s))"
    using assms(1) by (intro prints_at_new) (auto simp: run_connection_callback_def aio_defs intro: prints_at_same)
  then show ?thesis
    using False by (auto simp: handleConnect_def Let_def start_reconnect_timer_def aio_defs intro: prints_at_same)
qed

lemma prints_at_handler:
  assumes "prints_at i h s" "nc_retrieve_callback s" "nc_handler e" "nc_takes_all e s" "nc_small_read i e s"
    and "nc_step e s = Moves t"
  shows "prints_at i (h @ nc_received i e s) t \<and> nc_retrieve_callback t"
proof (cases e)
  case (NC_conn j e')
  then obtain c where c: "j < length (conns s)" "tn_step e' (conns s ! j) = Moves c"
      "t = s\<lparr>conns := (conns s)[j := c]\<rparr>"
    using assms(6) by (auto split: if_splits outcome.splits)
  have "prints_all (h @ tn_received e' (conns s ! i)) c" if "j = i"
    using prints_all_step [OF _ _ _ _ c(2), of h] assms(1,3-5) NC_conn c(1) that by (simp add: prints_at_def)
  then show ?thesis
    using assms(1,2) NC_conn c by (cases "j = i") (auto simp: prints_at_def)
next
  case (NC_run_task k)
  then obtain m where "t = on_conn (sendMessage m) (take_task k s)"
    using assms(6) by (auto simp: handleSending_def split: if_splits nc_task.splits)
  then show ?thesis
    using NC_run_task assms(2) prints_at_on_conn [OF prints_at_same [OF assms(1)], of "take_task k s" "sendMessage m"]
      prints_all_calls(1) by (simp add: take_task_def on_conn_def)
next
  case (NC_connected endpoints ec rest)
  then have t: "t = handleConnect ec rest (finish_op (NC_connect endpoints) s)"
    using assms(6) by (auto split: if_splits)
  have "nc_retrieve_callback t = nc_retrieve_callback s"
    using t by (simp add: handleConnect_def run_connection_callback_def on_conn_def new_connection_def
        start_reconnect_timer_def aio_defs Let_def)
  then show ?thesis
    using NC_connected t assms(2) prints_at_handleConnect [OF prints_at_same [OF assms(1)], of "finish_op (NC_connect endpoints) s"]
    by (simp add: finish_op_def)
next
  case (NC_timer k ec)
  then have "conns t = conns s \<and> nc_retrieve_callback t = nc_retrieve_callback s"
    using assms(6) by (auto simp: nc_on_timer_def connectInter_def aio_defs Let_def split: outcome.splits if_splits)
  then show ?thesis
    using NC_timer assms(1,2) by (auto intro: prints_at_same)
qed (use assms in \<open>auto simp: handleResolver_def aio_defs split: if_splits intro: prints_at_same\<close>)

text \<open>
  The program: no handler runs before the callbacks are set. Of the reads of connection \<open>i\<close>,
  \<open>xs\<close> are those whose callback printed them and \<open>ys\<close> those whose callback threw: at most the
  last one.
\<close>

definition unprinted_at :: "nat \<Rightarrow> bytes list \<Rightarrow> bytes list \<Rightarrow> net_client \<Rightarrow> bool" where
  "unprinted_at i xs ys s \<longleftrightarrow> i < length (conns s) \<and> tn_consumed (conns s ! i) = concat xs
     \<and> contents (buf_in (conns s ! i)) = concat ys"

definition reads_of :: "bytes list \<Rightarrow> bytes list \<Rightarrow> (bytes \<times> bool) list" where
  "reads_of xs ys = map (\<lambda>d. (d, True)) xs @ map (\<lambda>d. (d, False)) ys"

lemma reads_of_inj [simp]: "reads_of xs [] = reads_of ys [] \<longleftrightarrow> xs = ys"
proof
  assume "reads_of xs [] = reads_of ys []"
  then have "map fst (reads_of xs []) = map fst (reads_of ys [])" by simp
  then show "xs = ys" by (simp add: reads_of_def comp_def)
qed simp

definition tm_prints :: "nat \<Rightarrow> (bytes \<times> bool) list \<Rightarrow> test_net \<Rightarrow> bool" where
  "tm_prints i h p \<longleftrightarrow> (setup_pc p \<noteq> D_over \<longrightarrow> service p = V_none)
     \<and> (setup_pc p = D_construct \<longrightarrow> client_ptr p = None)
     \<and> (case client_ptr p of
          None \<Rightarrow> h = []
        | Some s \<Rightarrow> (setup_pc p \<noteq> D_callbacks \<longrightarrow> nc_retrieve_callback s)
            \<and> ((\<exists>xs. h = reads_of xs [] \<and> prints_at i xs s)
              \<or> service p = V_returned \<and> (\<exists>xs y. h = reads_of xs [y] \<and> unprinted_at i xs [y] s)))"

text \<open>The bytes of a read of connection \<open>i\<close>, and whether its callback returned.\<close>

fun tm_reads :: "nat \<Rightarrow> tm_event \<Rightarrow> test_net \<Rightarrow> (bytes \<times> bool) list" where
  "tm_reads i (TM_service e) p = (case client_ptr p of
     None \<Rightarrow> []
   | Some s \<Rightarrow> (case nc_step e s of Moves t \<Rightarrow> map (\<lambda>d. (d, True)) (nc_received i e s) | _ \<Rightarrow> []))"
| "tm_reads i (TM_callback_throws j e) p = (case client_ptr p of
     None \<Rightarrow> []
   | Some s \<Rightarrow> map (\<lambda>d. (d, False)) (nc_received i (NC_conn j e) s))"
| "tm_reads i _ p = []"

fun tm_small_read :: "nat \<Rightarrow> tm_event \<Rightarrow> test_net \<Rightarrow> bool" where
  "tm_small_read i (TM_service e) p = (case client_ptr p of None \<Rightarrow> True | Some s \<Rightarrow> nc_small_read i e s)"
| "tm_small_read i (TM_callback_throws j e) p =
     (case client_ptr p of None \<Rightarrow> True | Some s \<Rightarrow> nc_small_read i (NC_conn j e) s)"
| "tm_small_read i _ p = True"

lemma prints_at_calls:
  assumes "prints_at i h s"
  shows "prints_at i h (nc_sendMessage m s)" "prints_at i h (closeClient s)"
    "prints_at i h (nc_setReceiveCallback r (nc_setConnectionCallback c s))" "prints_at i h (nc_connect b s)"
  using prints_at_on_conn [OF prints_at_same [OF assms], of "s\<lparr>nc_reconnect := False\<rparr>" forceClose]
    prints_all_calls(2) prints_at_same [OF assms]
  by (simp_all add: closeClient_def nc_sendMessage_def nc_setReceiveCallback_def nc_setConnectionCallback_def
      nc_connect_def connectInter_def aio_defs)

lemma retrieve_callback_calls [simp]:
  "nc_retrieve_callback (nc_sendMessage m s) = nc_retrieve_callback s"
  "nc_retrieve_callback (closeClient s) = nc_retrieve_callback s"
  "nc_retrieve_callback (nc_setReceiveCallback r (nc_setConnectionCallback c s)) = r"
  "nc_retrieve_callback (nc_connect b s) = nc_retrieve_callback s"
  by (simp_all add: nc_defs)

lemma prints_at_init: "prints_at i [] (nc_init sequence ip port)"
  using prints_all_init by (simp add: prints_at_def nc_init_def new_connection_def Let_def)

lemma unprinted_at_calls:
  assumes "unprinted_at i xs ys s"
  shows "unprinted_at i xs ys (nc_sendMessage m s)" "unprinted_at i xs ys (closeClient s)"
proof -
  have "conns s \<noteq> []"
    using assms by (auto simp: unprinted_at_def)
  then show "unprinted_at i xs ys (closeClient s)"
    using assms conns_on_conn(1) [of "s\<lparr>nc_reconnect := False\<rparr>" forceClose]
      conns_on_conn(2) [of "s\<lparr>nc_reconnect := False\<rparr>" i forceClose]
    by (auto simp: unprinted_at_def closeClient_def forceClose_def tn_consumed_def aio_defs)
qed (use assms in \<open>simp add: unprinted_at_def nc_sendMessage_def aio_defs\<close>)

lemma tm_prints_same:
  assumes "tm_prints i h p" "client_ptr q = client_ptr p" "setup_pc q = setup_pc p"
    and "service q = service p \<or> service p = V_running"
  shows "tm_prints i h q"
  using assms by (cases "client_ptr p") (auto simp: tm_prints_def)

lemma tm_prints_at_client:
  assumes "at_client f p = Moves q" "tm_prints i h p"
    and "\<And>xs s. prints_at i xs s \<Longrightarrow> prints_at i xs (f s)"
    and "\<And>xs ys s. unprinted_at i xs ys s \<Longrightarrow> unprinted_at i xs ys (f s)"
    and "\<And>s. nc_retrieve_callback s \<Longrightarrow> nc_retrieve_callback (f s)"
  shows "tm_prints i h q"
proof -
  obtain s where "client_ptr p = Some s" "q = p\<lparr>client_ptr := Some (f s)\<rparr>"
    using assms(1) by (auto simp: at_client_def split: option.splits)
  then show ?thesis
    using assms(2) assms(3-5) by (fastforce simp: tm_prints_def)
qed

lemma tm_prints_main:
  assumes "tm_prints i h p" "tm_main p = Moves q"
  shows "tm_prints i h q"
proof (cases "main_pc p")
  case (M_read line st)
  then show ?thesis
    using assms by (auto simp: tm_main_def intro: tm_prints_same)
next
  case (M_send msg st)
  then have c: "at_client (nc_sendMessage msg) (p\<lparr>main_pc := M_read (replicate line_size NUL) st\<rparr>) = Moves q"
    using assms(2) by (simp add: tm_main_def tm_send_def)
  show ?thesis
    by (rule tm_prints_at_client [OF c tm_prints_same [OF assms(1)]])
      (simp_all add: prints_at_calls unprinted_at_calls)
next
  case M_stop
  then have c: "at_client closeClient (p\<lparr>main_pc := M_join\<rparr>) = Moves q"
    using assms(2) by (simp add: tm_main_def tm_stop_def)
  show ?thesis
    by (rule tm_prints_at_client [OF c tm_prints_same [OF assms(1)]])
      (simp_all add: prints_at_calls unprinted_at_calls)
qed (use assms in \<open>auto simp: tm_main_def tm_stop_def split: if_splits intro: tm_prints_same\<close>)

lemma tm_prints_setup:
  assumes "tm_prints i h p" "tm_setup sequence p = Moves q"
  shows "tm_prints i h q"
proof (cases "setup_pc p = D_construct")
  case True
  then have "h = []" "q = p\<lparr>client_ptr := Some (nc_init sequence ''172.16.100.247'' 777), setup_pc := D_callbacks\<rparr>"
    using assms by (auto simp: tm_setup_def tm_prints_def)
  moreover have "[] = reads_of [] []"
    by (simp add: reads_of_def)
  ultimately show ?thesis
    using assms(1) True prints_at_init [of i sequence] by (auto simp: tm_prints_def)
next
  case False
  show ?thesis
  proof (cases "client_ptr p")
    case None
    then show ?thesis
      using assms False by (cases "setup_pc p") (auto simp: tm_setup_def tm_prints_def at_client_def)
  next
    case (Some s)
    then have "setup_pc p \<noteq> D_over \<Longrightarrow> \<exists>xs. h = reads_of xs [] \<and> prints_at i xs s"
      using assms(1) by (auto simp: tm_prints_def)
    then obtain xs where "setup_pc p \<noteq> D_over \<longrightarrow> h = reads_of xs [] \<and> prints_at i xs s"
      by blast
    then show ?thesis
      using assms False Some prints_at_calls(3) [of i xs s True True] prints_at_calls(4) [of i xs s True]
      by (cases "setup_pc p") (auto simp: tm_setup_def tm_prints_def at_client_def)
  qed
qed

text \<open>The handlers run while the thread does.\<close>

lemma tm_prints_running:
  assumes "tm_prints i h p" "service p = V_running" "client_ptr p = Some s"
  obtains xs where "h = reads_of xs []" "prints_at i xs s" "nc_retrieve_callback s" "setup_pc p = D_over"
  using assms by (auto simp: tm_prints_def)

lemma tm_prints_throw:
  assumes "tm_prints i h p" "tm_small_read i (TM_callback_throws j e) p" "tm_callback_throws j e p = Moves q"
  shows "tm_prints i (h @ tm_reads i (TM_callback_throws j e) p) q"
proof -
  obtain s d where s: "client_ptr p = Some s" "service p = V_running" "j < length (conns s)"
      "receive_throws e (conns s ! j) = Moves d"
      "q = p\<lparr>client_ptr := Some (s\<lparr>conns := (conns s)[j := d]\<rparr>), service := V_returned\<rparr>"
    using assms(3) by (rule tm_callback_throws_Moves)
  obtain xs where h: "h = reads_of xs []" "prints_at i xs s" "nc_retrieve_callback s" "setup_pc p = D_over"
    using tm_prints_running [OF assms(1) s(2,1)] .
  show ?thesis
  proof (cases "j = i")
    case True
    obtain a n ec data is_open k b where e: "e = TN_read_done a n ec data is_open k"
        "TN_read a n \<in> set (pending (conns s ! i))" "length data \<le> n" "ec_ok ec"
        "adjustInternal (retrieveWriteIndex (of_nat (length data))
          (buf_in (tn_store a data (finish_op (TN_read a n) (conns s ! i))))) = Inr b"
        "d = (tn_store a data (finish_op (TN_read a n) (conns s ! i)))\<lparr>buf_in := b\<rparr>"
      using receive_throws_Moves [OF s(4)] True by metis
    have c: "tn_recv_inv xs (conns s ! i)" "contents (buf_in (conns s ! i)) = []"
      using h(2) s(3) True by (simp_all add: prints_at_def prints_all_def)
    have "2 * length (buffer (buf_in (conns s ! i))) < 2 ^ 32"
      using assms(2) s(1,3) True e(1) by simp
    from tn_recv_adjusted(2) [OF c(1) e(2,3) this e(5)] have "contents b = data"
      using c(2) by (simp add: finish_op_def)
    moreover have "tn_consumed (conns s ! i) = concat xs"
      using c unfolding tn_recv_inv_def by (metis append_Nil2)
    ultimately have "unprinted_at i xs [data] (s\<lparr>conns := (conns s)[j := d]\<rparr>)"
      using s(3) True e(6) by (simp add: unprinted_at_def tn_store_def aio_defs tn_consumed_def)
    moreover have "h @ tm_reads i (TM_callback_throws j e) p = reads_of xs [data]"
      using h(1) s(1,3) True e(1,4) by (simp add: reads_of_def)
    ultimately show ?thesis
      using s h(3,4) by (auto simp: tm_prints_def)
  next
    case False
    then have "prints_at i xs (s\<lparr>conns := (conns s)[j := d]\<rparr>)"
      using h(2) by (auto simp: prints_at_def)
    then show ?thesis
      using s h False by (auto simp: tm_prints_def)
  qed
qed

lemma tm_prints_step:
  assumes "tm_prints i h p" "tm_small_read i e p" "tm_step e p = Moves q"
  shows "tm_prints i (h @ tm_reads i e p) q"
proof (cases e)
  case TM_main
  then show ?thesis using assms tm_prints_main by simp
next
  case (TM_setup sequence)
  then show ?thesis using assms tm_prints_setup by simp
next
  case (TM_service ne)
  then have "tm_service ne p = Moves q"
    using assms(3) by simp
  then show ?thesis
  proof (cases rule: tm_service_Moves)
    case (handled s t)
    obtain xs where h: "h = reads_of xs []" "prints_at i xs s" "nc_retrieve_callback s" "setup_pc p = D_over"
      using tm_prints_running [OF assms(1) handled(4,1)] .
    have "prints_at i (xs @ nc_received i ne s) t \<and> nc_retrieve_callback t"
      using prints_at_handler [OF h(2,3) handled(5,6) _ handled(2)] assms(2) TM_service handled(1) by simp
    moreover have "h @ tm_reads i e p = reads_of (xs @ nc_received i ne s) []"
      using TM_service handled(1,2) h(1) by (simp add: reads_of_def)
    ultimately show ?thesis
      using handled(3,4) h(4) by (auto simp: tm_prints_def)
  next
    case thrown
    then show ?thesis
      using tm_prints_same [OF assms(1), of q] TM_service by simp
  qed
next
  case (TM_callback_throws j ce)
  then show ?thesis using tm_prints_throw assms by simp
qed (use assms in \<open>auto simp: tm_service_ends_def split: option.splits if_splits intro: tm_prints_same\<close>)

interpretation tmp: obliged_history tm_step "tm_small_read i" "tm_reads i" "tm_prints i"
  by unfold_locales (rule tm_prints_step)

text \<open>
  C16: what arrives is printed. For every connection of the client, let \<open>xs\<close> be the reads
  whose receive callback returned and \<open>ys\<close> those whose callback threw, because the remote
  address could not be had any more. Then \<open>ys\<close> is at most one read, the last one; the callback
  has printed exactly the bytes of \<open>xs\<close>, in order, and the buffer holds exactly the bytes of
  \<open>ys\<close>: as long as no callback throws, nothing is printed twice and nothing is kept back.
  This needs an input buffer below \<open>2 ^ 31\<close> bytes.
\<close>

theorem net_test_prints:
  assumes "run tm_step es (tm_start mem inp) = Moves p"
    and "guarded (tm_small_read i) tm_step es (tm_start mem inp)"
    and "client_ptr p = Some s" "i < length (conns s)"
  shows "\<exists>xs ys. history tm_step (tm_reads i) es (tm_start mem inp)
        = map (\<lambda>d. (d, True)) xs @ map (\<lambda>d. (d, False)) ys
    \<and> tn_consumed (conns s ! i) = concat xs \<and> contents (buf_in (conns s ! i)) = concat ys
    \<and> length ys \<le> 1"
proof -
  let ?h = "history tm_step (tm_reads i) es (tm_start mem inp)"
  have "tm_prints i [] (tm_start mem inp)"
    by (simp add: tm_prints_def tm_start_def test_start_def)
  from tmp.obliged_run [OF this assms(1,2)] assms(3)
  consider xs where "?h = reads_of xs []" "prints_at i xs s"
    | xs y where "?h = reads_of xs [y]" "unprinted_at i xs [y] s"
    by (auto simp: tm_prints_def)
  then show ?thesis
  proof cases
    case (1 xs)
    then have "tn_consumed (conns s ! i) = concat xs" "contents (buf_in (conns s ! i)) = []"
      using assms(4) unfolding prints_at_def prints_all_def tn_recv_inv_def by (metis append_Nil2)+
    with 1(1) show ?thesis
      by (intro exI [of _ xs] exI [of _ "[]"]) (simp add: reads_of_def)
  next
    case (2 xs y)
    then show ?thesis
      by (intro exI [of _ xs] exI [of _ "[y]"]) (simp add: reads_of_def unprinted_at_def)
  qed
qed

text \<open>The example: a connected client reads two bytes.\<close>

lemma read_demo:
  assumes "buf_in c = new_buffer" "TN_read 0 4096 \<in> set (pending c)" "retrieve_callback c"
  shows "\<exists>d. tn_step (TN_read_done 0 4096 success_code ''hi'' True 2) c = Moves d
    \<and> takes_all (TN_read_done 0 4096 success_code ''hi'' True 2) c"
  using read_fresh [OF assms, of "''hi''" 2] assms(2) by auto

definition tm_read_events :: "tm_event list" where
  "tm_read_events = tm_connect_events @ [TM_service (NC_conn 0 (TN_run_task 0 False True)),
     TM_service (NC_conn 0 (TN_read_done 0 4096 success_code ''hi'' True 2))]"

theorem net_test_prints_witness:
  "\<exists>p s. run tm_step tm_read_events (tm_start [] []) = Moves p \<and> client_ptr p = Some s
    \<and> tn_consumed (conns s ! 0) = ''hi''"
proof -
  let ?p0 = "tm_start [] []" and ?e = "TN_read_done 0 4096 success_code ''hi'' True 2"
  have b: "writePtr new_buffer = Inr 0" "unat (writableCount new_buffer) = 4096"
    by (simp_all add: buf_defs new_buffer_ok) (simp add: new_buffer_def)
  have es: "tm_read_events = butlast tm_read_events @ [TM_service (NC_conn 0 ?e)]"
    by (simp add: tm_read_events_def butlast_append)
  obtain p s c where p: "run tm_step (butlast tm_read_events) ?p0 = Moves p" "client_ptr p = Some s"
      "service p = V_running" "conns s = [c]" "buf_in c = new_buffer" "TN_read 0 4096 \<in> set (pending c)"
      "retrieve_callback c"
    by (simp add: tm_read_events_def tm_connect_events_def tm_defs nc_init_def nc_defs tn_init_def tn_defs b)
  obtain d where d: "tn_step ?e c = Moves d" "takes_all ?e c"
    using read_demo [OF p(5-7)] by blast
  let ?t = "s\<lparr>conns := [d]\<rparr>"
  have st: "tm_step (TM_service (NC_conn 0 ?e)) p = Moves (p\<lparr>client_ptr := Some ?t\<rparr>)"
    using p(2-4) d by (simp add: tm_service_def del: tn_step.simps takes_all.simps)
  have r: "run tm_step tm_read_events ?p0 = Moves (p\<lparr>client_ptr := Some ?t\<rparr>)"
    by (subst es) (simp only: run_append p(1) outcome.case run.simps st)
  have pre: "guarded (tm_small_read 0) tm_step (butlast tm_read_events) ?p0"
      "history tm_step (tm_reads 0) (butlast tm_read_events) ?p0 = []"
    by (simp_all add: tm_read_events_def tm_connect_events_def split: outcome.split option.split)
  have "tm_small_read 0 (TM_service (NC_conn 0 ?e)) p"
    using p(2,4,5) new_buffer_ok(4) by simp
  then have g: "guarded (tm_small_read 0) tm_step tm_read_events ?p0"
    using pre(1) by (subst es) (simp only: guarded_append p(1) outcome.case guarded.simps st simp_thms)
  have "tm_reads 0 (TM_service (NC_conn 0 ?e)) p = [(''hi'', True)]"
    using p(2,4) d by (simp del: tn_step.simps)
  then have "history tm_step (tm_reads 0) tm_read_events ?p0 = [(''hi'', True)]"
    using pre(2) by (subst es) (simp only: history_append p(1) outcome.case history.simps st append_Nil append_Nil2)
  with net_test_prints [OF r g, of ?t] obtain xs ys where
      "[(''hi'', True)] = map (\<lambda>d. (d, True)) xs @ map (\<lambda>d. (d, False)) ys" "tn_consumed d = concat xs"
    by auto
  moreover from this(1) have "xs = [''hi'']"
    by (cases xs) auto
  ultimately show ?thesis
    using r by simp
qed

end
