(* ===== verification/Async_Client.thy ===== *)
theory Async_Client
  imports Write_Queue
begin

text \<open>
  \<open>AsyncClient\<close> (\<^verbatim>\<open>asio-1.28_async_client/\<close>): a TCP client that reconnects every three
  seconds and writes through a queue. The record holds the class's fields (a callback is
  whether its \<open>std::function\<close> is set; the timer is the number of timers made so far, the
  last one being the one \<open>timer_\<close> points to); every method and every completion lambda
  is one function. \<open>socket_.is_open()\<close> and the resolver's answer come with the event.
\<close>

section \<open>The class\<close>

datatype resolution = Resolved "string list" | Unresolved string

datatype ac_op =
    AC_connect "string list"
  | AC_read
  | AC_write bytes
  | AC_timer nat

datatype ac_task = AC_send_task bytes | AC_close_task

datatype ac_obs =
    AC_connected
  | AC_disconnected string
  | AC_received bytes
  | AC_dropped bytes
  | AC_wrote bytes
  | AC_socket_closed
  | AC_socket_reset
  | AC_wait_seconds nat

record async_client = "(ac_op, ac_task, ac_obs) aio" +
  ac_host :: string
  ac_port :: string
  write_msgs :: "bytes list"
  on_receive :: bool
  on_connected :: bool
  on_disconnected :: bool
  timers_made :: nat
  stop_flag :: bool

definition max_length :: nat where
  "max_length = 1024"

definition ac_init :: "string \<Rightarrow> string \<Rightarrow> async_client" where
  "ac_init host port = \<lparr>pending = [], posted = [], trace = [], ac_host = host, ac_port = port,
     write_msgs = [], on_receive = False, on_connected = False, on_disconnected = False,
     timers_made = 0, stop_flag = False\<rparr>"

definition ac_set_on_receive :: "bool \<Rightarrow> async_client \<Rightarrow> async_client" where
  "ac_set_on_receive cb s = s\<lparr>on_receive := cb\<rparr>"

definition ac_set_on_connected :: "bool \<Rightarrow> async_client \<Rightarrow> async_client" where
  "ac_set_on_connected cb s = s\<lparr>on_connected := cb\<rparr>"

definition ac_set_on_disconnected :: "bool \<Rightarrow> async_client \<Rightarrow> async_client" where
  "ac_set_on_disconnected cb s = s\<lparr>on_disconnected := cb\<rparr>"

definition invoke_connected :: "async_client \<Rightarrow> async_client" where
  "invoke_connected s = (if on_connected s then observe AC_connected s else s)"

definition invoke_disconnected :: "string \<Rightarrow> async_client \<Rightarrow> async_client" where
  "invoke_disconnected reason s =
     (if on_disconnected s then observe (AC_disconnected reason) s else s)"

definition invoke_received :: "bytes \<Rightarrow> async_client \<Rightarrow> async_client" where
  "invoke_received msg s = (if on_receive s then observe (AC_received msg) s else s)"

definition ac_socket_close :: "async_client \<Rightarrow> async_client" where
  "ac_socket_close s = observe AC_socket_closed s"

text \<open>
  \<open>schedule_reconnect\<close>: a new timer replaces the old one, whose destruction cancels its
  wait; the handler is \<open>ac_on_timer\<close>.
\<close>

definition schedule_reconnect :: "async_client \<Rightarrow> async_client" where
  "schedule_reconnect s =
     (if \<not> stop_flag s then s
      else observe (AC_wait_seconds 3)
        (initiate (AC_timer (timers_made s)) (s\<lparr>timers_made := Suc (timers_made s)\<rparr>)))"

definition ac_do_read :: "async_client \<Rightarrow> async_client" where
  "ac_do_read s = initiate AC_read s"

definition ac_on_read :: "error_code \<Rightarrow> bytes \<Rightarrow> async_client \<Rightarrow> async_client" where
  "ac_on_read ec data s =
     (if ec_ok ec then ac_do_read (invoke_received data s)
      else schedule_reconnect (ac_socket_close (invoke_disconnected (ec_message ec) s)))"

definition ac_do_write :: "async_client \<Rightarrow> async_client result" where
  "ac_do_write s =
     (case write_msgs s of
        [] \<Rightarrow> Inl (Undefined Empty_container)
      | m # _ \<Rightarrow> Inr (observe (AC_wrote m) (initiate (AC_write m) s)))"

definition ac_on_write :: "error_code \<Rightarrow> async_client \<Rightarrow> async_client result" where
  "ac_on_write ec s =
     (if ec_ok ec then
        (case write_msgs s of
           [] \<Rightarrow> Inl (Undefined Empty_container)
         | _ # ms \<Rightarrow>
             (let s = s\<lparr>write_msgs := ms\<rparr> in
              if ms \<noteq> [] then ac_do_write s else Inr s))
      else Inr (schedule_reconnect (ac_socket_close (invoke_disconnected (ec_message ec) s))))"

definition ac_connect :: "resolution \<Rightarrow> async_client \<Rightarrow> async_client result" where
  "ac_connect r s =
     (case r of
        Unresolved msg \<Rightarrow> Inl (Throws msg)
      | Resolved endpoints \<Rightarrow> Inr (initiate (AC_connect endpoints) s))"

definition ac_on_connect :: "error_code \<Rightarrow> async_client \<Rightarrow> async_client" where
  "ac_on_connect ec s =
     (if ec_ok ec then ac_do_read (invoke_connected s)
      else schedule_reconnect (invoke_disconnected (ec_message ec) s))"

definition ac_on_timer :: "error_code \<Rightarrow> resolution \<Rightarrow> async_client \<Rightarrow> async_client result" where
  "ac_on_timer ec r s =
     (if ec_ok ec then ac_connect r (observe AC_socket_reset (ac_socket_close s)) else Inr s)"

text \<open>
  What the resolver throws, \<open>open\<close> passes on. A run ends with an exception, so the flag that
  has been set by then is not kept.
\<close>

definition ac_open :: "resolution \<Rightarrow> async_client \<Rightarrow> async_client result" where
  "ac_open r s = ac_connect r (s\<lparr>stop_flag := True\<rparr>)"

definition ac_send :: "bytes \<Rightarrow> async_client \<Rightarrow> async_client" where
  "ac_send msg s = post_task (AC_send_task msg) s"

definition ac_send_task :: "bool \<Rightarrow> bytes \<Rightarrow> async_client \<Rightarrow> async_client result" where
  "ac_send_task is_open msg s =
     (if \<not> is_open then Inr (observe (AC_dropped msg) s)
      else
        let writing = write_msgs s \<noteq> [];
            s = s\<lparr>write_msgs := write_msgs s @ [msg]\<rparr>
        in if \<not> writing then ac_do_write s else Inr s)"

definition ac_close :: "async_client \<Rightarrow> async_client" where
  "ac_close s = post_task AC_close_task (s\<lparr>stop_flag := False\<rparr>)"

section \<open>Steps\<close>

text \<open>
  The user's calls and the handlers that the \<open>io_context\<close> runs. A read delivers at most
  the bytes of the buffer it was given. A wait fails only when its timer was cancelled,
  which the code does only by replacing the timer.
\<close>

datatype ac_event =
    AC_call_open resolution
  | AC_call_send bytes
  | AC_call_close
  | AC_call_set bool bool bool
  | AC_run_task nat bool
  | AC_connect_done "string list" error_code
  | AC_read_done error_code bytes
  | AC_write_done bytes error_code
  | AC_timer_done nat error_code resolution

definition ac_run_task :: "bool \<Rightarrow> ac_task \<Rightarrow> async_client \<Rightarrow> async_client result" where
  "ac_run_task is_open k s =
     (case k of
        AC_send_task msg \<Rightarrow> ac_send_task is_open msg s
      | AC_close_task \<Rightarrow> Inr (ac_socket_close s))"

fun ac_step :: "ac_event \<Rightarrow> async_client \<Rightarrow> async_client outcome" where
  "ac_step (AC_call_open r) s = outcome_of (ac_open r s)"
| "ac_step (AC_call_send msg) s = Moves (ac_send msg s)"
| "ac_step AC_call_close s = Moves (ac_close s)"
| "ac_step (AC_call_set r c d) s =
     Moves (ac_set_on_receive r (ac_set_on_connected c (ac_set_on_disconnected d s)))"
| "ac_step (AC_run_task i is_open) s =
     (if i < length (posted s) then outcome_of (ac_run_task is_open (posted s ! i) (take_task i s))
      else Disabled)"
| "ac_step (AC_connect_done endpoints ec) s =
     (if AC_connect endpoints \<in> set (pending s)
      then Moves (ac_on_connect ec (finish_op (AC_connect endpoints) s)) else Disabled)"
| "ac_step (AC_read_done ec data) s =
     (if AC_read \<in> set (pending s) \<and> length data \<le> max_length
      then Moves (ac_on_read ec data (finish_op AC_read s)) else Disabled)"
| "ac_step (AC_write_done msg ec) s =
     (if AC_write msg \<in> set (pending s)
      then outcome_of (ac_on_write ec (finish_op (AC_write msg) s)) else Disabled)"
| "ac_step (AC_timer_done k ec r) s =
     (if AC_timer k \<in> set (pending s) \<and> (ec_ok ec \<or> Suc k < timers_made s)
      then outcome_of (ac_on_timer ec r (finish_op (AC_timer k) s)) else Disabled)"

section \<open>The write queue\<close>

fun ac_write_data :: "ac_op \<Rightarrow> bytes option" where
  "ac_write_data (AC_write m) = Some m"
| "ac_write_data x = None"

fun ac_wrote_data :: "ac_obs \<Rightarrow> bytes option" where
  "ac_wrote_data (AC_wrote m) = Some m"
| "ac_wrote_data x = None"

text \<open>The writes in flight, and all writes started so far.\<close>

definition ac_inflight :: "async_client \<Rightarrow> bytes list" where
  "ac_inflight s = picks ac_write_data (pending s)"

definition ac_written :: "async_client \<Rightarrow> bytes list" where
  "ac_written s = picks ac_wrote_data (trace s)"

fun ac_label :: "ac_event \<Rightarrow> async_client \<Rightarrow> bytes wq_label" where
  "ac_label (AC_run_task i is_open) s =
     (if is_open \<and> i < length (posted s)
      then (case posted s ! i of AC_send_task m \<Rightarrow> Accepts m | AC_close_task \<Rightarrow> Unrelated)
      else Unrelated)"
| "ac_label (AC_write_done m ec) s = (if ec_ok ec then Completes else Breaks)"
| "ac_label _ s = Unrelated"

lemma ac_write_data_inj: "ac_write_data y = Some m \<Longrightarrow> y = AC_write m"
  by (cases y) simp_all

lemma ac_inflight_remove:
  "picks ac_write_data (remove1 (AC_write m) ops) = remove1 m (picks ac_write_data ops)"
  "picks ac_write_data (remove1 AC_read ops) = picks ac_write_data ops"
  "picks ac_write_data (remove1 (AC_connect eps) ops) = picks ac_write_data ops"
  "picks ac_write_data (remove1 (AC_timer k) ops) = picks ac_write_data ops"
  by (simp_all add: picks_remove1_same picks_remove1_other ac_write_data_inj)

named_theorems ac_defs

lemmas [ac_defs] = aio_defs invoke_connected_def invoke_disconnected_def invoke_received_def
  ac_socket_close_def schedule_reconnect_def ac_do_read_def ac_on_read_def ac_do_write_def
  ac_on_write_def ac_connect_def ac_on_connect_def ac_on_timer_def ac_open_def ac_send_def
  ac_send_task_def ac_close_def ac_run_task_def ac_set_on_receive_def ac_set_on_connected_def
  ac_set_on_disconnected_def Let_def

lemmas ac_splits = if_splits list.splits resolution.splits ac_task.splits

lemma ac_accept:
  assumes "ac_step e s = Moves t" "ac_label e s = Accepts m"
  shows "write_msgs t = write_msgs s @ [m]
    \<and> ac_inflight t = ac_inflight s @ (if write_msgs s = [] then [m] else [])
    \<and> ac_written t = ac_written s @ (if write_msgs s = [] then [m] else [])"
  using assms
  by (cases e) (auto simp: ac_defs ac_inflight_def ac_written_def split: ac_splits)

lemma ac_complete:
  assumes "ac_step e s = Moves t" "ac_label e s = Completes"
  shows "\<exists>m0 m ms. write_msgs s = m # ms \<and> write_msgs t = ms \<and> m0 \<in> set (ac_inflight s)
    \<and> ac_inflight t = remove1 m0 (ac_inflight s) @ take 1 ms
    \<and> ac_written t = ac_written s @ take 1 ms"
proof -
  obtain m ec where e: "e = AC_write_done m ec" "ec_ok ec"
    using assms(2) by (cases e) (auto split: ac_splits)
  have mem: "m \<in> set (ac_inflight s)"
    using assms(1) e picks_mem [of ac_write_data "AC_write m" m "pending s"]
    by (auto simp: ac_inflight_def split: if_splits)
  show ?thesis
    using assms(1) e mem
    by (auto simp: ac_defs ac_inflight_def ac_written_def ac_inflight_remove split: ac_splits)
qed

lemma ac_unrelated:
  assumes "ac_step e s = Moves t" "ac_label e s = Unrelated"
  shows "write_msgs t = write_msgs s \<and> ac_inflight t = ac_inflight s \<and> ac_written t = ac_written s"
  using assms
  by (cases e) (auto simp: ac_defs ac_inflight_def ac_written_def ac_inflight_remove split: ac_splits)

interpretation acq: write_queue ac_step ac_label write_msgs ac_inflight ac_written
  by unfold_locales (erule (1) ac_accept ac_complete ac_unrelated)+

text \<open>
  C1: first in, first out. As long as no write has failed, the messages whose send task
  ran on an open socket are exactly the messages completely written followed by those
  still queued; \<open>async_write\<close> has been called for them in that order, once each, and only
  the write of the queue's first message is in flight.
\<close>

theorem async_client_fifo:
  assumes "run ac_step es (ac_init host port) = Moves s"
    and "unbroken ac_step ac_label es (ac_init host port)"
  shows "\<exists>sent. accepted ac_step ac_label es (ac_init host port) = sent @ write_msgs s
    \<and> ac_written s = sent @ take 1 (write_msgs s) \<and> ac_inflight s = take 1 (write_msgs s)"
  by (rule acq.fifo_delivery [OF assms])
    (simp_all add: ac_init_def ac_inflight_def ac_written_def)

definition ac_demo_events :: "ac_event list" where
  "ac_demo_events = [AC_call_open (Resolved [''10.0.0.1:777'']),
     AC_connect_done [''10.0.0.1:777''] success_code, AC_call_send ''one'', AC_call_send ''two'',
     AC_run_task 0 True, AC_run_task 0 True, AC_write_done ''one'' success_code]"

theorem async_client_fifo_witness:
  "\<exists>s sent. run ac_step ac_demo_events (ac_init ''10.0.0.1'' ''777'') = Moves s
    \<and> accepted ac_step ac_label ac_demo_events (ac_init ''10.0.0.1'' ''777'') = [''one'', ''two'']
    \<and> [''one'', ''two''] = sent @ write_msgs s \<and> ac_written s = sent @ take 1 (write_msgs s)
    \<and> write_msgs s = [''two'']"
proof -
  let ?i = "ac_init ''10.0.0.1'' ''777''"
  have u: "unbroken ac_step ac_label ac_demo_events ?i"
    by (simp add: ac_demo_events_def ac_init_def ac_defs)
  have a: "accepted ac_step ac_label ac_demo_events ?i = [''one'', ''two'']"
    by (simp add: ac_demo_events_def ac_init_def ac_defs)
  obtain s where s: "run ac_step ac_demo_events ?i = Moves s" "write_msgs s = [''two'']"
    by (simp add: ac_demo_events_def ac_init_def ac_defs)
  from async_client_fifo [OF s(1) u] show ?thesis
    unfolding a using s by blast
qed

section \<open>Safety and the effect of a failed write\<close>

definition ac_queue_inv :: "async_client \<Rightarrow> bool" where
  "ac_queue_inv s \<longleftrightarrow> ac_inflight s = [] \<or> ac_inflight s = take 1 (write_msgs s)"

text \<open>The steps that break the queue: a failed write leaves its message in front.\<close>

lemma ac_break:
  assumes "ac_step e s = Moves t" "ac_label e s = Breaks" "ac_queue_inv s"
  shows "ac_inflight t = [] \<and> write_msgs t = write_msgs s \<and> write_msgs s \<noteq> []
    \<and> ac_written t = ac_written s"
proof -
  obtain m ec where e: "e = AC_write_done m ec" "\<not> ec_ok ec"
    using assms(2) by (cases e) (auto split: ac_splits)
  have "m \<in> set (ac_inflight s)"
    using assms(1) e picks_mem [of ac_write_data "AC_write m" m "pending s"]
    by (auto simp: ac_inflight_def split: if_splits)
  with assms(3) have "ac_inflight s = [m]" "write_msgs s \<noteq> []"
    by (cases "write_msgs s"; auto simp: ac_queue_inv_def)+
  then show ?thesis
    using assms(1) e
    by (auto simp: ac_defs ac_inflight_def ac_written_def ac_inflight_remove split: ac_splits)
qed

lemma ac_queue_inv_step:
  assumes "ac_queue_inv s" "ac_step e s = Moves t"
  shows "ac_queue_inv t"
proof (cases "ac_label e s")
  case (Accepts m)
  then show ?thesis
    using ac_accept [OF assms(2) Accepts] assms(1)
    by (cases "write_msgs s") (auto simp: ac_queue_inv_def)
next
  case Completes
  from ac_complete [OF assms(2) this] obtain m0 m ms where
    "write_msgs s = m # ms" "write_msgs t = ms" "m0 \<in> set (ac_inflight s)"
    "ac_inflight t = remove1 m0 (ac_inflight s) @ take 1 ms" by blast
  with assms(1) show ?thesis
    by (auto simp: ac_queue_inv_def)
next
  case Unrelated
  then show ?thesis
    using ac_unrelated [OF assms(2) Unrelated] assms(1) by (simp add: ac_queue_inv_def)
next
  case Breaks
  then show ?thesis
    using ac_break [OF assms(2) Breaks assms(1)] by (simp add: ac_queue_inv_def)
qed

lemma ac_no_undefined:
  assumes "ac_queue_inv s" "ac_step e s = Fails f"
  shows "\<exists>msg. f = Throws msg"
proof (cases e)
  case (AC_write_done m ec)
  have "m \<in> set (ac_inflight s)"
    using assms(2) AC_write_done picks_mem [of ac_write_data "AC_write m" m "pending s"]
    by (auto simp: ac_inflight_def split: if_splits)
  then have "write_msgs s \<noteq> []"
    using assms(1) by (auto simp: ac_queue_inv_def)
  then show ?thesis
    using assms(2) AC_write_done by (auto simp: ac_defs split: ac_splits)
qed (use assms(2) in \<open>auto simp: ac_defs split: ac_splits\<close>)

interpretation acs: safe_invariant ac_step ac_queue_inv "\<lambda>f. \<exists>u. f = Undefined u"
proof unfold_locales
  show "ac_queue_inv t" if "ac_queue_inv s" "ac_step e s = Moves t" for s e t
    using ac_queue_inv_step [OF that] .
  show "\<not> (\<exists>u. f = Undefined u)" if "ac_queue_inv s" "ac_step e s = Fails f" for s e f
    using ac_no_undefined [OF that] by auto
qed

lemma ac_queue_inv_init: "ac_queue_inv (ac_init host port)"
  by (simp add: ac_queue_inv_def ac_init_def ac_inflight_def)

text \<open>
  The client never calls \<open>front\<close> or \<open>pop_front\<close> on an empty queue, whatever the order
  in which sends, completions and failures are handled; the only way a handler can fail is
  an exception, thrown by the resolver.
\<close>

theorem async_client_safe:
  assumes "run ac_step es (ac_init host port) = Fails f"
  shows "\<exists>msg. f = Throws msg"
  using acs.safe_run [OF ac_queue_inv_init assms] by (cases f) auto

theorem async_client_safe_witness:
  "run ac_step [AC_call_open (Unresolved ''Host not found'')] (ac_init ''nowhere'' ''777'')
     = Fails (Throws ''Host not found'')
   \<and> (\<exists>msg. Throws ''Host not found'' = Throws msg)"
proof -
  have r: "run ac_step [AC_call_open (Unresolved ''Host not found'')] (ac_init ''nowhere'' ''777'')
     = Fails (Throws ''Host not found'')"
    by (simp add: ac_defs)
  from r async_client_safe [OF r] show ?thesis by blast
qed

definition ac_stuck :: "async_client \<Rightarrow> bool" where
  "ac_stuck s \<longleftrightarrow> write_msgs s \<noteq> [] \<and> ac_inflight s = []"

lemma ac_stuck_step:
  assumes "ac_stuck s" "ac_step e s = Moves t"
  shows "ac_stuck t \<and> ac_written t = ac_written s"
proof (cases "ac_label e s")
  case (Accepts m)
  then show ?thesis
    using ac_accept [OF assms(2) Accepts] assms(1) by (simp add: ac_stuck_def)
next
  case Completes
  then show ?thesis
    using acq.complete_enabled [OF assms(2)] assms(1) by (simp add: ac_stuck_def)
next
  case Unrelated
  then show ?thesis
    using ac_unrelated [OF assms(2) Unrelated] assms(1) by (simp add: ac_stuck_def)
next
  case Breaks
  then show ?thesis
    using ac_break [OF assms(2) Breaks] assms(1) by (simp add: ac_stuck_def ac_queue_inv_def)
qed

interpretation ack: step_invariant ac_step "\<lambda>s. ac_stuck s \<and> ac_written s = w"
  by unfold_locales (auto dest: ac_stuck_step)

text \<open>
  C18: one failed write silences the client for good. The failed message stays at the front
  of the queue with no write in flight, so every later \<open>send\<close> only appends to it: in no
  continuation, reconnections included, is \<open>async_write\<close> called again, and the queue
  never becomes empty.
\<close>

theorem failed_write_silences:
  assumes "run ac_step es (ac_init host port) = Moves s"
    and "ac_step (AC_write_done m ec) s = Moves t" "\<not> ec_ok ec"
    and "run ac_step fs t = Moves u"
  shows "ac_written u = ac_written s \<and> write_msgs u \<noteq> [] \<and> ac_inflight u = []"
proof -
  have inv: "ac_queue_inv s"
    using acs.kept_run [OF ac_queue_inv_init assms(1)] .
  have b: "ac_label (AC_write_done m ec) s = Breaks"
    using assms(3) by simp
  have "ac_stuck t \<and> ac_written t = ac_written s"
    using ac_break [OF assms(2) b inv] by (simp add: ac_stuck_def)
  from ack.kept_run [OF this assms(4)] show ?thesis
    by (simp add: ac_stuck_def)
qed

text \<open>The example: the write fails, the client reconnects, and a new message is not sent.\<close>

definition ac_after_failure :: "ac_event list" where
  "ac_after_failure = [AC_timer_done 0 success_code (Resolved [''10.0.0.1:777'']),
     AC_connect_done [''10.0.0.1:777''] success_code, AC_call_send ''three'', AC_run_task 0 True]"

theorem failed_write_silences_witness:
  "\<exists>s t u. run ac_step ac_demo_events (ac_init ''10.0.0.1'' ''777'') = Moves s
    \<and> ac_step (AC_write_done ''two'' reset_code) s = Moves t
    \<and> run ac_step ac_after_failure t = Moves u
    \<and> AC_read \<in> set (pending u) \<and> write_msgs u = [''two'', ''three'']
    \<and> ac_written u = ac_written s"
proof -
  let ?i = "ac_init ''10.0.0.1'' ''777''"
  obtain s t u where h: "run ac_step ac_demo_events ?i = Moves s"
    "ac_step (AC_write_done ''two'' reset_code) s = Moves t"
    "run ac_step ac_after_failure t = Moves u"
    "AC_read \<in> set (pending u)" "write_msgs u = [''two'', ''three'']"
    by (simp add: ac_demo_events_def ac_after_failure_def ac_init_def ac_defs)
  from failed_write_silences [OF h(1,2) _ h(3)] h show ?thesis
    by auto
qed

section \<open>Staying connected, and closing\<close>

text \<open>The operations that keep the client going: an attempt, a read, the current wait.\<close>

fun ac_drives :: "nat \<Rightarrow> ac_op \<Rightarrow> bool" where
  "ac_drives n (AC_connect eps) = True"
| "ac_drives n AC_read = True"
| "ac_drives n (AC_write m) = False"
| "ac_drives n (AC_timer k) = (Suc k = n)"

definition ac_alive :: "async_client \<Rightarrow> bool" where
  "ac_alive s \<longleftrightarrow> (stop_flag s \<longrightarrow> list_ex (ac_drives (timers_made s)) (pending s))"

lemma ac_alive_step:
  assumes "ac_alive s" "ac_step e s = Moves t"
  shows "ac_alive t"
proof (cases e)
  case (AC_timer_done k ec r)
  then show ?thesis
    using assms list_ex_remove1 [of _ "pending s" "AC_timer k"]
    by (auto simp: ac_alive_def ac_defs split: ac_splits)
next
  case (AC_write_done m ec)
  then show ?thesis
    using assms list_ex_remove1 [of _ "pending s" "AC_write m"]
    by (auto simp: ac_alive_def ac_defs split: ac_splits)
qed (use assms in \<open>auto simp: ac_alive_def ac_defs split: ac_splits\<close>)

interpretation aca: step_invariant ac_step ac_alive
  by unfold_locales (rule ac_alive_step)

text \<open>
  C12: an open client never goes silent. In every reachable state in which \<open>open\<close> was
  called and \<open>close\<close> was not, a connection attempt, a read or the current reconnect wait
  is outstanding, whatever failed before.
\<close>

theorem open_client_alive:
  assumes "reachable ac_step (ac_init host port) s" "stop_flag s"
  shows "\<exists>x \<in> set (pending s). ac_drives (timers_made s) x"
proof -
  have "ac_alive (ac_init host port)"
    by (simp add: ac_alive_def ac_init_def)
  from aca.kept_reachable [OF this assms(1)] assms(2) show ?thesis
    by (simp add: ac_alive_def list_ex_iff)
qed

theorem open_client_alive_witness:
  "\<exists>s. reachable ac_step (ac_init ''h'' ''p'') s \<and> stop_flag s
     \<and> (\<exists>x \<in> set (pending s). ac_drives (timers_made s) x) \<and> pending s = [AC_timer 0]"
proof -
  let ?es = "[AC_call_open (Resolved []), AC_connect_done [] refused_code]"
  obtain s where s: "run ac_step ?es (ac_init ''h'' ''p'') = Moves s" "stop_flag s"
    "pending s = [AC_timer 0]"
    by (simp add: ac_init_def ac_defs)
  then have r: "reachable ac_step (ac_init ''h'' ''p'') s"
    unfolding reachable_iff_run by blast
  from open_client_alive [OF r s(2)] r s(2,3) show ?thesis
    by blast
qed

text \<open>A closed client that is neither connecting nor waiting.\<close>

fun ac_attempts :: "ac_op \<Rightarrow> bool" where
  "ac_attempts (AC_connect eps) = True"
| "ac_attempts (AC_timer k) = True"
| "ac_attempts _ = False"

definition ac_closed :: "async_client \<Rightarrow> bool" where
  "ac_closed s \<longleftrightarrow> \<not> stop_flag s \<and> \<not> list_ex ac_attempts (pending s)"

fun ac_no_open :: "ac_event \<Rightarrow> bool" where
  "ac_no_open (AC_call_open r) = False"
| "ac_no_open _ = True"

lemma ac_closed_step:
  assumes "ac_closed s" "ac_no_open e" "ac_step e s = Moves t"
  shows "ac_closed t \<and> timers_made t = timers_made s"
  using assms
  by (cases e) (auto simp: ac_closed_def ac_defs not_list_ex_remove1
      dest: not_list_ex_mem split: ac_splits)

interpretation acc: restricted_invariant ac_step ac_no_open
    "\<lambda>s. ac_closed s \<and> timers_made s = n"
  by unfold_locales (auto dest: ac_closed_step)

text \<open>
  Closing a connected client is final. Once \<open>close\<close> was called and no attempt or wait is
  outstanding, no continuation without another \<open>open\<close> starts a connection attempt or a
  reconnect wait.
\<close>

theorem close_is_final:
  assumes "ac_closed s" "list_all ac_no_open es" "run ac_step es s = Moves t"
  shows "ac_closed t \<and> timers_made t = timers_made s"
  using acc.kept_by_run [of s "timers_made s"] assms by simp

theorem close_is_final_witness:
  "\<exists>s t. run ac_step (ac_demo_events @ [AC_call_close]) (ac_init ''h'' ''p'') = Moves s
    \<and> run ac_step [AC_run_task 0 True, AC_read_done aborted_code []] s = Moves t
    \<and> ac_closed t \<and> timers_made t = timers_made s"
proof -
  obtain s t where h: "run ac_step (ac_demo_events @ [AC_call_close]) (ac_init ''h'' ''p'') = Moves s"
    "run ac_step [AC_run_task 0 True, AC_read_done aborted_code []] s = Moves t" "ac_closed s"
    by (simp add: ac_demo_events_def ac_init_def ac_defs ac_closed_def max_length_def)
  from close_is_final [OF h(3) _ h(2)] h(1,2) show ?thesis
    by auto
qed

text \<open>
  Closing during the reconnect wait is not. \<open>close\<close> clears the flag but does not cancel
  the timer, and the timer's handler does not look at the flag: when the wait ends the
  client resolves and connects again although it was closed.
\<close>

theorem closed_wait_reconnects:
  assumes "AC_timer k \<in> set (pending s)" "\<not> stop_flag s"
  shows "\<exists>t. ac_step (AC_timer_done k success_code (Resolved eps)) s = Moves t
    \<and> AC_connect eps \<in> set (pending t) \<and> \<not> stop_flag t"
  using assms by (simp add: ac_defs)

theorem closed_wait_reconnects_witness:
  "\<exists>s t. run ac_step [AC_call_open (Resolved []), AC_connect_done [] refused_code, AC_call_close,
       AC_run_task 0 False] (ac_init ''h'' ''p'') = Moves s
    \<and> ac_step (AC_timer_done 0 success_code (Resolved [''10.0.0.1:777''])) s = Moves t
    \<and> AC_connect [''10.0.0.1:777''] \<in> set (pending t) \<and> \<not> stop_flag t"
proof -
  obtain s where s: "run ac_step [AC_call_open (Resolved []), AC_connect_done [] refused_code,
      AC_call_close, AC_run_task 0 False] (ac_init ''h'' ''p'') = Moves s"
    "AC_timer 0 \<in> set (pending s)" "\<not> stop_flag s"
    by (simp add: ac_init_def ac_defs)
  with closed_wait_reconnects [OF s(2,3)] show ?thesis by blast
qed

section \<open>From \<open>send\<close> to the socket\<close>

fun ac_message_of :: "ac_task \<Rightarrow> bytes option" where
  "ac_message_of (AC_send_task m) = Some m"
| "ac_message_of AC_close_task = None"

definition ac_waiting :: "async_client \<Rightarrow> bytes list" where
  "ac_waiting s = picks ac_message_of (posted s)"

fun ac_handed :: "ac_event \<Rightarrow> async_client \<Rightarrow> bytes list" where
  "ac_handed (AC_call_send m) s = [m]"
| "ac_handed _ s = []"

text \<open>One thread runs the \<open>io_context\<close>, and posted tasks run first come, first served.\<close>

fun ac_in_order :: "ac_event \<Rightarrow> async_client \<Rightarrow> bool" where
  "ac_in_order (AC_run_task i is_open) s = (i = 0)"
| "ac_in_order _ s = True"

lemma ac_first_task:
  assumes "ac_step (AC_run_task 0 is_open) s = Moves t"
  shows "\<exists>k ks. posted s = k # ks \<and> posted t = ks"
  using assms by (cases "posted s") (auto simp: ac_defs split: ac_splits)

lemma ac_accept_front:
  assumes "ac_step e s = Moves t" "ac_in_order e s" "ac_label e s = Accepts m"
  shows "ac_waiting s @ ac_handed e s = m # ac_waiting t"
proof -
  obtain is_open where e: "e = AC_run_task 0 is_open" "posted s ! 0 = AC_send_task m"
    using assms(2,3) by (cases e) (auto split: if_splits ac_task.splits)
  with ac_first_task assms(1) show ?thesis
    by (fastforce simp: ac_waiting_def)
qed

lemma ac_others_wait:
  assumes "ac_step e s = Moves t" "ac_in_order e s"
  shows "subseq (ac_waiting t) (ac_waiting s @ ac_handed e s)"
proof (cases e)
  case (AC_run_task i is_open)
  then have i: "i = 0"
    using assms(2) by simp
  from ac_first_task [OF assms(1) [unfolded AC_run_task i]] AC_run_task show ?thesis
    by (auto simp: ac_waiting_def split: option.split)
qed (use assms in \<open>auto simp: ac_waiting_def ac_defs split: ac_splits\<close>)

lemma ac_breaks:
  assumes "ac_step e s = Moves t" "ac_label e s = Breaks"
  shows "ac_written t = ac_written s \<and> (write_msgs t = write_msgs s \<or> write_msgs t = [])"
  using assms by (cases e) (auto simp: ac_defs ac_written_def split: ac_splits)

interpretation aco: ordered_writes ac_step ac_label write_msgs ac_inflight ac_written
  ac_waiting ac_handed ac_in_order
  by unfold_locales (erule (1) ac_accept_front ac_others_wait ac_breaks | assumption)+

lemma ac_ordered_init: "aco.ordered [] (ac_init host port)"
  by (simp add: aco.ordered_def ac_init_def ac_written_def ac_waiting_def)

end
