(* ===== verification/Test_Async.thy ===== *)
theory Test_Async
  imports Test_Program Async_Client
begin

text \<open>
  The program of \<^verbatim>\<open>asio-1.28_async_client/src/test.cpp\<close> around an \<open>AsyncClient\<close>. Its set-up
  thread is detached, creates the service thread \<open>t_\<close> and joins it; \<open>main\<close> joins the same
  \<open>t_\<close> in \<open>stop\<close>.
\<close>

section \<open>The program\<close>

type_synonym test_async = "async_client test_program"

definition ta_send :: "bytes \<Rightarrow> test_async \<Rightarrow> test_async outcome" where
  "ta_send msg p = at_client (ac_send msg) p"

text \<open>\<open>Test::stop\<close>. Joining a thread that is not joinable throws; a second join is a race with the first.\<close>

definition ta_stop :: "test_async \<Rightarrow> test_async outcome" where
  "ta_stop p = (case main_pc p of
     M_stop \<Rightarrow> at_client ac_close (p\<lparr>main_pc := M_join\<rparr>)
   | M_join \<Rightarrow>
       if \<not> thread_handle p then Fails (Throws ''join: Invalid argument'')
       else if setup_pc p = D_joining then Fails (Undefined Data_race)
       else Moves (p\<lparr>main_pc := M_joining\<rparr>)
   | M_joining \<Rightarrow>
       if service p = V_returned then Moves (p\<lparr>thread_handle := False, main_pc := M_returned\<rparr>)
       else Disabled
   | _ \<Rightarrow> Disabled)"

definition ta_main :: "test_async \<Rightarrow> test_async outcome" where
  "ta_main p = (case main_pc p of
     M_read line st \<Rightarrow> Moves (p\<lparr>main_pc := main_read line st\<rparr>)
   | M_send msg st \<Rightarrow> ta_send msg (p\<lparr>main_pc := M_read (replicate line_size NUL) st\<rparr>)
   | M_returned \<Rightarrow> Disabled
   | _ \<Rightarrow> ta_stop p)"

text \<open>
  The thread of \<open>Test::run\<close>. An exception of \<open>open\<close> (the resolver's) ends it. It uses the
  \<open>Test\<close> object, which \<open>main\<close> destroys when it returns.
\<close>

definition ta_setup :: "resolution \<Rightarrow> test_async \<Rightarrow> test_async outcome" where
  "ta_setup r p =
     (if setup_pc p = D_over then Disabled
      else if main_pc p = M_returned then Fails (Undefined Use_after_free)
      else case setup_pc p of
        D_construct \<Rightarrow> Moves (p\<lparr>client_ptr := Some (ac_init ''172.16.100.247'' ''777''), setup_pc := D_callbacks\<rparr>)
      | D_callbacks \<Rightarrow>
          at_client (\<lambda>c. ac_set_on_receive True (ac_set_on_disconnected True (ac_set_on_connected True c)))
            (p\<lparr>setup_pc := D_open\<rparr>)
      | D_open \<Rightarrow> (case r of
          Resolved eps \<Rightarrow> at_client (\<lambda>c. case ac_open r c of Inr d \<Rightarrow> d | Inl f \<Rightarrow> c) (p\<lparr>setup_pc := D_thread\<rparr>)
        | Unresolved msg \<Rightarrow> at_client (\<lambda>c. c\<lparr>stop_flag := True\<rparr>) (p\<lparr>setup_pc := D_over\<rparr>))
      | D_thread \<Rightarrow> Moves (p\<lparr>thread_handle := True, service := V_running, setup_pc := D_check\<rparr>)
      | D_check \<Rightarrow>
          if \<not> thread_handle p then Moves (p\<lparr>setup_pc := D_over\<rparr>)
          else if main_pc p = M_joining then Fails (Undefined Data_race)
          else Moves (p\<lparr>setup_pc := D_joining\<rparr>)
      | D_joining \<Rightarrow>
          if service p = V_returned then Moves (p\<lparr>thread_handle := False, setup_pc := D_over\<rparr>)
          else Disabled
      | D_over \<Rightarrow> Disabled)"

fun ac_handler :: "ac_event \<Rightarrow> bool" where
  "ac_handler (AC_run_task i is_open) = True"
| "ac_handler (AC_connect_done eps ec) = True"
| "ac_handler (AC_read_done ec data) = True"
| "ac_handler (AC_write_done m ec) = True"
| "ac_handler (AC_timer_done k ec r) = True"
| "ac_handler _ = False"

datatype ta_event = TA_main | TA_setup resolution | TA_service ac_event | TA_service_ends

text \<open>When \<open>main\<close> has returned only the detached thread can still act.\<close>

fun ta_step :: "ta_event \<Rightarrow> test_async \<Rightarrow> test_async outcome" where
  "ta_step TA_main p = ta_main p"
| "ta_step (TA_setup r) p = ta_setup r p"
| "ta_step (TA_service e) p =
     (if ac_handler e \<and> main_pc p \<noteq> M_returned then at_service ac_step e p else Disabled)"
| "ta_step TA_service_ends p = (if main_pc p \<noteq> M_returned then service_ends p else Disabled)"

named_theorems ta_defs

lemmas [ta_defs] = test_defs ta_send_def ta_stop_def ta_main_def ta_setup_def

lemmas ta_splits = if_splits main_pc.splits setup_pc.splits option.splits resolution.splits

section \<open>The end of the program\<close>

definition joins_alone :: "test_async \<Rightarrow> bool" where
  "joins_alone p \<longleftrightarrow> (main_pc p = M_joining \<or> main_pc p = M_returned \<longrightarrow> setup_pc p = D_check)
     \<and> (main_pc p = M_joining \<longrightarrow> thread_handle p)
     \<and> (thread_handle p \<longrightarrow> setup_pc p \<in> {D_check, D_joining})"

lemma main_read_reads: "main_read line st \<noteq> M_joining" "main_read line st \<noteq> M_returned"
  by (auto simp: main_read_def Let_def split: prod.split)

lemma joins_alone_step:
  assumes "joins_alone p" "ta_step e p = Moves q"
  shows "joins_alone q"
proof (cases e)
  case TA_main
  then show ?thesis
    using assms main_read_reads by (auto simp: joins_alone_def ta_defs split: ta_splits)
next
  case (TA_setup r)
  then show ?thesis
    using assms by (auto simp: joins_alone_def ta_defs split: ta_splits)
qed (use assms in \<open>auto simp: joins_alone_def ta_defs map_outcome_Moves split: ta_splits\<close>)

interpretation taj: step_invariant ta_step joins_alone
  by unfold_locales (rule joins_alone_step)

text \<open>
  C25: the program cannot end in order. \<open>main\<close> and the detached thread join the same \<open>t_\<close>:
  \<open>main\<close> returns only in runs in which the detached thread has not yet come to look at
  \<open>t_\<close>, and then its next step uses the destroyed \<open>Test\<close>; once that thread is in its join,
  or has left it, \<open>main\<close>'s own join is a race or throws.
\<close>

theorem async_test_cannot_end:
  assumes "run ta_step es (test_start mem inp) = Moves p"
  shows "(main_pc p = M_returned \<longrightarrow> ta_step (TA_setup r) p = Fails (Undefined Use_after_free))
    \<and> (setup_pc p \<in> {D_joining, D_over} \<and> main_pc p = M_join \<longrightarrow> (\<exists>f. ta_step TA_main p = Fails f))"
proof -
  have "joins_alone (test_start mem inp :: test_async)"
    by (simp add: joins_alone_def test_start_def)
  from taj.kept_run [OF this assms] have "joins_alone p" .
  then show ?thesis
    by (auto simp: joins_alone_def ta_defs)
qed

text \<open>The overtaking run: the detached thread is suspended between creating and testing \<open>t_\<close>.\<close>

definition ta_overtaken :: "ta_event list" where
  "ta_overtaken = [TA_setup (Resolved []), TA_setup (Resolved []), TA_setup (Resolved [''ep'']),
     TA_setup (Resolved []), TA_main, TA_main, TA_main, TA_service (AC_run_task 0 True),
     TA_service (AC_connect_done [''ep''] aborted_code), TA_service_ends, TA_main]"

theorem async_test_cannot_end_witness:
  "\<exists>p. run ta_step ta_overtaken (test_start [] []) = Moves p \<and> main_pc p = M_returned
    \<and> ta_step (TA_setup (Resolved [])) p = Fails (Undefined Use_after_free)"
proof -
  obtain p where p: "run ta_step ta_overtaken (test_start [] []) = Moves p" "main_pc p = M_returned"
    by (simp add: ta_overtaken_def ta_defs ac_defs ac_init_def main_read_def getline_def fresh_input_def)
  from async_test_cannot_end [OF p(1)] p show ?thesis
    by blast
qed

section \<open>From the console to the socket\<close>

text \<open>The messages a step hands to \<open>AsyncClient::send\<close>; posted tasks run in order.\<close>

fun ta_handed :: "ta_event \<Rightarrow> test_async \<Rightarrow> bytes list" where
  "ta_handed TA_main p = (case main_pc p of M_send msg st \<Rightarrow> [msg] | _ \<Rightarrow> [])"
| "ta_handed _ p = []"

fun ta_in_order :: "ta_event \<Rightarrow> test_async \<Rightarrow> bool" where
  "ta_in_order (TA_service (AC_run_task i is_open)) p = (i = 0)"
| "ta_in_order _ p = True"

text \<open>What a program does to its client is steps of the client.\<close>

lemma ac_ordered_sent: "aco.ordered h c \<Longrightarrow> aco.ordered (h @ [m]) (ac_send m c)"
  using aco.ordered_step [of h c "AC_call_send m"] by simp

lemma ac_ordered_calls:
  assumes "aco.ordered h c"
  shows "aco.ordered h (ac_close c)"
    "aco.ordered h (ac_set_on_receive x (ac_set_on_disconnected y (ac_set_on_connected z c)))"
    "aco.ordered h (case ac_open (Resolved eps) c of Inr d \<Rightarrow> d | Inl f \<Rightarrow> c)"
    "aco.ordered h (c\<lparr>stop_flag := b\<rparr>)"
  using aco.ordered_step [OF assms, of AC_call_close] aco.ordered_step [OF assms, of "AC_call_set x z y"]
    aco.ordered_step [OF assms, of "AC_call_open (Resolved eps)"] assms
  by (simp_all add: ac_set_on_receive_def ac_set_on_connected_def ac_set_on_disconnected_def
      aco.ordered_def ac_written_def ac_waiting_def ac_open_def ac_connect_def)

lemma ta_setup_typed:
  assumes "ta_setup r p = Moves q" "typed aco.ordered all h p"
  shows "typed aco.ordered all h q"
proof (cases "setup_pc p")
  case D_construct
  then show ?thesis
    using assms typed_constructed [OF assms(2) _ ac_ordered_init]
    by (auto simp: ta_setup_def split: if_splits)
next
  case D_callbacks
  then show ?thesis
    using assms by (auto simp: ta_setup_def typed_threads split: if_splits
        intro: at_client_typed ac_ordered_calls(2))
next
  case D_open
  then show ?thesis
    using assms by (auto simp: ta_setup_def typed_threads split: if_splits resolution.splits
        intro: at_client_typed ac_ordered_calls(3,4))
next
  case D_thread
  then show ?thesis
    using assms by (auto simp: ta_setup_def typed_def split: if_splits)
qed (use assms in \<open>auto simp: ta_setup_def typed_threads typed_def split: if_splits\<close>)

lemma ta_main_typed:
  assumes "ta_main p = Moves q" "typed aco.ordered all h p"
  shows "typed aco.ordered all (h @ ta_handed TA_main p) q"
proof (cases "main_pc p")
  case (M_read line st)
  then show ?thesis
    using assms by (auto simp: ta_main_def unsent_main_read intro: typed_main)
next
  case (M_send msg st)
  then have "at_client (ac_send msg) (p\<lparr>main_pc := M_read (replicate line_size NUL) st\<rparr>) = Moves q"
    using assms(1) by (simp add: ta_main_def ta_send_def)
  from send_typed [OF this assms(2) M_send ac_ordered_sent] M_send show ?thesis
    by simp
next
  case M_stop
  then have "at_client ac_close (p\<lparr>main_pc := M_join\<rparr>) = Moves q"
    using assms(1) by (simp add: ta_main_def ta_stop_def)
  from at_client_typed [OF this typed_main [OF assms(2)] ac_ordered_calls(1)] M_stop show ?thesis
    by simp
qed (use assms in \<open>auto simp: ta_main_def ta_stop_def typed_def split: if_splits\<close>)

lemma ta_typed_step:
  assumes "typed aco.ordered all h p" "ta_in_order e p" "ta_step e p = Moves q"
  shows "typed aco.ordered all (h @ ta_handed e p) q"
proof (cases e)
  case TA_main
  then show ?thesis using assms ta_main_typed by simp
next
  case (TA_setup r)
  then show ?thesis using assms ta_setup_typed by simp
next
  case (TA_service ae)
  have o: "ac_in_order ae c" "ac_handed ae c = []" for c
    using assms(2,3) TA_service by (cases ae; simp)+
  have "at_service ac_step ae p = Moves q"
    using assms(3) TA_service by (simp split: if_splits)
  then have "typed aco.ordered all h q"
    by (rule at_service_typed [OF _ assms(1)]) (use aco.ordered_step [of h _ ae] o in simp)
  then show ?thesis using TA_service by simp
next
  case TA_service_ends
  then show ?thesis
    using assms service_ends_typed [of p q] by (simp split: if_splits)
qed

interpretation tat: obliged_history ta_step ta_in_order ta_handed "typed aco.ordered all"
  by unfold_locales (rule ta_typed_step)

text \<open>
  C17: from the keyboard to the socket. Whatever fails and reconnects, the messages the
  client has given to \<open>async_write\<close> are lines that were typed, in the order in which they were
  typed and none of them twice.
\<close>

theorem async_test_writes_lines:
  assumes "run ta_step es (test_start mem (as_input ls rest)) = Moves p"
    and "guarded ta_in_order ta_step es (test_start mem (as_input ls rest))"
    and "\<forall>l \<in> set ls. LF \<notin> set l" "LF \<notin> set rest" "client_ptr p = Some c"
  shows "subseq (ac_written c) (typed_messages (ls @ (if rest = [] then [] else [rest])))"
proof -
  let ?p0 = "test_start mem (as_input ls rest)" and ?all = "typed_messages (ls @ (if rest = [] then [] else [rest]))"
  have "typed aco.ordered ?all [] ?p0"
    by (rule typed_start [OF console_loop_lines [OF assms(3,4)]])
  from tat.obliged_run [OF this assms(1,2)] assms(5)
  have "prefix (history ta_step ta_handed es ?p0) ?all" "aco.ordered (history ta_step ta_handed es ?p0) c"
    by (auto simp: typed_def dest: append_prefixD)
  then show ?thesis
    using aco.ordered_written prefix_imp_subseq subseq_order.order_trans by blast
qed

definition ta_demo_events :: "ta_event list" where
  "ta_demo_events = [TA_setup (Resolved []), TA_main, TA_main, TA_main, TA_main, TA_setup (Resolved []),
     TA_setup (Resolved [''ep'']), TA_setup (Resolved []), TA_service (AC_run_task 0 False),
     TA_service (AC_connect_done [''ep''] success_code), TA_service (AC_run_task 0 True)]"

theorem async_test_writes_lines_witness:
  "\<exists>p c. run ta_step ta_demo_events (test_start (replicate 1024 NUL) (as_input [''early'', ''hi''] [])) = Moves p
    \<and> client_ptr p = Some c \<and> ac_written c = [''hi''] \<and> subseq (ac_written c) [''early'', ''hi'']"
proof -
  let ?p0 = "test_start (replicate 1024 NUL) (as_input [''early'', ''hi''] []) :: test_async"
  obtain p c where p: "run ta_step ta_demo_events ?p0 = Moves p" "client_ptr p = Some c" "ac_written c = [''hi'']"
    by (simp add: ta_demo_events_def ta_defs ac_defs ac_init_def main_read_def getline_def fresh_input_def
        line_size_def c_string_def overwrite_def ac_written_def)
  have g: "guarded ta_in_order ta_step ta_demo_events ?p0"
    by (simp add: ta_demo_events_def split: outcome.split)
  from async_test_writes_lines [OF p(1) g _ _ p(2)] p show ?thesis
    by (auto simp: line_size_def c_string_def)
qed

end
