(* ===== verification/Tcp_Client.thy ===== *)
theory Tcp_Client
  imports Write_Queue
begin

text \<open>
  \<open>TcpClient\<close> of \<^verbatim>\<open>asio-1.28/src/tcp_client.cpp\<close>: a client with a connection status, a
  send queue and a reconnect timer. The record holds the class's fields (callbacks as
  whether they are set; \<open>timer_gen\<close> counts the calls of \<open>expires_after\<close> and \<open>cancel\<close> on
  the one timer, each of which cancels the waits before it). \<open>socket_used\<close> is False from
  \<open>socket_.close()\<close> to the next \<open>async_connect\<close>: then the socket is certainly not open;
  otherwise whether it is comes with the event, like the remote address.
\<close>

section \<open>The class\<close>

datatype connect_status = ERR | CONNECTING | CONNECTED | DISCONNECT

datatype tc_op =
    TC_connect "string list"
  | TC_read
  | TC_write bytes
  | TC_wait nat

datatype tc_task = TC_send_task bytes | TC_remain_task

datatype tc_obs =
    TC_status connect_status string
  | TC_received bytes
  | TC_wrote bytes
  | TC_socket_closed
  | TC_wait_ms nat

record tcp_client = "(tc_op, tc_task, tc_obs) aio" +
  tc_endpoints :: "string list"
  recv_msg :: bytes
  send_msgs :: "bytes list"
  recv_cb :: bool
  connect_cb :: bool
  reconnect_flag :: bool
  timer_gen :: nat
  is_connected :: connect_status
  socket_used :: bool

definition reconnect_interval :: nat where
  "reconnect_interval = 3000"

definition recv_size :: nat where
  "recv_size = 1024"

text \<open>The constructor resolves the address, and throws what the resolver throws.\<close>

definition tc_init :: "string + string list \<Rightarrow> bytes \<Rightarrow> tcp_client result" where
  "tc_init resolved mem =
     (case resolved of
        Inl msg \<Rightarrow> Inl (Throws msg)
      | Inr endpoints \<Rightarrow> Inr \<lparr>pending = [], posted = [], trace = [], tc_endpoints = endpoints,
          recv_msg = mem, send_msgs = [], recv_cb = False, connect_cb = False,
          reconnect_flag = False, timer_gen = 0, is_connected = DISCONNECT, socket_used = False\<rparr>)"

definition tc_setRecvCb :: "bool \<Rightarrow> tcp_client \<Rightarrow> tcp_client" where
  "tc_setRecvCb cb s = s\<lparr>recv_cb := cb\<rparr>"

definition tc_setConnectCb :: "bool \<Rightarrow> tcp_client \<Rightarrow> tcp_client" where
  "tc_setConnectCb cb s = s\<lparr>connect_cb := cb\<rparr>"

text \<open>\<open>socket_.close()\<close> is the overload that throws; closing a socket is taken not to fail.\<close>

definition tc_socket_close :: "tcp_client \<Rightarrow> tcp_client" where
  "tc_socket_close s = observe TC_socket_closed (s\<lparr>socket_used := False\<rparr>)"

definition clearSendMsgs :: "tcp_client \<Rightarrow> tcp_client" where
  "clearSendMsgs s = s\<lparr>send_msgs := []\<rparr>"

text \<open>\<open>peer\<close> is the remote address, absent when \<open>remote_endpoint\<close> throws.\<close>

definition doConnectCb :: "string option \<Rightarrow> connect_status \<Rightarrow> tcp_client \<Rightarrow> tcp_client" where
  "doConnectCb peer status s =
     (let s = s\<lparr>is_connected := (if status = CONNECTED then CONNECTED else DISCONNECT)\<rparr>;
          ip = (case peer of Some ip \<Rightarrow> ip | None \<Rightarrow> '''')
      in if connect_cb s then observe (TC_status status ip) s else s)"

definition tc_doConnect :: "tcp_client \<Rightarrow> tcp_client" where
  "tc_doConnect s =
     initiate (TC_connect (tc_endpoints s)) (s\<lparr>is_connected := CONNECTING, socket_used := True\<rparr>)"

definition doReconnect :: "tcp_client \<Rightarrow> tcp_client" where
  "doReconnect s =
     (let s = tc_socket_close (clearSendMsgs (s\<lparr>is_connected := DISCONNECT\<rparr>))
      in if \<not> reconnect_flag s then s
         else observe (TC_wait_ms reconnect_interval)
           (initiate (TC_wait (Suc (timer_gen s))) (s\<lparr>timer_gen := Suc (timer_gen s)\<rparr>)))"

definition tc_on_wait :: "error_code \<Rightarrow> tcp_client \<Rightarrow> tcp_client" where
  "tc_on_wait ec s =
     (if is_aborted ec then s else tc_doConnect (s\<lparr>timer_gen := Suc (timer_gen s)\<rparr>))"

definition doRecv :: "tcp_client \<Rightarrow> tcp_client" where
  "doRecv s = initiate TC_read s"

definition tc_on_connect :: "error_code \<Rightarrow> string option \<Rightarrow> tcp_client \<Rightarrow> tcp_client" where
  "tc_on_connect ec peer s =
     (let s = doConnectCb peer (if ec_value ec = 0 then CONNECTED else ERR) s
      in if ec_ok ec then doRecv s else doReconnect s)"

text \<open>asio fills the array before the handler runs.\<close>

definition tc_store :: "bytes \<Rightarrow> tcp_client \<Rightarrow> tcp_client" where
  "tc_store data s = s\<lparr>recv_msg := overwrite (recv_msg s) 0 data\<rparr>"

definition tc_on_read :: "error_code \<Rightarrow> nat \<Rightarrow> string option \<Rightarrow> tcp_client \<Rightarrow> tcp_client" where
  "tc_on_read ec len peer s =
     (if ec_ok ec then
        let s = (if len > 0 then
                   (let s = (if recv_cb s then observe (TC_received (take len (recv_msg s))) s else s)
                    in s\<lparr>recv_msg := replicate (length (recv_msg s)) NUL\<rparr>)
                 else s)
        in doRecv s
      else doReconnect (doConnectCb peer (if ec_value ec = 2 then DISCONNECT else ERR) s))"

definition doSend :: "tcp_client \<Rightarrow> tcp_client result" where
  "doSend s =
     (case send_msgs s of
        [] \<Rightarrow> Inl (Undefined Empty_container)
      | m # _ \<Rightarrow> Inr (observe (TC_wrote m) (initiate (TC_write m) s)))"

definition tc_on_write :: "error_code \<Rightarrow> string option \<Rightarrow> tcp_client \<Rightarrow> tcp_client result" where
  "tc_on_write ec peer s =
     (if ec_ok ec then
        (case send_msgs s of
           [] \<Rightarrow> Inl (Undefined Empty_container)
         | _ # ms \<Rightarrow>
             (let s = s\<lparr>send_msgs := ms\<rparr> in
              if ms \<noteq> [] then doSend s else Inr s))
      else Inr (doConnectCb peer ERR s))"

text \<open>\<open>doSendRemain\<close> is private and only a commented-out line calls it.\<close>

definition doSendRemain :: "tcp_client \<Rightarrow> tcp_client" where
  "doSendRemain s = post_task TC_remain_task s"

definition tc_remain_task :: "tcp_client \<Rightarrow> tcp_client result" where
  "tc_remain_task s = (let send_in_progress = send_msgs s \<noteq> [] in
     if \<not> send_in_progress then doSend s else Inr s)"

definition tc_send_task :: "bytes \<Rightarrow> tcp_client \<Rightarrow> tcp_client result" where
  "tc_send_task msg s =
     (let send_in_progress = send_msgs s \<noteq> [];
          s = s\<lparr>send_msgs := send_msgs s @ [msg]\<rparr>
      in if \<not> send_in_progress then doSend s else Inr s)"

definition tc_send :: "bytes \<Rightarrow> tcp_client \<Rightarrow> bool \<times> tcp_client" where
  "tc_send msg s =
     (if is_connected s \<noteq> CONNECTED then (False, s) else (True, post_task (TC_send_task msg) s))"

definition tc_connect :: "bool \<Rightarrow> tcp_client \<Rightarrow> tcp_client" where
  "tc_connect reconnect s = tc_doConnect (s\<lparr>reconnect_flag := reconnect\<rparr>)"

text \<open>
  \<open>close\<close>: \<open>socket_.cancel()\<close> is the throwing overload, which reports a socket that is not
  open by an exception; \<open>shutdown\<close> has its error code ignored.
\<close>

definition tc_close :: "bool \<Rightarrow> tcp_client \<Rightarrow> tcp_client result" where
  "tc_close is_open s =
     (let s = s\<lparr>reconnect_flag := False, is_connected := DISCONNECT\<rparr>
      in if \<not> is_open then Inl (Throws ''cancel: Bad file descriptor'')
         else Inr (tc_socket_close s))"

definition tc_destroy :: "tcp_client \<Rightarrow> tcp_client" where
  "tc_destroy s = tc_socket_close (s\<lparr>reconnect_flag := False\<rparr>)"

section \<open>Steps\<close>

datatype tc_event =
    TC_call_connect bool
  | TC_call_close bool
  | TC_call_send bytes
  | TC_call_set bool bool
  | TC_run_task nat
  | TC_connect_done "string list" error_code "string option"
  | TC_read_done error_code bytes "string option"
  | TC_write_done bytes error_code "string option"
  | TC_wait_done nat error_code

definition tc_run_task :: "tc_task \<Rightarrow> tcp_client \<Rightarrow> tcp_client result" where
  "tc_run_task k s =
     (case k of TC_send_task msg \<Rightarrow> tc_send_task msg s | TC_remain_task \<Rightarrow> tc_remain_task s)"

text \<open>A wait is aborted only when its timer was set or cancelled again after it.\<close>

fun tc_step :: "tc_event \<Rightarrow> tcp_client \<Rightarrow> tcp_client outcome" where
  "tc_step (TC_call_connect reconnect) s = Moves (tc_connect reconnect s)"
| "tc_step (TC_call_close is_open) s =
     (if is_open \<longrightarrow> socket_used s then outcome_of (tc_close is_open s) else Disabled)"
| "tc_step (TC_call_send msg) s = Moves (snd (tc_send msg s))"
| "tc_step (TC_call_set r c) s = Moves (tc_setRecvCb r (tc_setConnectCb c s))"
| "tc_step (TC_run_task i) s =
     (if i < length (posted s) then outcome_of (tc_run_task (posted s ! i) (take_task i s))
      else Disabled)"
| "tc_step (TC_connect_done endpoints ec peer) s =
     (if TC_connect endpoints \<in> set (pending s)
      then Moves (tc_on_connect ec peer (finish_op (TC_connect endpoints) s)) else Disabled)"
| "tc_step (TC_read_done ec data peer) s =
     (if TC_read \<in> set (pending s) \<and> length data \<le> recv_size - 1
      then Moves (tc_on_read ec (length data) peer (tc_store data (finish_op TC_read s))) else Disabled)"
| "tc_step (TC_write_done msg ec peer) s =
     (if TC_write msg \<in> set (pending s)
      then outcome_of (tc_on_write ec peer (finish_op (TC_write msg) s)) else Disabled)"
| "tc_step (TC_wait_done k ec) s =
     (if TC_wait k \<in> set (pending s) \<and> (is_aborted ec \<longrightarrow> k < timer_gen s)
      then Moves (tc_on_wait ec (finish_op (TC_wait k) s)) else Disabled)"

section \<open>The write queue\<close>

fun tc_write_data :: "tc_op \<Rightarrow> bytes option" where
  "tc_write_data (TC_write m) = Some m"
| "tc_write_data x = None"

fun tc_wrote_data :: "tc_obs \<Rightarrow> bytes option" where
  "tc_wrote_data (TC_wrote m) = Some m"
| "tc_wrote_data x = None"

definition tc_inflight :: "tcp_client \<Rightarrow> bytes list" where
  "tc_inflight s = picks tc_write_data (pending s)"

definition tc_written :: "tcp_client \<Rightarrow> bytes list" where
  "tc_written s = picks tc_wrote_data (trace s)"

text \<open>Besides a failed write, a lost or failed connection breaks the queue: it is cleared.\<close>

fun tc_label :: "tc_event \<Rightarrow> tcp_client \<Rightarrow> bytes wq_label" where
  "tc_label (TC_run_task i) s =
     (if i < length (posted s)
      then (case posted s ! i of TC_send_task m \<Rightarrow> Accepts m | TC_remain_task \<Rightarrow> Unrelated)
      else Unrelated)"
| "tc_label (TC_write_done m ec peer) s = (if ec_ok ec then Completes else Breaks)"
| "tc_label (TC_read_done ec data peer) s = (if ec_ok ec then Unrelated else Breaks)"
| "tc_label (TC_connect_done endpoints ec peer) s = (if ec_ok ec then Unrelated else Breaks)"
| "tc_label _ s = Unrelated"

lemma tc_write_data_inj: "tc_write_data y = Some m \<Longrightarrow> y = TC_write m"
  by (cases y) simp_all

lemma tc_inflight_remove:
  "picks tc_write_data (remove1 (TC_write m) ops) = remove1 m (picks tc_write_data ops)"
  "picks tc_write_data (remove1 TC_read ops) = picks tc_write_data ops"
  "picks tc_write_data (remove1 (TC_connect eps) ops) = picks tc_write_data ops"
  "picks tc_write_data (remove1 (TC_wait k) ops) = picks tc_write_data ops"
  by (simp_all add: picks_remove1_same picks_remove1_other tc_write_data_inj)

named_theorems tc_defs

lemmas [tc_defs] = aio_defs tc_setRecvCb_def tc_setConnectCb_def tc_socket_close_def
  clearSendMsgs_def doConnectCb_def tc_doConnect_def doReconnect_def tc_on_wait_def doRecv_def
  tc_on_connect_def tc_store_def tc_on_read_def doSend_def tc_on_write_def tc_remain_task_def
  tc_send_task_def tc_send_def tc_connect_def tc_close_def tc_run_task_def Let_def

lemmas tc_splits = if_splits list.splits option.splits tc_task.splits

lemma tc_accept:
  assumes "tc_step e s = Moves t" "tc_label e s = Accepts m"
  shows "send_msgs t = send_msgs s @ [m]
    \<and> tc_inflight t = tc_inflight s @ (if send_msgs s = [] then [m] else [])
    \<and> tc_written t = tc_written s @ (if send_msgs s = [] then [m] else [])"
  using assms
  by (cases e) (auto simp: tc_defs tc_inflight_def tc_written_def split: tc_splits)

lemma tc_complete:
  assumes "tc_step e s = Moves t" "tc_label e s = Completes"
  shows "\<exists>m0 m ms. send_msgs s = m # ms \<and> send_msgs t = ms \<and> m0 \<in> set (tc_inflight s)
    \<and> tc_inflight t = remove1 m0 (tc_inflight s) @ take 1 ms
    \<and> tc_written t = tc_written s @ take 1 ms"
proof -
  obtain m ec peer where e: "e = TC_write_done m ec peer" "ec_ok ec"
    using assms(2) by (cases e) (auto split: tc_splits)
  have mem: "m \<in> set (tc_inflight s)"
    using assms(1) e picks_mem [of tc_write_data "TC_write m" m "pending s"]
    by (auto simp: tc_inflight_def split: if_splits)
  show ?thesis
    using assms(1) e mem
    by (auto simp: tc_defs tc_inflight_def tc_written_def tc_inflight_remove split: tc_splits)
qed

text \<open>
  The task of \<open>doSendRemain\<close> would start a write of an empty queue; it is never posted.
\<close>

lemma tc_remain_same:
  "tc_remain_task s = Inr t \<Longrightarrow> t = s"
  by (auto simp: tc_remain_task_def doSend_def Let_def split: if_splits list.splits)

lemma tc_unrelated:
  assumes "tc_step e s = Moves t" "tc_label e s = Unrelated"
  shows "send_msgs t = send_msgs s \<and> tc_inflight t = tc_inflight s \<and> tc_written t = tc_written s"
proof (cases e)
  case (TC_run_task i)
  then have "posted s ! i = TC_remain_task" "tc_remain_task (take_task i s) = Inr t"
    using assms by (auto simp: tc_run_task_def split: if_splits tc_task.splits)
  from tc_remain_same [OF this(2)] show ?thesis
    by (simp add: aio_defs tc_inflight_def tc_written_def)
qed (use assms in \<open>auto simp: tc_defs tc_inflight_def tc_written_def tc_inflight_remove
    split: tc_splits\<close>)

interpretation tcq: write_queue tc_step tc_label send_msgs tc_inflight tc_written
  by unfold_locales (erule (1) tc_accept tc_complete tc_unrelated)+

definition tc_new :: "string list \<Rightarrow> tcp_client" where
  "tc_new endpoints = \<lparr>pending = [], posted = [], trace = [], tc_endpoints = endpoints,
     recv_msg = replicate recv_size NUL, send_msgs = [], recv_cb = False, connect_cb = False,
     reconnect_flag = False, timer_gen = 0, is_connected = DISCONNECT, socket_used = False\<rparr>"

lemma tc_new_init: "tc_init (Inr endpoints) (replicate recv_size NUL) = Inr (tc_new endpoints)"
  by (simp add: tc_init_def tc_new_def)

text \<open>
  C14: first in, first out while the connection holds. As long as no write, read or
  connection attempt has failed, the messages whose send task ran are those completely
  written followed by those queued, written in that order, one at a time.
\<close>

theorem tcp_client_fifo:
  assumes "tc_init resolved mem = Inr s0" "run tc_step es s0 = Moves s"
    and "unbroken tc_step tc_label es s0"
  shows "\<exists>sent. accepted tc_step tc_label es s0 = sent @ send_msgs s
    \<and> tc_written s = sent @ take 1 (send_msgs s) \<and> tc_inflight s = take 1 (send_msgs s)"
proof -
  have "send_msgs s0 = []" "tc_inflight s0 = []" "tc_written s0 = []"
    using assms(1) by (auto simp: tc_init_def tc_inflight_def tc_written_def split: sum.splits)
  from tcq.fifo_delivery [OF assms(2,3) this] show ?thesis .
qed

definition tc_demo_events :: "tc_event list" where
  "tc_demo_events = [TC_call_connect True, TC_connect_done [''ep''] success_code (Some ''1.2.3.4''),
     TC_call_send ''one'', TC_call_send ''two'', TC_run_task 0, TC_run_task 0]"

theorem tcp_client_fifo_witness:
  "\<exists>s. run tc_step tc_demo_events (tc_new [''ep'']) = Moves s
    \<and> accepted tc_step tc_label tc_demo_events (tc_new [''ep'']) = [''one'', ''two'']
    \<and> tc_written s = [''one''] \<and> tc_inflight s = [''one'']"
proof -
  let ?s0 = "tc_new [''ep'']"
  have u: "unbroken tc_step tc_label tc_demo_events ?s0"
    and a: "accepted tc_step tc_label tc_demo_events ?s0 = [''one'', ''two'']"
    by (simp_all add: tc_demo_events_def tc_new_def tc_defs)
  obtain s where s: "run tc_step tc_demo_events ?s0 = Moves s" "send_msgs s = [''one'', ''two'']"
    by (simp add: tc_demo_events_def tc_new_def tc_defs)
  from tcp_client_fifo [OF tc_new_init s(1) u] show ?thesis
    unfolding a using s by auto
qed

section \<open>Status and reconnection\<close>

text \<open>The operations that keep the client going: an attempt, a read, the current wait.\<close>

fun tc_drives :: "nat \<Rightarrow> tc_op \<Rightarrow> bool" where
  "tc_drives n (TC_connect eps) = True"
| "tc_drives n TC_read = True"
| "tc_drives n (TC_write m) = False"
| "tc_drives n (TC_wait k) = (k = n)"

definition tc_alive :: "tcp_client \<Rightarrow> bool" where
  "tc_alive s \<longleftrightarrow> (reconnect_flag s \<longrightarrow> list_ex (tc_drives (timer_gen s)) (pending s))
     \<and> (is_connected s = CONNECTED \<longrightarrow> TC_read \<in> set (pending s))"

lemma tc_alive_on_write:
  assumes "tc_alive s" "TC_write m \<in> set (pending s)"
    and "tc_on_write ec peer (finish_op (TC_write m) s) = Inr t"
  shows "tc_alive t"
  using assms list_ex_remove1 [of "tc_drives (timer_gen s)" "pending s" "TC_write m"]
  by (auto simp: tc_alive_def tc_defs split: tc_splits)

lemma tc_alive_on_wait:
  assumes "tc_alive s" "is_aborted ec \<longrightarrow> k < timer_gen s"
  shows "tc_alive (tc_on_wait ec (finish_op (TC_wait k) s))"
  using assms list_ex_remove1 [of "tc_drives (timer_gen s)" "pending s" "TC_wait k"]
  by (auto simp: tc_alive_def tc_defs)

lemma tc_alive_step:
  assumes "tc_alive s" "tc_step e s = Moves t"
  shows "tc_alive t"
proof (cases e)
  case (TC_write_done m ec peer)
  then show ?thesis
    using assms tc_alive_on_write by (auto split: if_splits)
next
  case (TC_wait_done k ec)
  then show ?thesis
    using assms tc_alive_on_wait by (auto split: if_splits)
qed (use assms in \<open>auto simp: tc_alive_def tc_defs split: tc_splits\<close>)

interpretation tca: step_invariant tc_step tc_alive
  by unfold_locales (rule tc_alive_step)

text \<open>
  C24: The status is backed by operations. In every reachable state a client that reports
  itself connected has a read outstanding, so it will notice the end of the connection;
  and a client that is to reconnect has a connection attempt, a read or the current
  reconnect wait outstanding, whatever failed before.
\<close>

theorem tcp_client_alive:
  assumes "tc_init resolved mem = Inr s0" "reachable tc_step s0 s"
  shows "(is_connected s = CONNECTED \<longrightarrow> TC_read \<in> set (pending s))
    \<and> (reconnect_flag s \<longrightarrow> (\<exists>x \<in> set (pending s). tc_drives (timer_gen s) x))"
proof -
  have "tc_alive s0"
    using assms(1) by (auto simp: tc_init_def tc_alive_def split: sum.splits)
  from tca.kept_reachable [OF this assms(2)] show ?thesis
    by (simp add: tc_alive_def list_ex_iff)
qed

theorem tcp_client_alive_witness:
  "\<exists>s. run tc_step tc_demo_events (tc_new [''ep'']) = Moves s
    \<and> is_connected s = CONNECTED \<and> TC_read \<in> set (pending s)"
proof -
  obtain s where s: "run tc_step tc_demo_events (tc_new [''ep'']) = Moves s" "is_connected s = CONNECTED"
    by (simp add: tc_demo_events_def tc_new_def tc_defs)
  then have "reachable tc_step (tc_new [''ep'']) s"
    unfolding reachable_iff_run by blast
  from tcp_client_alive [OF tc_new_init this] s show ?thesis
    by blast
qed

section \<open>What goes wrong around a lost connection\<close>

text \<open>
  A connection lost while a write is in flight can crash the client. The read error
  clears the queue but not the completion of the write: when that write has meanwhile
  succeeded, its handler pops the front of the empty queue.
\<close>

theorem loss_while_writing:
  assumes "TC_read \<in> set (pending s)" "TC_write m \<in> set (pending s)" "\<not> ec_ok ec"
  shows "\<exists>t. tc_step (TC_read_done ec [] peer) s = Moves t
    \<and> tc_step (TC_write_done m success_code peer') t = Fails (Undefined Empty_container)"
  using assms by (auto simp: tc_defs)

theorem loss_while_writing_witness:
  "\<exists>s t. run tc_step tc_demo_events (tc_new [''ep'']) = Moves s
    \<and> tc_step (TC_read_done eof_code [] None) s = Moves t
    \<and> tc_step (TC_write_done ''one'' success_code None) t = Fails (Undefined Empty_container)"
proof -
  obtain s where s: "run tc_step tc_demo_events (tc_new [''ep'']) = Moves s"
      "TC_read \<in> set (pending s)" "TC_write ''one'' \<in> set (pending s)"
    by (simp add: tc_demo_events_def tc_new_def tc_defs)
  from loss_while_writing [OF s(2,3), of eof_code] s(1) show ?thesis
    by auto
qed

text \<open>Only a lost connection or a failed attempt clears the queue.\<close>

fun tc_keeps_queue :: "tc_event \<Rightarrow> bool" where
  "tc_keeps_queue (TC_read_done ec data peer) = ec_ok ec"
| "tc_keeps_queue (TC_connect_done eps ec peer) = ec_ok ec"
| "tc_keeps_queue _ = True"

definition tc_stuck :: "tcp_client \<Rightarrow> bool" where
  "tc_stuck s \<longleftrightarrow> send_msgs s \<noteq> [] \<and> tc_inflight s = []"

lemma tc_stuck_step:
  assumes "tc_stuck s" "tc_keeps_queue e" "tc_step e s = Moves t"
  shows "tc_stuck t \<and> tc_written t = tc_written s"
proof (cases "tc_label e s")
  case (Accepts m)
  then show ?thesis
    using tc_accept [OF assms(3) Accepts] assms(1) by (simp add: tc_stuck_def)
next
  case Completes
  then show ?thesis
    using tcq.complete_enabled [OF assms(3)] assms(1) by (simp add: tc_stuck_def)
next
  case Unrelated
  then show ?thesis
    using tc_unrelated [OF assms(3) Unrelated] assms(1) by (simp add: tc_stuck_def)
next
  case Breaks
  then obtain m ec peer where e: "e = TC_write_done m ec peer"
    using assms(2) by (cases e) (auto split: tc_splits)
  then have "m \<in> set (tc_inflight s)"
    using assms(3) picks_mem [of tc_write_data "TC_write m" m "pending s"]
    by (auto simp: tc_inflight_def split: if_splits)
  then show ?thesis
    using assms(1) by (simp add: tc_stuck_def)
qed

interpretation tck: restricted_invariant tc_step tc_keeps_queue
    "\<lambda>s. tc_stuck s \<and> tc_written s = w"
  by unfold_locales (auto dest: tc_stuck_step)

text \<open>
  A stale message silences the client. Once the queue holds a message with no write in
  flight (a write failed, or a posted message ran on the socket that was already
  closed), no continuation writes anything, however many messages \<open>send\<close> accepts, up to
  the next lost connection or failed attempt; reconnecting does not end it.
\<close>

theorem stale_message_silences:
  assumes "send_msgs s \<noteq> []" "tc_inflight s = []"
    and "run tc_step es s = Moves t" "list_all tc_keeps_queue es"
  shows "tc_written t = tc_written s \<and> send_msgs t \<noteq> [] \<and> tc_inflight t = []"
  using tck.kept_by_run [OF _ assms(4,3), of "tc_written s"] assms(1,2) by (simp add: tc_stuck_def)

text \<open>
  The example: a message is posted, the connection is lost before its task runs, the write
  on the closed socket fails; after the reconnection \<open>send\<close> accepts and nothing is sent.
\<close>

definition tc_stale_events :: "tc_event list" where
  "tc_stale_events = [TC_call_connect True, TC_connect_done [''ep''] success_code None,
     TC_call_send ''old'', TC_read_done reset_code [] None, TC_run_task 0,
     TC_write_done ''old'' aborted_code None]"

definition tc_after_stale :: "tc_event list" where
  "tc_after_stale = [TC_wait_done 1 success_code, TC_connect_done [''ep''] success_code None,
     TC_call_send ''new'', TC_run_task 0]"

theorem stale_message_silences_witness:
  "\<exists>s t. run tc_step tc_stale_events (tc_new [''ep'']) = Moves s \<and> run tc_step tc_after_stale s = Moves t
    \<and> is_connected t = CONNECTED \<and> send_msgs t = [''old'', ''new''] \<and> tc_written t = [''old'']"
proof -
  obtain s t where h: "run tc_step tc_stale_events (tc_new [''ep'']) = Moves s"
      "run tc_step tc_after_stale s = Moves t" "send_msgs s \<noteq> []" "tc_inflight s = []"
      "is_connected t = CONNECTED" "send_msgs t = [''old'', ''new'']" "tc_written s = [''old'']"
    by (simp add: tc_stale_events_def tc_after_stale_def tc_new_def tc_defs tc_inflight_def tc_written_def)
  have "list_all tc_keeps_queue tc_after_stale"
    by (simp add: tc_after_stale_def)
  from stale_message_silences [OF h(3,4,2) this] h show ?thesis
    by auto
qed

text \<open>Events that do not start a connection attempt.\<close>

fun tc_no_attempt :: "tc_event \<Rightarrow> bool" where
  "tc_no_attempt (TC_call_connect r) = False"
| "tc_no_attempt (TC_wait_done k ec) = is_aborted ec"
| "tc_no_attempt _ = True"

lemma tc_unused_step:
  assumes "\<not> socket_used s" "tc_no_attempt e" "tc_step e s = Moves t"
  shows "\<not> socket_used t"
  using assms by (cases e) (auto simp: tc_defs split: tc_splits)

interpretation tcu: restricted_invariant tc_step tc_no_attempt "\<lambda>s. \<not> socket_used s"
  by unfold_locales (rule tc_unused_step)

text \<open>
  \<open>close\<close> throws while the client waits to reconnect. After a lost connection or a
  failed attempt the socket is closed, and until the next attempt starts every call of
  \<open>close\<close> leaves through the exception of \<open>socket_.cancel()\<close>; the test program does not
  catch it.
\<close>

theorem close_while_waiting_throws:
  assumes "\<not> ec_ok ec" "e = TC_connect_done eps ec peer \<or> e = TC_read_done ec data peer"
    and "tc_step e s = Moves t" "run tc_step es t = Moves u" "list_all tc_no_attempt es"
  shows "tc_step (TC_call_close False) u = Fails (Throws ''cancel: Bad file descriptor'')
    \<and> tc_step (TC_call_close True) u = Disabled"
proof -
  have "\<not> socket_used t"
    using assms(1-3) by (auto simp: tc_defs split: tc_splits)
  from tcu.kept_by_run [OF this assms(5,4)] show ?thesis
    by (simp add: tc_defs)
qed

theorem close_while_waiting_throws_witness:
  "\<exists>s t. run tc_step [TC_call_connect True] (tc_new [''ep'']) = Moves s
    \<and> tc_step (TC_connect_done [''ep''] refused_code None) s = Moves t
    \<and> tc_step (TC_call_close False) t = Fails (Throws ''cancel: Bad file descriptor'')"
proof -
  obtain s t where h: "run tc_step [TC_call_connect True] (tc_new [''ep'']) = Moves s"
      "tc_step (TC_connect_done [''ep''] refused_code None) s = Moves t"
    by (simp add: tc_new_def tc_defs)
  from close_while_waiting_throws [OF _ _ h(2), of refused_code "[''ep'']" None "[]" "[]" t] h show ?thesis
    by auto
qed

section \<open>From \<open>send\<close> to the socket\<close>

fun tc_message_of :: "tc_task \<Rightarrow> bytes option" where
  "tc_message_of (TC_send_task m) = Some m"
| "tc_message_of TC_remain_task = None"

definition tc_waiting :: "tcp_client \<Rightarrow> bytes list" where
  "tc_waiting s = picks tc_message_of (posted s)"

fun tc_handed :: "tc_event \<Rightarrow> tcp_client \<Rightarrow> bytes list" where
  "tc_handed (TC_call_send m) s = [m]"
| "tc_handed _ s = []"

fun tc_in_order :: "tc_event \<Rightarrow> tcp_client \<Rightarrow> bool" where
  "tc_in_order (TC_run_task i) s = (i = 0)"
| "tc_in_order _ s = True"

lemma tc_first_task:
  assumes "tc_step (TC_run_task 0) s = Moves t"
  shows "\<exists>k ks. posted s = k # ks \<and> posted t = ks"
  using assms by (cases "posted s") (auto simp: tc_defs split: tc_splits)

lemma tc_accept_front:
  assumes "tc_step e s = Moves t" "tc_in_order e s" "tc_label e s = Accepts m"
  shows "tc_waiting s @ tc_handed e s = m # tc_waiting t"
proof -
  have e: "e = TC_run_task 0" "posted s ! 0 = TC_send_task m"
    using assms(2,3) by (cases e; auto split: if_splits tc_task.splits)+
  with tc_first_task assms(1) show ?thesis
    by (fastforce simp: tc_waiting_def)
qed

lemma tc_others_wait:
  assumes "tc_step e s = Moves t" "tc_in_order e s"
  shows "subseq (tc_waiting t) (tc_waiting s @ tc_handed e s)"
proof (cases e)
  case (TC_run_task i)
  then have i: "i = 0"
    using assms(2) by simp
  from tc_first_task [OF assms(1) [unfolded TC_run_task i]] TC_run_task show ?thesis
    by (auto simp: tc_waiting_def split: option.split)
qed (use assms in \<open>auto simp: tc_waiting_def tc_defs split: tc_splits\<close>)

lemma tc_breaks:
  assumes "tc_step e s = Moves t" "tc_label e s = Breaks"
  shows "tc_written t = tc_written s \<and> (send_msgs t = send_msgs s \<or> send_msgs t = [])"
  using assms by (cases e) (auto simp: tc_defs tc_written_def split: tc_splits)

interpretation tco: ordered_writes tc_step tc_label send_msgs tc_inflight tc_written
  tc_waiting tc_handed tc_in_order
  by unfold_locales (erule (1) tc_accept_front tc_others_wait tc_breaks | assumption)+

lemma tc_ordered_init: "tc_init resolved mem = Inr s \<Longrightarrow> tco.ordered [] s"
  by (auto simp: tco.ordered_def tc_init_def tc_written_def tc_waiting_def split: sum.splits)

end
