(* ===== verification/Test_Tcp.thy ===== *)
theory Test_Tcp
  imports Test_Program Tcp_Client
begin

text \<open>
  The program of \<^verbatim>\<open>asio-1.28/src/test.cpp\<close> around the \<open>TcpClient\<close> of that directory. Its set-up
  thread ends when it has created the service thread; only \<open>main\<close> joins that one.
\<close>

section \<open>The program\<close>

type_synonym test_tcp = "tcp_client test_program"

definition tt_send :: "bytes \<Rightarrow> test_tcp \<Rightarrow> test_tcp outcome" where
  "tt_send msg p = at_client (\<lambda>c. snd (tc_send msg c)) p"

text \<open>\<open>Test::stop\<close>; \<open>is_open\<close> is whether the socket is open when \<open>close\<close> looks.\<close>

definition tt_stop :: "bool \<Rightarrow> test_tcp \<Rightarrow> test_tcp outcome" where
  "tt_stop is_open p = (case main_pc p of
     M_stop \<Rightarrow> (case client_ptr p of
         None \<Rightarrow> Fails (Undefined Null_deref)
       | Some c \<Rightarrow> map_outcome (\<lambda>d. p\<lparr>client_ptr := Some d, main_pc := M_join\<rparr>) (tc_step (TC_call_close is_open) c))
   | M_join \<Rightarrow>
       if \<not> thread_handle p then Fails (Throws ''join: Invalid argument'')
       else Moves (p\<lparr>main_pc := M_joining\<rparr>)
   | M_joining \<Rightarrow>
       if service p = V_returned then Moves (p\<lparr>thread_handle := False, main_pc := M_returned\<rparr>)
       else Disabled
   | _ \<Rightarrow> Disabled)"

definition tt_main :: "bool \<Rightarrow> test_tcp \<Rightarrow> test_tcp outcome" where
  "tt_main is_open p = (case main_pc p of
     M_read line st \<Rightarrow> Moves (p\<lparr>main_pc := main_read line st\<rparr>)
   | M_send msg st \<Rightarrow> tt_send msg (p\<lparr>main_pc := M_read (replicate line_size NUL) st\<rparr>)
   | M_returned \<Rightarrow> Disabled
   | _ \<Rightarrow> tt_stop is_open p)"

text \<open>The thread of \<open>Test::run\<close>: the constructor's exception (the resolver's) ends it.\<close>

definition tt_setup :: "string + string list \<Rightarrow> bytes \<Rightarrow> test_tcp \<Rightarrow> test_tcp outcome" where
  "tt_setup resolved mem p = (case setup_pc p of
     D_construct \<Rightarrow> (case tc_init resolved mem of
         Inl f \<Rightarrow> Moves (p\<lparr>setup_pc := D_over\<rparr>)
       | Inr c \<Rightarrow> Moves (p\<lparr>client_ptr := Some c, setup_pc := D_callbacks\<rparr>))
   | D_callbacks \<Rightarrow> at_client (\<lambda>c. tc_setRecvCb True (tc_setConnectCb True c)) (p\<lparr>setup_pc := D_open\<rparr>)
   | D_open \<Rightarrow> at_client (tc_connect True) (p\<lparr>setup_pc := D_thread\<rparr>)
   | D_thread \<Rightarrow> Moves (p\<lparr>thread_handle := True, service := V_running, setup_pc := D_over\<rparr>)
   | _ \<Rightarrow> Disabled)"

fun tc_handler :: "tc_event \<Rightarrow> bool" where
  "tc_handler (TC_run_task i) = True"
| "tc_handler (TC_connect_done eps ec peer) = True"
| "tc_handler (TC_read_done ec data peer) = True"
| "tc_handler (TC_write_done m ec peer) = True"
| "tc_handler (TC_wait_done k ec) = True"
| "tc_handler _ = False"

datatype tt_event = TT_main bool | TT_setup "string + string list" bytes | TT_service tc_event | TT_service_ends

fun tt_step :: "tt_event \<Rightarrow> test_tcp \<Rightarrow> test_tcp outcome" where
  "tt_step (TT_main is_open) p = tt_main is_open p"
| "tt_step (TT_setup resolved mem) p = tt_setup resolved mem p"
| "tt_step (TT_service e) p = (if tc_handler e then at_service tc_step e p else Disabled)"
| "tt_step TT_service_ends p = service_ends p"

named_theorems tt_defs

lemmas [tt_defs] = test_defs tt_send_def tt_stop_def tt_main_def tt_setup_def

lemmas tt_splits = if_splits main_pc.splits setup_pc.splits option.splits sum.splits

section \<open>From the console to the socket\<close>

fun tt_handed :: "tt_event \<Rightarrow> test_tcp \<Rightarrow> bytes list" where
  "tt_handed (TT_main is_open) p = (case main_pc p of M_send msg st \<Rightarrow> [msg] | _ \<Rightarrow> [])"
| "tt_handed _ p = []"

fun tt_in_order :: "tt_event \<Rightarrow> test_tcp \<Rightarrow> bool" where
  "tt_in_order (TT_service (TC_run_task i)) p = (i = 0)"
| "tt_in_order _ p = True"

lemma tc_ordered_sent: "tco.ordered h c \<Longrightarrow> tco.ordered (h @ [m]) (snd (tc_send m c))"
  using tco.ordered_step [of h c "TC_call_send m"] by simp

lemma tc_ordered_calls:
  assumes "tco.ordered h c"
  shows "tc_step (TC_call_close is_open) c = Moves d \<Longrightarrow> tco.ordered h d"
    "tco.ordered h (tc_setRecvCb x (tc_setConnectCb y c))" "tco.ordered h (tc_connect b c)"
  using tco.ordered_step [OF assms, of "TC_call_close is_open"] tco.ordered_step [OF assms, of "TC_call_set x y"]
    tco.ordered_step [OF assms, of "TC_call_connect b"]
  by simp_all

lemma tt_setup_typed:
  assumes "tt_setup resolved mem p = Moves q" "typed tco.ordered all h p"
  shows "typed tco.ordered all h q"
proof (cases "setup_pc p")
  case D_construct
  then show ?thesis
    using assms typed_constructed [OF assms(2) _ tc_ordered_init]
    by (auto simp: tt_setup_def typed_threads split: sum.splits)
next
  case D_callbacks
  then show ?thesis
    using assms by (auto simp: tt_setup_def typed_threads intro: at_client_typed tc_ordered_calls(2))
next
  case D_open
  then show ?thesis
    using assms by (auto simp: tt_setup_def typed_threads intro: at_client_typed tc_ordered_calls(3))
qed (use assms in \<open>auto simp: tt_setup_def typed_def\<close>)

lemma tt_main_typed:
  assumes "tt_main is_open p = Moves q" "typed tco.ordered all h p"
  shows "typed tco.ordered all (h @ tt_handed (TT_main is_open) p) q"
proof (cases "main_pc p")
  case (M_read line st)
  then show ?thesis
    using assms by (auto simp: tt_main_def unsent_main_read intro: typed_main)
next
  case (M_send msg st)
  then have "at_client (\<lambda>c. snd (tc_send msg c)) (p\<lparr>main_pc := M_read (replicate line_size NUL) st\<rparr>) = Moves q"
    using assms(1) by (simp add: tt_main_def tt_send_def)
  from send_typed [OF this assms(2) M_send tc_ordered_sent] M_send show ?thesis
    by simp
next
  case M_stop
  then obtain c d where "client_ptr p = Some c" "tc_step (TC_call_close is_open) c = Moves d"
      "q = p\<lparr>client_ptr := Some d, main_pc := M_join\<rparr>"
    using assms(1) by (auto simp: tt_main_def tt_stop_def map_outcome_Moves split: option.splits)
  then show ?thesis
    using assms(2) M_stop tc_ordered_calls(1) [of h c is_open d] by (auto simp: typed_def)
qed (use assms in \<open>auto simp: tt_main_def tt_stop_def typed_def split: if_splits\<close>)

lemma tt_typed_step:
  assumes "typed tco.ordered all h p" "tt_in_order e p" "tt_step e p = Moves q"
  shows "typed tco.ordered all (h @ tt_handed e p) q"
proof (cases e)
  case (TT_main is_open)
  then show ?thesis using assms tt_main_typed by simp
next
  case (TT_setup resolved mem)
  then show ?thesis using assms tt_setup_typed by simp
next
  case (TT_service ae)
  have o: "tc_in_order ae c" "tc_handed ae c = []" for c
    using assms(2,3) TT_service by (cases ae; simp)+
  have "at_service tc_step ae p = Moves q"
    using assms(3) TT_service by (simp split: if_splits)
  then have "typed tco.ordered all h q"
    by (rule at_service_typed [OF _ assms(1)]) (use tco.ordered_step [of h _ ae] o in simp)
  then show ?thesis using TT_service by simp
next
  case TT_service_ends
  then show ?thesis
    using assms service_ends_typed [of p q] by simp
qed

interpretation ttt: obliged_history tt_step tt_in_order tt_handed "typed tco.ordered all"
  by unfold_locales (rule tt_typed_step)

text \<open>
  From the keyboard to the socket, for the \<open>TcpClient\<close>. Whatever is lost with a
  connection and however often the client reconnects, what it has given to \<open>async_write\<close> are
  lines that were typed, in the order in which they were typed and none of them twice.
\<close>

theorem tcp_test_writes_lines:
  assumes "run tt_step es (test_start mem (as_input ls rest)) = Moves p"
    and "guarded tt_in_order tt_step es (test_start mem (as_input ls rest))"
    and "\<forall>l \<in> set ls. LF \<notin> set l" "LF \<notin> set rest" "client_ptr p = Some c"
  shows "subseq (tc_written c) (typed_messages (ls @ (if rest = [] then [] else [rest])))"
proof -
  let ?p0 = "test_start mem (as_input ls rest)" and ?all = "typed_messages (ls @ (if rest = [] then [] else [rest]))"
  have "typed tco.ordered ?all [] ?p0"
    by (rule typed_start [OF console_loop_lines [OF assms(3,4)]])
  from ttt.obliged_run [OF this assms(1,2)] assms(5)
  have "prefix (history tt_step tt_handed es ?p0) ?all" "tco.ordered (history tt_step tt_handed es ?p0) c"
    by (auto simp: typed_def dest: append_prefixD)
  then show ?thesis
    using tco.ordered_written prefix_imp_subseq subseq_order.order_trans by blast
qed

text \<open>The example: the first line is typed before the client is connected, and is lost.\<close>

definition tt_demo_events :: "tt_event list" where
  "tt_demo_events = [TT_setup (Inr [''ep'']) [], TT_main False, TT_main False, TT_setup (Inl '''') [],
     TT_setup (Inl '''') [], TT_setup (Inl '''') [], TT_service (TC_connect_done [''ep''] success_code None),
     TT_main True, TT_main True, TT_service (TC_run_task 0)]"

theorem tcp_test_writes_lines_witness:
  "\<exists>p c. run tt_step tt_demo_events (test_start (replicate 1024 NUL) (as_input [''early'', ''hi''] [])) = Moves p
    \<and> client_ptr p = Some c \<and> tc_written c = [''hi''] \<and> subseq (tc_written c) [''early'', ''hi'']"
proof -
  let ?p0 = "test_start (replicate 1024 NUL) (as_input [''early'', ''hi''] []) :: test_tcp"
  obtain p c where p: "run tt_step tt_demo_events ?p0 = Moves p" "client_ptr p = Some c" "tc_written c = [''hi'']"
    by (simp add: tt_demo_events_def tt_defs tc_defs tc_init_def main_read_def getline_def fresh_input_def
        line_size_def c_string_def overwrite_def tc_written_def)
  have g: "guarded tt_in_order tt_step tt_demo_events ?p0"
    by (simp add: tt_demo_events_def split: outcome.split)
  from tcp_test_writes_lines [OF p(1) g _ _ p(2)] p show ?thesis
    by (auto simp: line_size_def c_string_def)
qed

section \<open>The end of the program\<close>

text \<open>
  Operations on a closed socket fail; the wait of the reconnect timer may end either way.
  While the service thread works them off nothing new is started but the write of a
  message that was still posted, and after a wait a connection attempt.
\<close>

fun tc_op_rank :: "tc_op \<Rightarrow> nat" where
  "tc_op_rank (TC_wait k) = 2"
| "tc_op_rank _ = 1"

definition tc_rank :: "tcp_client \<Rightarrow> nat" where
  "tc_rank c = sum_list (map tc_op_rank (pending c)) + 2 * length (posted c)"

fun tc_fails :: "tc_event \<Rightarrow> bool" where
  "tc_fails (TC_connect_done eps ec peer) = (\<not> ec_ok ec)"
| "tc_fails (TC_read_done ec data peer) = (\<not> ec_ok ec)"
| "tc_fails (TC_write_done m ec peer) = (\<not> ec_ok ec)"
| "tc_fails _ = True"

definition tc_ending :: "tcp_client \<Rightarrow> bool" where
  "tc_ending c \<longleftrightarrow> \<not> reconnect_flag c \<and> TC_remain_task \<notin> set (posted c)"

lemma sum_remove1: "x \<in> set xs \<Longrightarrow> sum_list (map f xs) = f x + sum_list (map f (remove1 x xs))"
  for f :: "'a \<Rightarrow> nat"
  by (induction xs) auto

lemma tc_ending_step:
  assumes "tc_ending c" "tc_handler e" "tc_fails e" "tc_step e c = Moves d"
  shows "tc_ending d \<and> tc_rank d < tc_rank c"
  using assms
  by (cases e) (auto simp: tc_ending_def tc_rank_def tc_defs sum_remove1
      dest: in_set_takeD in_set_dropD split: tc_splits)

lemma tc_ending_progress:
  assumes "tc_ending c" "pending c \<noteq> [] \<or> posted c \<noteq> []"
  obtains e d where "tc_handler e" "tc_fails e" "tc_step e c = Moves d"
proof (cases "posted c")
  case (Cons k ks)
  then obtain m where "k = TC_send_task m"
    using assms(1) by (cases k) (auto simp: tc_ending_def)
  then obtain d where "tc_step (TC_run_task 0) c = Moves d"
    using Cons by (cases "send_msgs c") (auto simp: tc_defs)
  then show ?thesis
    by (intro that [of "TC_run_task 0"]) simp_all
next
  case Nil
  then obtain x xs where x: "pending c = x # xs"
    using assms(2) by (cases "pending c") auto
  show ?thesis
  proof (cases x)
    case (TC_connect eps)
    then show ?thesis
      using x that [of "TC_connect_done eps refused_code None"] by simp
  next
    case TC_read
    then show ?thesis
      using x that [of "TC_read_done reset_code [] None"] by simp
  next
    case (TC_write m)
    then show ?thesis
      using x that [of "TC_write_done m reset_code None"] by (simp add: tc_on_write_def)
  next
    case (TC_wait k)
    then show ?thesis
      using x that [of "TC_wait_done k success_code"] by simp
  qed
qed

text \<open>The program, from the moment \<open>close\<close> has returned.\<close>

definition tt_ending :: "test_tcp \<Rightarrow> bool" where
  "tt_ending p \<longleftrightarrow> setup_pc p = D_over \<and> main_pc p \<in> {M_join, M_joining, M_returned}
     \<and> service p \<noteq> V_none \<and> (main_pc p \<noteq> M_returned \<longrightarrow> thread_handle p)
     \<and> (\<exists>c. client_ptr p = Some c \<and> tc_ending c)"

fun main_left :: "main_pc \<Rightarrow> nat" where
  "main_left M_join = 2"
| "main_left M_joining = 1"
| "main_left _ = 0"

definition tt_rank :: "test_tcp \<Rightarrow> nat" where
  "tt_rank p = main_left (main_pc p) + (if service p = V_running then 1 else 0)
     + (case client_ptr p of None \<Rightarrow> 0 | Some c \<Rightarrow> tc_rank c)"

fun tt_fails :: "tt_event \<Rightarrow> bool" where
  "tt_fails (TT_service e) = tc_fails e"
| "tt_fails _ = True"

lemma tt_ending_step:
  assumes "tt_ending p" "tt_fails e" "tt_step e p = Moves q"
  shows "tt_ending q \<and> tt_rank q < tt_rank p"
proof (cases e)
  case (TT_service ae)
  then obtain c d where "client_ptr p = Some c" "tc_ending c" "tc_handler ae" "tc_step ae c = Moves d"
      "q = p\<lparr>client_ptr := Some d\<rparr>"
    using assms(1,3) by (auto simp: tt_ending_def at_service_def map_outcome_Moves split: if_splits)
  then show ?thesis
    using assms(1,2) TT_service tc_ending_step [of c ae d] by (simp add: tt_ending_def tt_rank_def)
qed (use assms in \<open>auto simp: tt_ending_def tt_rank_def tt_main_def tt_stop_def tt_setup_def service_ends_def
    split: if_splits\<close>)

interpretation tte: ranked_invariant tt_step tt_fails tt_ending tt_rank
  by unfold_locales (auto dest: tt_ending_step)

lemma tt_ending_progress:
  assumes "tt_ending p" "main_pc p \<noteq> M_returned"
  shows "\<exists>e q. tt_fails e \<and> tt_step e p = Moves q"
proof -
  obtain c where c: "client_ptr p = Some c" "tc_ending c"
    using assms(1) by (auto simp: tt_ending_def)
  consider "main_pc p = M_join" | "main_pc p = M_joining" "service p = V_returned"
    | "main_pc p = M_joining" "service p = V_running"
    using assms by (cases "service p") (auto simp: tt_ending_def)
  then show ?thesis
  proof cases
    case 1
    with assms(1) have "\<exists>q. tt_step (TT_main True) p = Moves q"
      by (simp add: tt_ending_def tt_main_def tt_stop_def)
    then show ?thesis by (intro exI [of _ "TT_main True"]) simp
  next
    case 2
    then have "\<exists>q. tt_step (TT_main True) p = Moves q"
      by (simp add: tt_main_def tt_stop_def)
    then show ?thesis by (intro exI [of _ "TT_main True"]) simp
  next
    case 3
    show ?thesis
    proof (cases "pending c = [] \<and> posted c = []")
      case True
      then show ?thesis
        using 3 c by (intro exI [of _ TT_service_ends]) (simp add: service_ends_def)
    next
      case False
      with tc_ending_progress [OF c(2)] obtain e d where "tc_handler e" "tc_fails e" "tc_step e c = Moves d"
        by blast
      then show ?thesis
        using 3 c by (intro exI [of _ "TT_service e"]) (simp add: at_service_def)
    qed
  qed
qed

text \<open>What holds on the way there.\<close>

definition tt_ok :: "test_tcp \<Rightarrow> bool" where
  "tt_ok p \<longleftrightarrow> setup_pc p \<notin> {D_check, D_joining} \<and> (setup_pc p = D_construct \<longrightarrow> client_ptr p = None)
     \<and> (setup_pc p \<noteq> D_over \<longrightarrow> service p = V_none \<and> \<not> thread_handle p)
     \<and> (setup_pc p = D_over \<and> client_ptr p \<noteq> None \<longrightarrow> service p \<noteq> V_none \<and> (main_pc p \<noteq> M_returned \<longrightarrow> thread_handle p))
     \<and> (\<forall>c. client_ptr p = Some c \<longrightarrow> TC_remain_task \<notin> set (posted c)
       \<and> (setup_pc p = D_callbacks \<or> setup_pc p = D_open \<longrightarrow> \<not> socket_used c))
     \<and> (main_pc p \<in> {M_join, M_joining, M_returned} \<longrightarrow> setup_pc p \<in> {D_thread, D_over}
       \<and> (\<exists>c. client_ptr p = Some c \<and> \<not> reconnect_flag c))"

lemma tc_no_remain:
  assumes "TC_remain_task \<notin> set (posted c)" "tc_step e c = Moves d"
  shows "TC_remain_task \<notin> set (posted d)"
  using assms by (cases e) (auto simp: tc_defs dest: in_set_takeD in_set_dropD split: tc_splits)

lemma tc_handler_flag: "tc_handler e \<Longrightarrow> tc_step e c = Moves d \<Longrightarrow> reconnect_flag d = reconnect_flag c"
  by (cases e) (auto simp: tc_defs split: tc_splits)

lemma main_read_goes_on: "main_read line st \<notin> {M_join, M_joining, M_returned}"
  by (auto simp: main_read_def Let_def split: prod.split)

lemma tt_ok_main:
  assumes "tt_ok p" "tt_main is_open p = Moves q"
  shows "tt_ok q"
proof (cases "main_pc p")
  case (M_read line st)
  then show ?thesis
    using assms main_read_goes_on [of line st] by (auto simp: tt_ok_def tt_main_def)
next
  case (M_send msg st)
  then obtain c where c: "client_ptr p = Some c" "q = p\<lparr>main_pc := M_read (replicate line_size NUL) st,
      client_ptr := Some (snd (tc_send msg c))\<rparr>"
    using assms(2) by (auto simp: tt_main_def tt_send_def at_client_def split: option.splits)
  have "socket_used (snd (tc_send msg c)) = socket_used c"
    "TC_remain_task \<in> set (posted (snd (tc_send msg c))) \<longleftrightarrow> TC_remain_task \<in> set (posted c)"
    by (auto simp: tc_send_def post_task_def)
  then show ?thesis
    using assms(1) c M_send by (simp add: tt_ok_def)
next
  case M_stop
  then obtain c d where c: "client_ptr p = Some c" "tc_step (TC_call_close is_open) c = Moves d"
      "q = p\<lparr>client_ptr := Some d, main_pc := M_join\<rparr>"
    using assms(2) by (auto simp: tt_main_def tt_stop_def map_outcome_Moves split: option.splits)
  then have d: "socket_used c" "\<not> reconnect_flag d" "posted d = posted c"
    by (auto simp: tc_defs split: if_splits)
  then have "setup_pc p \<in> {D_thread, D_over}"
    using assms(1) c(1) by (cases "setup_pc p") (simp_all add: tt_ok_def)
  then show ?thesis
    using assms(1) c d M_stop by (simp add: tt_ok_def)
qed (use assms in \<open>auto simp: tt_ok_def tt_main_def tt_stop_def split: if_splits\<close>)

lemma tt_ok_setup:
  assumes "tt_ok p" "tt_setup resolved mem p = Moves q"
  shows "tt_ok q"
  using assms
  by (cases "setup_pc p")
    (auto simp: tt_ok_def tt_setup_def tc_init_def at_client_def tc_setRecvCb_def tc_setConnectCb_def
      tc_connect_def tc_doConnect_def initiate_def split: sum.splits option.splits)

lemma tt_ok_step:
  assumes "tt_ok p" "tt_step e p = Moves q"
  shows "tt_ok q"
proof (cases e)
  case (TT_service ae)
  then obtain c d where c: "client_ptr p = Some c" "service p = V_running" "tc_handler ae" "tc_step ae c = Moves d"
      "q = p\<lparr>client_ptr := Some d\<rparr>"
    using assms(2) by (auto simp: at_service_def map_outcome_Moves split: if_splits option.splits)
  moreover have "setup_pc p = D_over"
    using assms(1) c(2) by (auto simp: tt_ok_def)
  ultimately show ?thesis
    using assms(1) tc_no_remain [OF _ c(4)] tc_handler_flag [OF c(3,4)] by (auto simp: tt_ok_def)
next
  case TT_service_ends
  then show ?thesis
    using assms by (auto simp: tt_ok_def service_ends_def split: if_splits option.splits)
next
  case (TT_main is_open)
  then show ?thesis using assms tt_ok_main [of p is_open q] by simp
next
  case (TT_setup resolved mem)
  then show ?thesis using assms tt_ok_setup [of p resolved mem q] by simp
qed

interpretation tto: step_invariant tt_step tt_ok
  by unfold_locales (rule tt_ok_step)

text \<open>
  C20: the program ends. Once \<open>close\<close> has returned to \<open>stop\<close>, with the set-up thread over, and
  if every operation that completes from then on completes with an error, as operations on a
  closed socket do (a completion that had succeeded before and is still queued is excluded):
  the threads make at most \<open>tt_rank\<close> more steps, whatever the order, and are never stuck before
  \<open>main\<close> has returned: the join comes back.
\<close>

theorem tcp_test_ends:
  assumes "run tt_step es (test_start mem inp) = Moves p" "main_pc p = M_join" "setup_pc p = D_over"
    and "run tt_step fs p = Moves q" "list_all tt_fails fs"
  shows "length fs \<le> tt_rank p
    \<and> (main_pc q = M_returned \<or> (\<exists>e r. tt_fails e \<and> tt_step e q = Moves r))"
proof -
  have "tt_ok (test_start mem inp)"
    by (simp add: tt_ok_def test_start_def)
  from tto.kept_run [OF this assms(1)] have "tt_ok p" .
  then have "tt_ending p"
    using assms(2,3) by (auto simp: tt_ok_def tt_ending_def tc_ending_def)
  from tte.ranked_run [OF this assms(5,4)] tt_ending_progress show ?thesis
    by auto
qed

text \<open>The example: a connected client with a message that is still posted.\<close>

definition tt_stop_events :: "tt_event list" where
  "tt_stop_events = [TT_setup (Inr [''ep'']) [], TT_setup (Inl '''') [], TT_setup (Inl '''') [],
     TT_setup (Inl '''') [], TT_service (TC_connect_done [''ep''] success_code None), TT_main True, TT_main True,
     TT_main True, TT_main True]"

definition tt_end_events :: "tt_event list" where
  "tt_end_events = [TT_main False, TT_service (TC_read_done aborted_code [] None), TT_service (TC_run_task 0),
     TT_service (TC_write_done ''hi'' aborted_code None), TT_service_ends, TT_main False]"

theorem tcp_test_ends_witness:
  "\<exists>p q. run tt_step tt_stop_events (test_start (replicate 1024 NUL) (as_input [''hi''] [])) = Moves p
    \<and> run tt_step tt_end_events p = Moves q \<and> length tt_end_events \<le> tt_rank p \<and> main_pc q = M_returned"
proof -
  let ?p0 = "test_start (replicate 1024 NUL) (as_input [''hi''] []) :: test_tcp"
  obtain p q where p: "run tt_step tt_stop_events ?p0 = Moves p" "main_pc p = M_join" "setup_pc p = D_over"
      "run tt_step tt_end_events p = Moves q" "main_pc q = M_returned"
    by (simp add: tt_stop_events_def tt_end_events_def tt_defs tc_defs tc_init_def main_read_def getline_def
        fresh_input_def line_size_def c_string_def overwrite_def)
  have "list_all tt_fails tt_end_events"
    by (simp add: tt_end_events_def)
  from tcp_test_ends [OF p(1-4) this] p show ?thesis
    by blast
qed

end
