(* ===== verification/Socket_Link.thy ===== *)
theory Socket_Link
  imports Asio_Runtime "HOL-Library.Sublist"
begin

text \<open>
  Two components at the two ends of one TCP connection. A peer is a component together with
  what it has given to its socket so far (the bytes of all writes it has started), what an
  event takes from it (the bytes of a successful read) and the steps in which nothing goes
  wrong (\<open>calm\<close>). A link is two peers and the bytes under way in each direction; a read
  takes a prefix of what is under way, in whatever pieces. What TCP promises is built into
  the steps; what a peer promises, that it never takes back what it has sent, is the
  contract \<open>socket_peer\<close>. From it follows, once for all pairs, that what one side has sent is
  what the other has read followed by what is under way.
\<close>

section \<open>Links\<close>

record ('e, 's) peer =
  peer_step :: "'e \<Rightarrow> 's \<Rightarrow> 's outcome"
  peer_sent :: "'s \<Rightarrow> bytes"
  peer_takes :: "'e \<Rightarrow> bytes"
  peer_calm :: "'e \<Rightarrow> 's \<Rightarrow> bool"

record ('a, 'b) link =
  lk_left :: 'a
  lk_right :: 'b
  to_right :: bytes
  to_left :: bytes

datatype ('e, 'f) link_event = At_left 'e | At_right 'f

definition link_init :: "'a \<Rightarrow> 'b \<Rightarrow> ('a, 'b) link" where
  "link_init a b = \<lparr>lk_left = a, lk_right = b, to_right = [], to_left = []\<rparr>"

text \<open>The bytes a step of a peer gives to its socket.\<close>

definition newly_sent :: "('e, 's) peer \<Rightarrow> 's \<Rightarrow> 's \<Rightarrow> bytes" where
  "newly_sent P s t = drop (length (peer_sent P s)) (peer_sent P t)"

fun link_step ::
    "('e, 'a) peer \<Rightarrow> ('f, 'b) peer \<Rightarrow> ('e, 'f) link_event \<Rightarrow> ('a, 'b) link \<Rightarrow> ('a, 'b) link outcome" where
  "link_step P Q (At_left e) l =
     (if peer_calm P e (lk_left l) \<and> prefix (peer_takes P e) (to_left l) then
        (case peer_step P e (lk_left l) of
           Moves s \<Rightarrow> Moves (l\<lparr>lk_left := s, to_left := drop (length (peer_takes P e)) (to_left l),
             to_right := to_right l @ newly_sent P (lk_left l) s\<rparr>)
         | Fails f \<Rightarrow> Fails f | Disabled \<Rightarrow> Disabled)
      else Disabled)"
| "link_step P Q (At_right e) l =
     (if peer_calm Q e (lk_right l) \<and> prefix (peer_takes Q e) (to_right l) then
        (case peer_step Q e (lk_right l) of
           Moves s \<Rightarrow> Moves (l\<lparr>lk_right := s, to_right := drop (length (peer_takes Q e)) (to_right l),
             to_left := to_left l @ newly_sent Q (lk_right l) s\<rparr>)
         | Fails f \<Rightarrow> Fails f | Disabled \<Rightarrow> Disabled)
      else Disabled)"

text \<open>The events of the two sides.\<close>

fun at_left_of :: "('e, 'f) link_event \<Rightarrow> 'e option" where
  "at_left_of (At_left e) = Some e"
| "at_left_of _ = None"

fun at_right_of :: "('e, 'f) link_event \<Rightarrow> 'f option" where
  "at_right_of (At_right e) = Some e"
| "at_right_of _ = None"

definition lefts :: "('e, 'f) link_event list \<Rightarrow> 'e list" where
  "lefts es = picks at_left_of es"

definition rights :: "('e, 'f) link_event list \<Rightarrow> 'f list" where
  "rights es = picks at_right_of es"

definition taken :: "('e, 's) peer \<Rightarrow> 'e list \<Rightarrow> bytes" where
  "taken P es = concat (map (peer_takes P) es)"

lemma sides_simps [simp]:
  "lefts [] = []" "lefts (At_left e # es) = e # lefts es" "lefts (At_right f # es) = lefts es"
  "rights [] = []" "rights (At_right f # es) = f # rights es" "rights (At_left e # es) = rights es"
  "taken P [] = []" "taken P (e # gs) = peer_takes P e @ taken P gs"
  by (simp_all add: lefts_def rights_def taken_def)

text \<open>A run of a link is a calm run of each side.\<close>

lemma link_step_left:
  assumes "link_step P Q (At_left e) l = Moves m"
  shows "peer_calm P e (lk_left l) \<and> peer_step P e (lk_left l) = Moves (lk_left m)
    \<and> lk_right m = lk_right l \<and> to_left l = peer_takes P e @ to_left m
    \<and> to_right m = to_right l @ newly_sent P (lk_left l) (lk_left m)"
  using assms by (auto simp: prefix_def split: if_splits outcome.splits)

lemma link_step_right:
  assumes "link_step P Q (At_right e) l = Moves m"
  shows "peer_calm Q e (lk_right l) \<and> peer_step Q e (lk_right l) = Moves (lk_right m)
    \<and> lk_left m = lk_left l \<and> to_right l = peer_takes Q e @ to_right m
    \<and> to_left m = to_left l @ newly_sent Q (lk_right l) (lk_right m)"
  using assms by (auto simp: prefix_def split: if_splits outcome.splits)

lemma link_run_left:
  assumes "run (link_step P Q) es l = Moves m"
  shows "run (peer_step P) (lefts es) (lk_left l) = Moves (lk_left m)
    \<and> guarded (peer_calm P) (peer_step P) (lefts es) (lk_left l)"
  using assms
proof (induction es arbitrary: l)
  case (Cons e es)
  then obtain k where k: "link_step P Q e l = Moves k" "run (link_step P Q) es k = Moves m"
    unfolding run_Cons_Moves by blast
  show ?case
  proof (cases e)
    case (At_left a)
    then show ?thesis using link_step_left [OF k(1) [unfolded At_left]] Cons.IH [OF k(2)] by simp
  next
    case (At_right a)
    then show ?thesis using link_step_right [OF k(1) [unfolded At_right]] Cons.IH [OF k(2)] by simp
  qed
qed simp

lemma link_run_right:
  assumes "run (link_step P Q) es l = Moves m"
  shows "run (peer_step Q) (rights es) (lk_right l) = Moves (lk_right m)
    \<and> guarded (peer_calm Q) (peer_step Q) (rights es) (lk_right l)"
  using assms
proof (induction es arbitrary: l)
  case (Cons e es)
  then obtain k where k: "link_step P Q e l = Moves k" "run (link_step P Q) es k = Moves m"
    unfolding run_Cons_Moves by blast
  show ?case
  proof (cases e)
    case (At_left a)
    then show ?thesis using link_step_left [OF k(1) [unfolded At_left]] Cons.IH [OF k(2)] by simp
  next
    case (At_right a)
    then show ?thesis using link_step_right [OF k(1) [unfolded At_right]] Cons.IH [OF k(2)] by simp
  qed
qed simp

section \<open>The contract and the conservation of bytes\<close>

locale socket_peer =
  fixes P :: "('e, 's) peer"
    and peer_ok :: "'s \<Rightarrow> bool"
  assumes ok_kept: "peer_ok s \<Longrightarrow> peer_calm P e s \<Longrightarrow> peer_step P e s = Moves t \<Longrightarrow> peer_ok t"
    and only_sends: "peer_ok s \<Longrightarrow> peer_calm P e s \<Longrightarrow> peer_step P e s = Moves t \<Longrightarrow>
      prefix (peer_sent P s) (peer_sent P t)"
begin

lemma sent_grows:
  "peer_ok s \<Longrightarrow> peer_calm P e s \<Longrightarrow> peer_step P e s = Moves t \<Longrightarrow>
    peer_sent P t = peer_sent P s @ newly_sent P s t"
  by (frule (2) only_sends) (auto simp: newly_sent_def prefix_def)

end

locale socket_link = left: socket_peer P okP + right: socket_peer Q okQ
  for P :: "('e, 'a) peer" and okP :: "'a \<Rightarrow> bool"
    and Q :: "('f, 'b) peer" and okQ :: "'b \<Rightarrow> bool"
begin

lemma conservation:
  assumes "run (link_step P Q) es l = Moves m" "okP (lk_left l)" "okQ (lk_right l)"
    and "peer_sent P (lk_left l) = x @ to_right l" "peer_sent Q (lk_right l) = y @ to_left l"
  shows "okP (lk_left m) \<and> okQ (lk_right m)
    \<and> peer_sent P (lk_left m) = x @ taken Q (rights es) @ to_right m
    \<and> peer_sent Q (lk_right m) = y @ taken P (lefts es) @ to_left m"
  using assms
proof (induction es arbitrary: l x y)
  case (Cons e es)
  then obtain k where k: "link_step P Q e l = Moves k" "run (link_step P Q) es k = Moves m"
    unfolding run_Cons_Moves by blast
  show ?case
  proof (cases e)
    case (At_left a)
    note st = link_step_left [OF k(1) [unfolded At_left]]
    have "okP (lk_left k)" "okQ (lk_right k)" "peer_sent P (lk_left k) = x @ to_right k"
      "peer_sent Q (lk_right k) = (y @ peer_takes P a) @ to_left k"
      using st Cons.prems(2-5) left.ok_kept [of _ a] left.sent_grows [of _ a] by auto
    from Cons.IH [OF k(2) this] At_left show ?thesis by simp
  next
    case (At_right a)
    note st = link_step_right [OF k(1) [unfolded At_right]]
    have "okP (lk_left k)" "okQ (lk_right k)" "peer_sent P (lk_left k) = (x @ peer_takes Q a) @ to_right k"
      "peer_sent Q (lk_right k) = y @ to_left k"
      using st Cons.prems(2-5) right.ok_kept [of _ a] right.sent_grows [of _ a] by auto
    from Cons.IH [OF k(2) this] At_right show ?thesis by simp
  qed
qed simp

text \<open>From a fresh connection: what was sent is what was read, and what is under way.\<close>

lemma conserved:
  assumes "run (link_step P Q) es (link_init a b) = Moves m" "okP a" "okQ b"
    and "peer_sent P a = []" "peer_sent Q b = []"
  shows "okP (lk_left m) \<and> okQ (lk_right m)
    \<and> peer_sent P (lk_left m) = taken Q (rights es) @ to_right m
    \<and> peer_sent Q (lk_right m) = taken P (lefts es) @ to_left m"
  using conservation [OF assms(1), of "[]" "[]"] assms(2-5) by (simp add: link_init_def)

end

end
