(* ===== verification/Connection_Link.thy ===== *)
theory Connection_Link
  imports Socket_Link Tcp_Connection
begin

text \<open>
  Two \<open>TcpConnection\<close>s of \<^verbatim>\<open>asio-1.10\<close> at the two ends of one TCP connection: each sends out of
  a \<open>ConnectionBuffer\<close> whose bytes asio reads in place, and receives into another. Together
  they are a pipe: what one was given to send is what the other's callback has consumed,
  then its input buffer, then the bytes under way, then the rest of the output buffer.
\<close>

section \<open>A connection as a peer\<close>

definition tn_started :: "tcp_connection \<Rightarrow> bytes" where
  "tn_started c = tn_wire c @ concat (map snd (tn_writes c))"

fun tn_takes :: "tn_event \<Rightarrow> bytes" where
  "tn_takes (TN_read_done p n ec data is_open k) = (if ec_ok ec then data else [])"
| "tn_takes _ = []"

fun tn_calm :: "tn_event \<Rightarrow> tcp_connection \<Rightarrow> bool" where
  "tn_calm (TN_write_done p bs ec late is_open) c = ec_ok ec"
| "tn_calm e c = (tn_send_fits e c \<and> tn_recv_fits e c)"

definition tn_peer :: "(tn_event, tcp_connection) peer" where
  "tn_peer = \<lparr>peer_step = tn_step, peer_sent = tn_started, peer_takes = tn_takes, peer_calm = tn_calm\<rparr>"

definition tn_fine :: "tcp_connection \<Rightarrow> bool" where
  "tn_fine c \<longleftrightarrow> (\<exists>h. tn_send_inv h c)"

lemma tn_calm_fits: "tn_calm e c \<Longrightarrow> tn_send_fits e c \<and> tn_recv_fits e c"
  by (cases e) simp_all

lemma tn_takes_received: "concat (tn_received e c) = tn_takes e"
  by (cases e) simp_all

lemma start_write_starts:
  assumes "tn_send_inv h c" "start_write c = Inr d" "tn_writes c = []"
  shows "tn_wire d = tn_wire c \<and> (\<exists>w. tn_writes d = [w])"
  using assms(2,3) start_write_ok [of c] assms(1)
  by (auto simp: tn_send_inv_def tn_wire_def tn_writes_def aio_defs)

lemma sendInService_starts:
  assumes "tn_send_inv h c" "sendInService moves data c = Inr d" "buf_room data (buf_out c)"
  shows "prefix (tn_started c) (tn_started d)"
proof (cases "tn_writes c = []")
  case True
  have "tn_wire d = tn_wire c"
    using assms(2) by (auto simp: sendInService_def start_write_def tn_wire_def aio_defs Let_def rbind_Inr_iff
        split: if_splits)
  then show ?thesis
    using True by (simp add: tn_started_def)
next
  case False
  then have "sending c"
    using assms(1) by (auto simp: tn_send_inv_def tn_outstanding_def)
  then show ?thesis
    using assms(2) by (auto simp: sendInService_def tn_started_def tn_wire_def tn_writes_def Let_def rbind_Inr_iff)
qed

lemma handleSend_starts:
  assumes "handleSend ec n is_open c = Inr d" "ec_ok ec"
  shows "prefix (tn_wire c) (tn_started d)"
  using assms
  by (auto simp: handleSend_def start_write_def tn_started_def tn_wire_def aio_defs Let_def rbind_Inr_iff
      split: if_splits)

lemma tn_only_sends:
  assumes "tn_send_inv h c" "tn_calm e c" "tn_step e c = Moves d"
  shows "prefix (tn_started c) (tn_started d)"
proof (cases e)
  case (TN_run_task i moves is_open)
  then have i: "i < length (posted c)"
      and r: "tn_run_task moves is_open (posted c ! i) (take_task i c) = Inr d"
    using assms(3) by (auto split: if_splits)
  have c: "tn_send_inv h (take_task i c)" "tn_started (take_task i c) = tn_started c"
    using assms(1) tn_send_inv_same [of c "take_task i c"]
    by (simp_all add: same_out_side_def tn_started_def aio_defs tn_wire_def tn_writes_def)
  show ?thesis
  proof (cases "posted c ! i")
    case (TN_send_task data)
    then show ?thesis
      using r assms(2) TN_run_task i c sendInService_starts [OF c(1), of moves data d]
      by (simp add: tn_run_task_def take_task_def)
  qed (use r c(2) in \<open>auto simp: tn_defs rbind_Inr_iff tn_started_def tn_wire_def tn_writes_def split: if_splits\<close>)
next
  case (TN_write_done p snapshot ec late is_open)
  then obtain bs where m: "TN_write p snapshot \<in> set (pending c)" "ec_ok ec" "wire_bytes late p snapshot c = Inr bs"
      "handleSend ec (length snapshot) is_open (observe (TN_wire bs) (finish_op (TN_write p snapshot) c)) = Inr d"
    using assms(2,3) by (auto simp: rbind_Inr_iff split: if_splits)
  have "tn_wire (observe (TN_wire bs) (finish_op (TN_write p snapshot) c)) = tn_started c"
    using write_in_flight [OF assms(1) m(1,3)] by (simp add: tn_started_def tn_wire_def aio_defs)
  then show ?thesis
    using handleSend_starts [OF m(4,2)] by simp
qed (use tn_out_same [OF assms(3)] in \<open>auto simp: same_out_side_def tn_started_def\<close>)

interpretation tnp: socket_peer tn_peer tn_fine
proof unfold_locales
  fix c e d
  assume c: "tn_fine c" and s: "peer_calm tn_peer e c" "peer_step tn_peer e c = Moves d"
  then obtain h where "tn_send_inv h c" "tn_calm e c" "tn_step e c = Moves d"
    by (auto simp: tn_fine_def tn_peer_def)
  then have "tn_send_inv (h @ tn_sent e c) d" "prefix (tn_started c) (tn_started d)"
    using tn_send_step [of h c e d] tn_calm_fits [of e c] tn_only_sends [of h c e d] by simp_all
  then show "tn_fine d" "prefix (peer_sent tn_peer c) (peer_sent tn_peer d)"
    by (auto simp: tn_fine_def tn_peer_def)
qed

section \<open>The pipe\<close>

text \<open>A calm run of a connection: what it was given, and what it was sent.\<close>

lemma tn_calm_run:
  assumes "run tn_step es (tn_init n) = Moves c" "guarded tn_calm tn_step es (tn_init n)"
  shows "tn_send_inv (history tn_step tn_sent es (tn_init n)) c
    \<and> tn_recv_inv (history tn_step tn_received es (tn_init n)) c"
proof -
  have g: "guarded tn_send_fits tn_step es (tn_init n)" "guarded tn_recv_fits tn_step es (tn_init n)"
    using guarded_mono [OF assms(2)] tn_calm_fits by blast+
  show ?thesis
    using tns.obliged_run [OF tn_send_inv_init assms(1) g(1)] tnr.obliged_run [OF tn_recv_inv_init assms(1) g(2)]
    by simp
qed

lemma received_taken:
  "run tn_step es c = Moves d \<Longrightarrow> concat (history tn_step tn_received es c) = taken tn_peer es"
proof (induction es arbitrary: c)
  case (Cons e es)
  then obtain u where "tn_step e c = Moves u" "run tn_step es u = Moves d"
    unfolding run_Cons_Moves by blast
  with Cons.IH show ?case
    by (simp add: tn_takes_received tn_peer_def)
qed simp

text \<open>The part of the output buffer whose write has not started.\<close>

definition unstarted :: "tcp_connection \<Rightarrow> bytes" where
  "unstarted c = drop (length (concat (map snd (tn_writes c)))) (contents (buf_out c))"

lemma started_unstarted: "tn_send_inv h c \<Longrightarrow> tn_started c @ unstarted c = concat h"
  by (auto simp: tn_send_inv_def tn_outstanding_def tn_started_def unstarted_def)
    (metis append_take_drop_id)

text \<open>
  Linked to any peer: what the connection was given is what the peer has taken, what is under
  way and what is left of the output buffer; what the peer has sent is what the callback has
  consumed, what is in the input buffer and what is under way.
\<close>

lemma tn_side:
  assumes "run tn_step es (tn_init n) = Moves c" "guarded tn_calm tn_step es (tn_init n)"
  shows "concat (history tn_step tn_sent es (tn_init n)) = tn_started c @ unstarted c"
    and "taken tn_peer es = tn_consumed c @ contents (buf_in c)"
  using tn_calm_run [OF assms] started_unstarted received_taken [OF assms(1)]
  by (auto simp: tn_recv_inv_def)

lemma tn_fresh: "tn_fine (tn_init k)" "peer_sent tn_peer (tn_init k) = []"
  using tn_send_inv_init
  by (auto simp: tn_peer_def tn_fine_def tn_started_def tn_wire_def tn_writes_def tn_init_def)

lemma tn_linked:
  assumes "run (link_step tn_peer Q) es (link_init (tn_init n) b) = Moves l"
    and "socket_peer Q okQ" "okQ b" "peer_sent Q b = []"
  shows "concat (history tn_step tn_sent (lefts es) (tn_init n))
      = taken Q (rights es) @ to_right l @ unstarted (lk_left l)"
    and "peer_sent Q (lk_right l) = tn_consumed (lk_left l) @ contents (buf_in (lk_left l)) @ to_left l"
proof -
  have left: "run tn_step (lefts es) (tn_init n) = Moves (lk_left l)" "guarded tn_calm tn_step (lefts es) (tn_init n)"
    using link_run_left [OF assms(1)] by (simp_all add: tn_peer_def link_init_def)
  have "tn_started (lk_left l) = taken Q (rights es) @ to_right l"
      "peer_sent Q (lk_right l) = taken tn_peer (lefts es) @ to_left l"
    using socket_link.conserved [OF socket_link.intro [OF tnp.socket_peer_axioms assms(2)] assms(1)]
      tn_fresh assms(3,4) by (simp_all add: tn_peer_def)
  then show "concat (history tn_step tn_sent (lefts es) (tn_init n))
      = taken Q (rights es) @ to_right l @ unstarted (lk_left l)"
    and "peer_sent Q (lk_right l) = tn_consumed (lk_left l) @ contents (buf_in (lk_left l)) @ to_left l"
    using tn_side [OF left] by simp_all
qed

text \<open>
  C3: two connections are a pipe. Let the connection hold (no write fails), let every message
  whose send task runs while a write is outstanding fit behind the bytes in the output buffer,
  so that \<open>append\<close> neither moves nor grows it, let the sizes stay within 32 bits and the
  callbacks take no more than is there. Then, however the bytes are cut into pieces and the
  handlers interleave, the messages one side was given, put together, are what the other
  side's callback has consumed, then what is in its input buffer, then what is under way, then
  what is left of the output buffer; in both directions.
\<close>

theorem connections_pipe:
  assumes "run (link_step tn_peer tn_peer) es (link_init (tn_init m) (tn_init n)) = Moves l"
  shows "concat (history tn_step tn_sent (lefts es) (tn_init m))
      = tn_consumed (lk_right l) @ contents (buf_in (lk_right l)) @ to_right l @ unstarted (lk_left l)
    \<and> concat (history tn_step tn_sent (rights es) (tn_init n))
      = tn_consumed (lk_left l) @ contents (buf_in (lk_left l)) @ to_left l @ unstarted (lk_right l)"
proof -
  note linked = tn_linked [OF assms tnp.socket_peer_axioms tn_fresh]
  have right: "run tn_step (rights es) (tn_init n) = Moves (lk_right l)" "guarded tn_calm tn_step (rights es) (tn_init n)"
    using link_run_right [OF assms] by (simp_all add: tn_peer_def link_init_def)
  show ?thesis
    using linked tn_side [OF right] by (simp add: tn_peer_def)
qed

text \<open>The example: two bytes arrive, and the callback has taken one of them.\<close>

definition pipe_events :: "(tn_event, tn_event) link_event list" where
  "pipe_events = [At_left (TN_call_setState S_CONNECTED), At_left (TN_call_sendMessage ''ab''),
     At_left (TN_run_task 0 False True), At_right (TN_call_set False False True), At_right TN_call_startReceive,
     At_right (TN_run_task 0 False True)]"

theorem connections_pipe_witness:
  "\<exists>l. run (link_step tn_peer tn_peer) (pipe_events @ [At_right (TN_read_done 0 4096 success_code ''ab'' True 1)])
      (link_init (tn_init ''c'') (tn_init ''d'')) = Moves l
    \<and> tn_consumed (lk_right l) = ''a'' \<and> contents (buf_in (lk_right l)) = ''b'' \<and> to_right l = []
    \<and> concat (history tn_step tn_sent (lefts (pipe_events @ [At_right (TN_read_done 0 4096 success_code ''ab'' True 1)]))
        (tn_init ''c'')) = ''ab''"
proof -
  let ?l0 = "link_init (tn_init ''c'') (tn_init ''d'')" and ?e = "TN_read_done 0 4096 success_code ''ab'' True 1"
  have b: "writePtr new_buffer = Inr 0" "unat (writableCount new_buffer) = 4096"
    by (simp_all add: buf_defs new_buffer_ok) (simp add: new_buffer_def)
  have wr: "start_write c = Inr (initiate (TN_write 0 ''ab'') (c\<lparr>out_moved := False\<rparr>))"
    if "buf_out c = tn_demo_buffer" for c
    using start_write_ok [of c] that tn_demo_buffer_ok by simp
  obtain l where l: "run (link_step tn_peer tn_peer) pipe_events ?l0 = Moves l" "to_right l = ''ab''"
      "buf_in (lk_right l) = new_buffer" "TN_read 0 4096 \<in> set (pending (lk_right l))"
      "retrieve_callback (lk_right l)" "tn_consumed (lk_right l) = []" "tn_started (lk_right l) = []"
    by (simp add: pipe_events_def link_init_def tn_peer_def tn_init_def tn_defs connected_def sendInService_def
        newly_sent_def tn_started_def tn_wire_def tn_writes_def tn_consumed_def b wr tn_demo_buffer_ok
        buf_room_def new_buffer_ok)
  obtain d where d: "tn_step ?e (lk_right l) = Moves d" "tn_consumed d = ''a''" "contents (buf_in d) = ''b''"
    using read_fresh [OF l(3-5), of "''ab''" 1] l(6) by (auto simp del: tn_step.simps)
  have calm: "tn_calm ?e (lk_right l)"
    using l(3) by (simp add: new_buffer_ok)
  obtain l' where l': "link_step tn_peer tn_peer (At_right ?e) l = Moves l'" "lk_right l' = d" "to_right l' = []"
    using d(1) calm l(2) by (simp add: tn_peer_def del: tn_step.simps tn_calm.simps)
  have r: "run (link_step tn_peer tn_peer) (pipe_events @ [At_right ?e]) ?l0 = Moves l'"
    by (simp only: run_append l(1) outcome.case run.simps l'(1))
  have "lefts (pipe_events @ [At_right ?e]) = tn_demo_events"
    by (simp add: pipe_events_def tn_demo_events_def)
  then show ?thesis
    using connections_pipe [OF r] r l' d tn_demo_run(3) by (intro exI [of _ l']) simp
qed

end
