(* ===== verification/Echo_Server.thy ===== *)
theory Echo_Server
  imports Asio_Runtime
begin

text \<open>
  The echo server of \<^verbatim>\<open>asio-1.28_server_single/src/test.cpp\<close>: a \<open>Session\<close> that reads into an
  array and writes what it read, in turn, and a \<open>Server\<close> that accepts for ever. A write
  refers to the session's array in place; what it puts on the wire is read from the array
  when it completes. The server owns no session: each lives through its own handlers, so in
  the model a session whose operations have all completed stays in the list as ended.
\<close>

section \<open>Session\<close>

datatype es_op = ES_read | ES_write nat

datatype es_obs = ES_sent bytes

record echo_session = "(es_op, unit, es_obs) aio" +
  es_data :: bytes

definition es_init :: "bytes \<Rightarrow> echo_session" where
  "es_init mem = \<lparr>pending = [], posted = [], trace = [], es_data = mem\<rparr>"

definition es_do_read :: "echo_session \<Rightarrow> echo_session" where
  "es_do_read s = initiate ES_read s"

definition es_start :: "echo_session \<Rightarrow> echo_session" where
  "es_start s = es_do_read s"

definition es_do_write :: "nat \<Rightarrow> echo_session \<Rightarrow> echo_session" where
  "es_do_write len s = initiate (ES_write len) s"

definition es_on_read :: "error_code \<Rightarrow> nat \<Rightarrow> echo_session \<Rightarrow> echo_session" where
  "es_on_read ec len s = (if ec_ok ec then es_do_write len s else s)"

definition es_on_write :: "error_code \<Rightarrow> echo_session \<Rightarrow> echo_session" where
  "es_on_write ec s = (if ec_ok ec then es_do_read s else s)"

text \<open>asio fills the array before the read handler runs, and has sent it before the write handler.\<close>

datatype es_event = ES_read_done error_code bytes | ES_write_done nat error_code

fun es_step :: "es_event \<Rightarrow> echo_session \<Rightarrow> echo_session outcome" where
  "es_step (ES_read_done ec data) s =
     (if ES_read \<in> set (pending s) \<and> length data \<le> length (es_data s)
      then Moves (es_on_read ec (length data)
        ((finish_op ES_read s)\<lparr>es_data := overwrite (es_data s) 0 data\<rparr>))
      else Disabled)"
| "es_step (ES_write_done len ec) s =
     (if ES_write len \<in> set (pending s)
      then Moves (es_on_write ec
        (if ec_ok ec then observe (ES_sent (take len (es_data s))) (finish_op (ES_write len) s)
         else finish_op (ES_write len) s))
      else Disabled)"

section \<open>Server\<close>

record echo_server =
  es_accepting :: bool
  es_sessions :: "echo_session list"

definition es_do_accept :: "echo_server \<Rightarrow> echo_server" where
  "es_do_accept s = s\<lparr>es_accepting := True\<rparr>"

definition es_server_init :: echo_server where
  "es_server_init = es_do_accept \<lparr>es_accepting = False, es_sessions = []\<rparr>"

definition es_on_accept :: "error_code \<Rightarrow> bytes \<Rightarrow> echo_server \<Rightarrow> echo_server" where
  "es_on_accept ec mem s =
     es_do_accept (if ec_ok ec then s\<lparr>es_sessions := es_sessions s @ [es_start (es_init mem)]\<rparr> else s)"

text \<open>\<open>mem\<close> is the uninitialised array of a new session.\<close>

datatype ev_event = EV_accepted error_code bytes | EV_session nat es_event

fun ev_step :: "ev_event \<Rightarrow> echo_server \<Rightarrow> echo_server outcome" where
  "ev_step (EV_accepted ec mem) s =
     (if es_accepting s \<and> length mem = 1024
      then Moves (es_on_accept ec mem (s\<lparr>es_accepting := False\<rparr>)) else Disabled)"
| "ev_step (EV_session i e) s =
     (if i < length (es_sessions s) then
        (case es_step e (es_sessions s ! i) of
           Moves x \<Rightarrow> Moves (s\<lparr>es_sessions := (es_sessions s)[i := x]\<rparr>)
         | Fails f \<Rightarrow> Fails f | Disabled \<Rightarrow> Disabled)
      else Disabled)"

named_theorems es_defs

lemmas [es_defs] = aio_defs es_init_def es_do_read_def es_start_def es_do_write_def es_on_read_def
  es_on_write_def es_do_accept_def es_server_init_def es_on_accept_def

section \<open>What every client gets back\<close>

text \<open>What the clients sent, each piece with the number of its session.\<close>

fun ev_received :: "ev_event \<Rightarrow> echo_server \<Rightarrow> (nat \<times> bytes) list" where
  "ev_received (EV_session i (ES_read_done ec data)) s = (if ec_ok ec then [(i, data)] else [])"
| "ev_received _ s = []"

definition from_client :: "nat \<Rightarrow> (nat \<times> bytes) list \<Rightarrow> bytes" where
  "from_client i h = concat (map snd (filter (\<lambda>x. fst x = i) h))"

fun es_sent_of :: "es_obs \<Rightarrow> bytes option" where
  "es_sent_of (ES_sent bs) = Some bs"

definition es_sent :: "echo_session \<Rightarrow> bytes" where
  "es_sent x = concat (picks es_sent_of (trace x))"

text \<open>A session in its cycle: reading, writing the bytes it has read, or ended.\<close>

definition es_cycle :: "bytes \<Rightarrow> echo_session \<Rightarrow> bool" where
  "es_cycle received x \<longleftrightarrow> length (es_data x) = 1024 \<and>
     (pending x = [ES_read] \<and> received = es_sent x
      \<or> (\<exists>n. pending x = [ES_write n] \<and> received = es_sent x @ take n (es_data x))
      \<or> pending x = [] \<and> (\<exists>lost. received = es_sent x @ lost))"

definition ev_cycles :: "(nat \<times> bytes) list \<Rightarrow> echo_server \<Rightarrow> bool" where
  "ev_cycles h s \<longleftrightarrow> es_accepting s \<and> list_all (\<lambda>x. fst x < length (es_sessions s)) h
     \<and> (\<forall>i < length (es_sessions s). es_cycle (from_client i h) (es_sessions s ! i))"

lemma from_client_append [simp]: "from_client i (g @ h) = from_client i g @ from_client i h"
  by (simp add: from_client_def)

lemma from_client_other:
  "list_all (\<lambda>x. fst x < n) h \<Longrightarrow> n \<le> i \<Longrightarrow> from_client i h = []"
  by (induction h) (auto simp: from_client_def)

lemma es_cycle_read:
  assumes "es_cycle r x" "es_step (ES_read_done ec data) x = Moves y"
  shows "es_cycle (r @ (if ec_ok ec then data else [])) y"
  using assms
  by (auto simp: es_cycle_def es_defs es_sent_def take_overwrite_0 split: if_splits)

lemma es_cycle_write:
  assumes "es_cycle r x" "es_step (ES_write_done n ec) x = Moves y"
  shows "es_cycle r y"
  using assms by (auto simp: es_cycle_def es_defs es_sent_def split: if_splits)

lemma ev_cycles_accept:
  assumes "ev_cycles h s" "length mem = 1024"
  shows "ev_cycles h (es_on_accept ec mem (s\<lparr>es_accepting := False\<rparr>))"
proof (cases "ec_ok ec")
  case True
  have "es_cycle (from_client (length (es_sessions s)) h) (es_start (es_init mem))"
    using assms from_client_other [of "length (es_sessions s)" h]
    by (simp add: ev_cycles_def es_cycle_def es_sent_def es_defs)
  then show ?thesis
    using True assms(1)
    by (auto simp: ev_cycles_def es_on_accept_def es_do_accept_def nth_append less_Suc_eq
        elim: list.pred_mono_strong)
next
  case False
  then show ?thesis
    using assms(1) by (simp add: ev_cycles_def es_on_accept_def es_do_accept_def)
qed

lemma ev_cycles_session:
  assumes "ev_cycles h s" "i < length (es_sessions s)"
    and "es_cycle (from_client i (h @ g)) x" "list_all (\<lambda>y. fst y = i) g"
  shows "ev_cycles (h @ g) (s\<lparr>es_sessions := (es_sessions s)[i := x]\<rparr>)"
proof -
  have "from_client j g = []" if "j \<noteq> i" for j
    using that assms(4) by (induction g) (auto simp: from_client_def)
  moreover have "list_all (\<lambda>y. fst y < length (es_sessions s)) g"
    using assms(2,4) by (auto simp: list_all_iff)
  ultimately show ?thesis
    using assms(1-3) by (auto simp: ev_cycles_def nth_list_update)
qed

lemma ev_cycles_step:
  assumes "ev_cycles h s" "ev_step e s = Moves t"
  shows "ev_cycles (h @ ev_received e s) t"
proof (cases e)
  case (EV_accepted ec mem)
  then show ?thesis
    using assms ev_cycles_accept by (auto split: if_splits)
next
  case (EV_session i e')
  then obtain x where i: "i < length (es_sessions s)" and x: "es_step e' (es_sessions s ! i) = Moves x"
    and t: "t = s\<lparr>es_sessions := (es_sessions s)[i := x]\<rparr>"
    using assms(2) by (auto split: if_splits outcome.splits)
  have c: "es_cycle (from_client i h) (es_sessions s ! i)"
    using assms(1) i by (simp add: ev_cycles_def)
  have "es_cycle (from_client i (h @ ev_received e s)) x"
  proof (cases e')
    case (ES_read_done ec data)
    then show ?thesis
      using es_cycle_read [OF c x [unfolded ES_read_done]] EV_session
      by (cases "ec_ok ec") (simp_all add: from_client_def)
  next
    case (ES_write_done n ec)
    then show ?thesis
      using es_cycle_write [OF c x [unfolded ES_write_done]] EV_session by (simp add: from_client_def)
  qed
  from ev_cycles_session [OF assms(1) i this] show ?thesis
    using EV_session t by (cases e') simp_all
qed

interpretation evc: history_invariant ev_step ev_received ev_cycles
  by unfold_locales (rule ev_cycles_step)

text \<open>
  C31: the echo server echoes. In every run, however its clients and their sessions
  interleave, an accept is outstanding and each session has at most one operation
  outstanding; the bytes a session has sent are a prefix of the bytes its own client sent it,
  and all of them whenever the session is reading again.
\<close>

theorem echo_server_echoes:
  assumes "run ev_step es es_server_init = Moves s" "i < length (es_sessions s)"
    and "received = from_client i (history ev_step ev_received es es_server_init)"
  shows "es_accepting s \<and> length (pending (es_sessions s ! i)) \<le> 1
    \<and> (\<exists>rest. received = es_sent (es_sessions s ! i) @ rest
        \<and> (ES_read \<in> set (pending (es_sessions s ! i)) \<longrightarrow> rest = []))"
proof -
  have "ev_cycles [] es_server_init"
    by (simp add: ev_cycles_def es_defs)
  from evc.history_run [OF this assms(1)] assms(2,3) show ?thesis
    by (auto simp: ev_cycles_def es_cycle_def)
qed

definition ev_demo_events :: "ev_event list" where
  "ev_demo_events = [EV_accepted success_code (replicate 1024 NUL),
     EV_accepted refused_code (replicate 1024 NUL),
     EV_accepted success_code (replicate 1024 NUL),
     EV_session 1 (ES_read_done success_code ''hi''), EV_session 0 (ES_read_done eof_code []),
     EV_session 1 (ES_write_done 2 success_code)]"

theorem echo_server_echoes_witness:
  "\<exists>s. run ev_step ev_demo_events es_server_init = Moves s \<and> es_sent (es_sessions s ! 1) = ''hi''
    \<and> es_accepting s"
proof -
  obtain s where s: "run ev_step ev_demo_events es_server_init = Moves s"
      "length (es_sessions s) = 2" "pending (es_sessions s ! 1) = [ES_read]"
    and h: "from_client 1 (history ev_step ev_received ev_demo_events es_server_init) = ''hi''"
    by (simp add: ev_demo_events_def es_defs from_client_def overwrite_def)
  from echo_server_echoes [OF s(1), of 1] s(2,3) h show ?thesis
    using s(1) by auto
qed

end
