(* ===== verification/Echo_Exchange.thy ===== *)
theory Echo_Exchange
  imports Socket_Link Echo_Server Async_Client Tcp_Client
begin

text \<open>
  The clients of \<^verbatim>\<open>asio-1.28_async_client\<close> and \<^verbatim>\<open>asio-1.28\<close> talking to a session of the echo
  server of \<^verbatim>\<open>asio-1.28_server_single\<close>. A client that writes through a queue is a peer,
  whatever class it is (\<open>queue_client\<close>); the echo session is a peer that has sent exactly
  what it has read. Together: the messages the client accepted are, byte for byte and in
  order, what its read handler was given, what is under way and what is queued.
\<close>

section \<open>The echo session as a peer\<close>

fun es_out :: "bytes \<Rightarrow> es_op \<Rightarrow> bytes option" where
  "es_out data (ES_write n) = Some (take n data)"
| "es_out data ES_read = None"

definition es_started :: "echo_session \<Rightarrow> bytes" where
  "es_started x = es_sent x @ concat (picks (es_out (es_data x)) (pending x))"

fun es_takes :: "es_event \<Rightarrow> bytes" where
  "es_takes (ES_read_done ec data) = (if ec_ok ec then data else [])"
| "es_takes _ = []"

fun es_calm :: "es_event \<Rightarrow> echo_session \<Rightarrow> bool" where
  "es_calm (ES_read_done ec data) x = ec_ok ec"
| "es_calm (ES_write_done n ec) x = ec_ok ec"

definition echo_peer :: "(es_event, echo_session) peer" where
  "echo_peer = \<lparr>peer_step = es_step, peer_sent = es_started, peer_takes = es_takes, peer_calm = es_calm\<rparr>"

definition es_going :: "echo_session \<Rightarrow> bool" where
  "es_going x \<longleftrightarrow> pending x = [ES_read] \<or> (\<exists>n. pending x = [ES_write n])"

text \<open>One step of a session sends what it reads.\<close>

lemma es_echoes:
  assumes "es_going x" "es_calm e x" "es_step e x = Moves y"
  shows "es_going y \<and> es_started y = es_started x @ es_takes e"
  using assms
  by (cases e) (auto simp: es_going_def es_started_def es_sent_def es_defs take_overwrite_0
      split: if_splits)

interpretation ep: socket_peer echo_peer es_going
  by unfold_locales (auto simp: echo_peer_def dest: es_echoes)

lemma echo_run:
  assumes "run es_step es x = Moves y" "guarded es_calm es_step es x" "es_going x"
  shows "es_started y = es_started x @ taken echo_peer es"
  using assms
proof (induction es arbitrary: x)
  case (Cons e es)
  then obtain z where z: "es_step e x = Moves z" "run es_step es z = Moves y"
    unfolding run_Cons_Moves by blast
  from es_echoes [OF _ _ z(1)] Cons z show ?case
    by (simp add: echo_peer_def)
qed simp

section \<open>A client with a write queue as a peer\<close>

definition queue_peer ::
    "('e \<Rightarrow> 's \<Rightarrow> 's outcome) \<Rightarrow> ('s \<Rightarrow> bytes list) \<Rightarrow> ('e \<Rightarrow> bytes) \<Rightarrow> ('e \<Rightarrow> 's \<Rightarrow> bool) \<Rightarrow> ('e, 's) peer" where
  "queue_peer step written takes calm =
     \<lparr>peer_step = step, peer_sent = (\<lambda>s. concat (written s)), peer_takes = takes, peer_calm = calm\<rparr>"

locale queue_writer = write_queue step label queue inflight written
  for step :: "'e \<Rightarrow> 's \<Rightarrow> 's outcome"
    and label :: "'e \<Rightarrow> 's \<Rightarrow> bytes wq_label"
    and queue :: "'s \<Rightarrow> bytes list"
    and inflight :: "'s \<Rightarrow> bytes list"
    and written :: "'s \<Rightarrow> bytes list" +
  fixes takes :: "'e \<Rightarrow> bytes"
    and calm :: "'e \<Rightarrow> 's \<Rightarrow> bool"
  assumes calm_unbroken: "calm e s \<Longrightarrow> label e s \<noteq> Breaks"

sublocale queue_writer \<subseteq> socket_peer "queue_peer step written takes calm" "\<lambda>_. True"
proof unfold_locales
  fix s e t
  assume "peer_calm (queue_peer step written takes calm) e s"
    and "peer_step (queue_peer step written takes calm) e s = Moves t"
  then have "\<exists>ms. written t = written s @ ms"
    using written_grows calm_unbroken by (simp add: queue_peer_def)
  then show "prefix (peer_sent (queue_peer step written takes calm) s)
      (peer_sent (queue_peer step written takes calm) t)"
    by (auto simp: queue_peer_def)
qed simp

context queue_writer begin

text \<open>Along a calm run: what was accepted is what was written and what waits in the queue.\<close>

lemma accepted_calm:
  assumes "run step es s = Moves t" "guarded calm step es s"
    and "queue s = []" "inflight s = []" "written s = []"
  shows "accepted step label es s = written t @ drop 1 (queue t)"
proof -
  obtain sent where "accepted step label es s = sent @ queue t" "written t = sent @ take 1 (queue t)"
    using fifo_delivery [OF assms(1) guarded_unbroken [OF assms(2) calm_unbroken] assms(3-5)] by blast
  then show ?thesis by simp
qed

end

text \<open>A client also has a callback; \<open>received\<close> is what it has been given.\<close>

locale queue_client = queue_writer step label queue inflight written takes calm
  for step :: "'e \<Rightarrow> 's \<Rightarrow> 's outcome"
    and label :: "'e \<Rightarrow> 's \<Rightarrow> bytes wq_label"
    and queue :: "'s \<Rightarrow> bytes list"
    and inflight :: "'s \<Rightarrow> bytes list"
    and written :: "'s \<Rightarrow> bytes list"
    and takes :: "'e \<Rightarrow> bytes"
    and calm :: "'e \<Rightarrow> 's \<Rightarrow> bool" +
  fixes listening :: "'s \<Rightarrow> bool"
    and received :: "'s \<Rightarrow> bytes"
  assumes gives: "listening s \<Longrightarrow> calm e s \<Longrightarrow> step e s = Moves t \<Longrightarrow>
      listening t \<and> received t = received s @ takes e"
begin

text \<open>A client that has neither sent nor received anything.\<close>

definition fresh :: "'s \<Rightarrow> bool" where
  "fresh c \<longleftrightarrow> queue c = [] \<and> inflight c = [] \<and> written c = [] \<and> listening c \<and> received c = []"

lemma received_run:
  assumes "run step es s = Moves t" "guarded calm step es s" "listening s"
  shows "received t = received s @ taken (queue_peer step written takes calm) es"
  using assms
proof (induction es arbitrary: s)
  case (Cons e es)
  then obtain u where u: "step e s = Moves u" "run step es u = Moves t"
    unfolding run_Cons_Moves by blast
  from gives [OF _ _ u(1)] Cons u show ?case
    by (simp add: queue_peer_def)
qed simp

text \<open>
  Linked to any peer: the accepted messages are what the peer has taken, what is under way and
  what is queued; what the peer has sent is what the callback was given and what is under way.
\<close>

lemma linked:
  assumes "run (link_step (queue_peer step written takes calm) Q) es (link_init c b) = Moves l"
    and "fresh c" "socket_peer Q okQ" "okQ b" "peer_sent Q b = []"
  shows "concat (accepted step label (lefts es) c)
      = taken Q (rights es) @ to_right l @ concat (drop 1 (queue (lk_left l)))"
    and "peer_sent Q (lk_right l) = received (lk_left l) @ to_left l"
proof -
  let ?P = "queue_peer step written takes calm"
  have c: "queue c = []" "inflight c = []" "written c = []" "listening c" "received c = []"
    using assms(2) by (simp_all add: fresh_def)
  have left: "run step (lefts es) c = Moves (lk_left l)" "guarded calm step (lefts es) c"
    using link_run_left [OF assms(1)] by (simp_all add: queue_peer_def link_init_def)
  have "concat (written (lk_left l)) = taken Q (rights es) @ to_right l"
    and "peer_sent Q (lk_right l) = taken ?P (lefts es) @ to_left l"
    using socket_link.conserved [OF socket_link.intro [OF socket_peer_axioms assms(3)] assms(1)]
      c(3) assms(4,5) by (simp_all add: queue_peer_def)
  then show "concat (accepted step label (lefts es) c)
      = taken Q (rights es) @ to_right l @ concat (drop 1 (queue (lk_left l)))"
    and "peer_sent Q (lk_right l) = received (lk_left l) @ to_left l"
    using accepted_calm [OF left c(1-3)] received_run [OF left c(4)] c(5) by simp_all
qed

lemma echo_exchange:
  assumes "run (link_step (queue_peer step written takes calm) echo_peer) es
      (link_init c (es_start (es_init mem))) = Moves l"
    and "fresh c"
  shows "concat (accepted step label (lefts es) c)
    = received (lk_left l) @ to_left l @ to_right l @ concat (drop 1 (queue (lk_left l)))"
proof -
  let ?x = "es_start (es_init mem)"
  have x: "es_going ?x" "es_started ?x = []"
    by (simp_all add: es_going_def es_started_def es_sent_def es_defs)
  have right: "run es_step (rights es) ?x = Moves (lk_right l)" "guarded es_calm es_step (rights es) ?x"
    using link_run_right [OF assms(1)] by (simp_all add: echo_peer_def link_init_def)
  show ?thesis
    using linked [OF assms ep.socket_peer_axioms] x echo_run [OF right x(1)] by (simp add: echo_peer_def)
qed

end

section \<open>The two clients\<close>

fun ac_takes :: "ac_event \<Rightarrow> bytes" where
  "ac_takes (AC_read_done ec data) = (if ec_ok ec then data else [])"
| "ac_takes _ = []"

text \<open>Calm: calls of \<open>send\<close>, the tasks, and reads and writes that succeed.\<close>

fun ac_calm :: "ac_event \<Rightarrow> async_client \<Rightarrow> bool" where
  "ac_calm (AC_call_send m) s = True"
| "ac_calm (AC_call_set r c d) s = r"
| "ac_calm (AC_run_task i is_open) s = True"
| "ac_calm (AC_read_done ec data) s = ec_ok ec"
| "ac_calm (AC_write_done m ec) s = ec_ok ec"
| "ac_calm _ s = False"

fun ac_received_of :: "ac_obs \<Rightarrow> bytes option" where
  "ac_received_of (AC_received m) = Some m"
| "ac_received_of _ = None"

definition ac_received :: "async_client \<Rightarrow> bytes" where
  "ac_received s = concat (picks ac_received_of (trace s))"

lemma ac_gives:
  assumes "on_receive s" "ac_calm e s" "ac_step e s = Moves t"
  shows "on_receive t \<and> ac_received t = ac_received s @ ac_takes e"
  using assms by (cases e) (auto simp: ac_defs ac_received_def split: ac_splits)

lemma ac_calm_unbroken: "ac_calm e s \<Longrightarrow> ac_label e s \<noteq> Breaks"
  by (cases e) (auto split: ac_task.splits)

interpretation ace: queue_client ac_step ac_label write_msgs ac_inflight ac_written
  ac_takes ac_calm on_receive ac_received
  by unfold_locales (auto dest: ac_gives ac_calm_unbroken)

definition async_peer :: "(ac_event, async_client) peer" where
  "async_peer = queue_peer ac_step ac_written ac_takes ac_calm"

text \<open>
  C7: an \<open>AsyncClient\<close> and the echo server. While their connection holds, and however their
  handlers interleave and the bytes are cut into pieces, the messages the client has
  accepted, put together, are exactly what its receive callback has been given, then what is
  on its way back, then what is on its way to the server, then what is still queued: every
  byte comes back once and in order.
\<close>

theorem async_client_echo:
  assumes "run (link_step async_peer echo_peer) es (link_init c (es_start (es_init mem))) = Moves l"
    and "write_msgs c = []" "ac_inflight c = []" "ac_written c = []"
    and "on_receive c" "ac_received c = []"
  shows "concat (accepted ac_step ac_label (lefts es) c)
    = ac_received (lk_left l) @ to_left l @ to_right l @ concat (drop 1 (write_msgs (lk_left l)))"
  using ace.echo_exchange [OF assms(1) [unfolded async_peer_def]] assms(2-6) by (simp add: ace.fresh_def)

definition ac_connected_demo :: async_client where
  "ac_connected_demo = (ac_init ''127.0.0.1'' ''12345'')\<lparr>on_receive := True, pending := [AC_read]\<rparr>"

definition echo_demo_events :: "(ac_event, es_event) link_event list" where
  "echo_demo_events = [At_left (AC_call_send ''hey''), At_left (AC_run_task 0 True),
     At_left (AC_call_send ''ho''), At_left (AC_run_task 0 True),
     At_right (ES_read_done success_code ''he''), At_left (AC_write_done ''hey'' success_code),
     At_left (AC_read_done success_code ''h'')]"

theorem async_client_echo_witness:
  "\<exists>l. run (link_step async_peer echo_peer) echo_demo_events
      (link_init ac_connected_demo (es_start (es_init (replicate 1024 NUL)))) = Moves l
    \<and> ac_received (lk_left l) = ''h'' \<and> to_left l = ''e'' \<and> to_right l = ''yho''
    \<and> concat (accepted ac_step ac_label (lefts echo_demo_events) ac_connected_demo) = ''heyho''"
proof -
  obtain l where l: "run (link_step async_peer echo_peer) echo_demo_events
      (link_init ac_connected_demo (es_start (es_init (replicate 1024 NUL)))) = Moves l"
      "ac_received (lk_left l) = ''h''" "to_left l = ''e''" "to_right l = ''yho''"
      "write_msgs (lk_left l) = [''ho'']"
    by (simp add: echo_demo_events_def ac_connected_demo_def async_peer_def echo_peer_def queue_peer_def
        link_init_def ac_defs es_defs ac_init_def newly_sent_def ac_written_def ac_received_def
        es_started_def es_sent_def max_length_def overwrite_def)
  have "write_msgs ac_connected_demo = []" "ac_inflight ac_connected_demo = []"
    "ac_written ac_connected_demo = []" "on_receive ac_connected_demo" "ac_received ac_connected_demo = []"
    by (simp_all add: ac_connected_demo_def ac_init_def ac_inflight_def ac_written_def ac_received_def)
  from async_client_echo [OF l(1) this] l show ?thesis by simp
qed

fun tc_takes :: "tc_event \<Rightarrow> bytes" where
  "tc_takes (TC_read_done ec data peer) = (if ec_ok ec then data else [])"
| "tc_takes _ = []"

fun tc_calm :: "tc_event \<Rightarrow> tcp_client \<Rightarrow> bool" where
  "tc_calm (TC_call_send m) s = True"
| "tc_calm (TC_call_set r c) s = r"
| "tc_calm (TC_run_task i) s = True"
| "tc_calm (TC_read_done ec data peer) s = ec_ok ec"
| "tc_calm (TC_write_done m ec peer) s = ec_ok ec"
| "tc_calm _ s = False"

fun tc_received_of :: "tc_obs \<Rightarrow> bytes option" where
  "tc_received_of (TC_received m) = Some m"
| "tc_received_of _ = None"

definition tc_received :: "tcp_client \<Rightarrow> bytes" where
  "tc_received s = concat (picks tc_received_of (trace s))"

definition tc_listening :: "tcp_client \<Rightarrow> bool" where
  "tc_listening s \<longleftrightarrow> recv_cb s \<and> length (recv_msg s) = recv_size"

lemma tc_gives:
  assumes "tc_listening s" "tc_calm e s" "tc_step e s = Moves t"
  shows "tc_listening t \<and> tc_received t = tc_received s @ tc_takes e"
  using assms
  by (cases e) (auto simp: tc_defs tc_received_def tc_listening_def take_overwrite_0 split: tc_splits)

lemma tc_calm_unbroken: "tc_calm e s \<Longrightarrow> tc_label e s \<noteq> Breaks"
  by (cases e) (auto split: tc_task.splits)

interpretation tce: queue_client tc_step tc_label send_msgs tc_inflight tc_written
  tc_takes tc_calm tc_listening tc_received
  by unfold_locales (auto dest: tc_gives tc_calm_unbroken)

definition tcp_peer :: "(tc_event, tcp_client) peer" where
  "tcp_peer = queue_peer tc_step tc_written tc_takes tc_calm"

text \<open>
  The same of the asio-1.28 \<open>TcpClient\<close>, whose receive buffer keeps one byte of its 1024
  for a terminator and is cleared after every read.
\<close>

theorem tcp_client_echo:
  assumes "run (link_step tcp_peer echo_peer) es (link_init c (es_start (es_init mem))) = Moves l"
    and "send_msgs c = []" "tc_inflight c = []" "tc_written c = []"
    and "recv_cb c" "length (recv_msg c) = recv_size" "tc_received c = []"
  shows "concat (accepted tc_step tc_label (lefts es) c)
    = tc_received (lk_left l) @ to_left l @ to_right l @ concat (drop 1 (send_msgs (lk_left l)))"
  using tce.echo_exchange [OF assms(1) [unfolded tcp_peer_def]] assms(2-7)
  by (simp add: tce.fresh_def tc_listening_def)

definition tc_connected_demo :: tcp_client where
  "tc_connected_demo = (tc_new [''127.0.0.1:12345''])\<lparr>recv_cb := True, is_connected := CONNECTED,
     socket_used := True, pending := [TC_read]\<rparr>"

definition tcp_echo_events :: "(tc_event, es_event) link_event list" where
  "tcp_echo_events = [At_left (TC_call_send ''hey''), At_left (TC_run_task 0),
     At_right (ES_read_done success_code ''hey''), At_left (TC_read_done success_code ''he'' None)]"

theorem tcp_client_echo_witness:
  "\<exists>l. run (link_step tcp_peer echo_peer) tcp_echo_events
      (link_init tc_connected_demo (es_start (es_init (replicate 1024 NUL)))) = Moves l
    \<and> tc_received (lk_left l) = ''he'' \<and> to_left l = ''y''
    \<and> concat (accepted tc_step tc_label (lefts tcp_echo_events) tc_connected_demo) = ''hey''"
proof -
  obtain l where l: "run (link_step tcp_peer echo_peer) tcp_echo_events
      (link_init tc_connected_demo (es_start (es_init (replicate 1024 NUL)))) = Moves l"
      "tc_received (lk_left l) = ''he''" "to_left l = ''y''" "to_right l = []"
      "send_msgs (lk_left l) = [''hey'']"
    by (simp add: tcp_echo_events_def tc_connected_demo_def tcp_peer_def echo_peer_def queue_peer_def
        link_init_def tc_defs es_defs tc_new_def newly_sent_def tc_written_def tc_received_def
        es_started_def es_sent_def recv_size_def overwrite_def)
  have "send_msgs tc_connected_demo = []" "tc_inflight tc_connected_demo = []"
    "tc_written tc_connected_demo = []" "recv_cb tc_connected_demo"
    "length (recv_msg tc_connected_demo) = recv_size" "tc_received tc_connected_demo = []"
    by (simp_all add: tc_connected_demo_def tc_new_def tc_inflight_def tc_written_def tc_received_def)
  from tcp_client_echo [OF l(1) this] l show ?thesis by simp
qed

end
