(* ===== verification/Protocol_Session.thy ===== *)
theory Protocol_Session
  imports Framing Write_Queue
begin

unbundle bit_operations_syntax

text \<open>
  The multi-protocol server (\<^verbatim>\<open>asio-1.28_server_multi_protocol/src/test.cpp\<close>) up to its
  sessions: the protocol factory, the two data handlers, the three protocol handlers with
  their in-place parsing of the read buffer, and \<open>Session\<close> with its read and write loops.

  A protocol handler object is its class and frame size; \<open>protocol_epoch\<close> counts the
  objects \<open>protocol_\<close> has owned, so that the use of a handler that \<open>set_protocol\<close> has
  destroyed shows as \<open>Use_after_free\<close>. A data handler is its class. The factory is the
  map from names to creators, passed where the code reaches for its singleton.
\<close>

section \<open>The factory\<close>

datatype protocol =
    LineProtocolHandler
  | FixedLengthProtocolHandler nat
  | BinaryProtocolHandler

type_synonym protocol_factory = "string \<rightharpoonup> protocol"

definition register_protocol :: "string \<Rightarrow> protocol \<Rightarrow> protocol_factory \<Rightarrow> protocol_factory" where
  "register_protocol name creator protocols = protocols(name \<mapsto> creator)"

definition create_protocol :: "protocol_factory \<Rightarrow> string \<Rightarrow> protocol option" where
  "create_protocol protocols name =
     (case protocols name of Some creator \<Rightarrow> Some creator | None \<Rightarrow> None)"

definition available_protocols :: "protocol_factory \<Rightarrow> string set" where
  "available_protocols protocols = dom protocols"

definition register_protocols :: "protocol_factory \<Rightarrow> protocol_factory" where
  "register_protocols =
     register_protocol ''binary'' BinaryProtocolHandler
     \<circ> register_protocol ''fixed-256'' (FixedLengthProtocolHandler 256)
     \<circ> register_protocol ''fixed-128'' (FixedLengthProtocolHandler 128)
     \<circ> register_protocol ''line'' LineProtocolHandler"

fun protocol_name :: "protocol \<Rightarrow> string" where
  "protocol_name LineProtocolHandler = ''line''"
| "protocol_name (FixedLengthProtocolHandler n) = ''fixed-'' @ to_string n"
| "protocol_name BinaryProtocolHandler = ''binary''"

section \<open>The session\<close>

datatype data_handler = EchoHandler | ProtocolDetector

datatype mp_op = MP_read nat nat | MP_write bytes

datatype mp_task = MP_read_task | MP_write_task bytes

datatype mp_obs =
    MP_created string
  | MP_closed string
  | MP_message bytes
  | MP_wrote bytes
  | MP_socket_closed

record mp_session = "(mp_op, mp_task, mp_obs) aio" +
  data_handler :: "data_handler option"
  protocol :: "protocol option"
  protocol_epoch :: nat
  write_queue :: "bytes list"
  read_buffer :: bytes
  read_pos :: nat
  session_id :: string
  metadata :: "string \<rightharpoonup> string"

definition READ_BUFFER_SIZE :: nat where
  "READ_BUFFER_SIZE = 4096"

text \<open>The constructor; \<open>mem\<close> is the uninitialised storage of \<open>read_buffer_\<close>.\<close>

definition mp_session_init ::
    "protocol_factory \<Rightarrow> bytes \<Rightarrow> data_handler option \<Rightarrow> string \<Rightarrow> string \<Rightarrow> mp_session result" where
  "mp_session_init fac mem handler sid proto =
     (case create_protocol fac proto of
        None \<Rightarrow> Inl (Throws (''Unsupported protocol: '' @ proto))
      | Some p \<Rightarrow> Inr \<lparr>pending = [], posted = [], trace = [], data_handler = handler,
          protocol = Some p, protocol_epoch = 0, write_queue = [], read_buffer = mem,
          read_pos = 0, session_id = sid, metadata = Map.empty\<rparr>)"

definition set_metadata :: "string \<Rightarrow> string \<Rightarrow> mp_session \<Rightarrow> mp_session" where
  "set_metadata key v s = s\<lparr>metadata := (metadata s)(key \<mapsto> v)\<rparr>"

definition get_metadata :: "string \<Rightarrow> string \<Rightarrow> mp_session \<Rightarrow> string" where
  "get_metadata key default_value s =
     (case metadata s key of Some v \<Rightarrow> v | None \<Rightarrow> default_value)"

text \<open>Assigning the \<open>unique_ptr\<close> destroys the handler it held.\<close>

definition set_protocol :: "protocol option \<Rightarrow> mp_session \<Rightarrow> mp_session" where
  "set_protocol new_protocol s =
     s\<lparr>protocol := new_protocol, protocol_epoch := Suc (protocol_epoch s)\<rparr>"

definition safe_write :: "bytes \<Rightarrow> mp_session \<Rightarrow> mp_session" where
  "safe_write data s = post_task (MP_write_task data) s"

section \<open>The data handlers\<close>

definition starts_with :: "string \<Rightarrow> bytes \<Rightarrow> bool" where
  "starts_with p data \<longleftrightarrow> take (length p) data = p"

definition detect_protocol :: "protocol_factory \<Rightarrow> bytes \<Rightarrow> mp_session \<Rightarrow> bytes \<times> mp_session" where
  "detect_protocol fac data s =
     (if starts_with ''GET /'' data \<or> starts_with ''POST /'' data then
        let s = set_metadata ''protocol'' ''http'' s;
            s = (case create_protocol fac ''http'' of Some p \<Rightarrow> set_protocol (Some p) s | None \<Rightarrow> s)
        in (''Switched to HTTP protocol'', s)
      else
        let s = set_metadata ''protocol'' ''line'' s;
            s = (case create_protocol fac ''line'' of Some p \<Rightarrow> set_protocol (Some p) s | None \<Rightarrow> s)
        in (''Switched to Line protocol'', s))"

definition process_app_data ::
    "protocol_factory \<Rightarrow> data_handler \<Rightarrow> bytes \<Rightarrow> mp_session \<Rightarrow> bytes \<times> mp_session" where
  "process_app_data fac h data s =
     (case h of
        EchoHandler \<Rightarrow> (''Echo: '' @ data, s)
      | ProtocolDetector \<Rightarrow> detect_protocol fac data s)"

text \<open>
  \<open>on_session_created\<close>: the echo handler prints the remote endpoint, which asio throws for
  when the peer has already gone (\<open>peer = None\<close>).
\<close>

definition on_session_created ::
    "data_handler \<Rightarrow> string option \<Rightarrow> mp_session \<Rightarrow> mp_session result" where
  "on_session_created h peer s =
     (case h of
        EchoHandler \<Rightarrow>
          (if protocol s = None then Inl (Undefined Null_deref)
           else case peer of
             None \<Rightarrow> Inl (Throws ''remote_endpoint'')
           | Some ep \<Rightarrow> Inr (observe (MP_created (session_id s)) s))
      | ProtocolDetector \<Rightarrow> Inr (observe (MP_created (session_id s)) s))"

definition on_session_closed :: "string \<Rightarrow> mp_session \<Rightarrow> mp_session" where
  "on_session_closed reason s =
     (if data_handler s \<noteq> None then observe (MP_closed reason) s else s)"

section \<open>The protocol handlers\<close>

text \<open>
  \<open>process_line\<close>, \<open>process_frame\<close> and \<open>process_payload\<close> have the same body: ask the
  handler for a response and post its write. The message handed to the handler is
  observed.
\<close>

definition process_message :: "protocol_factory \<Rightarrow> bytes \<Rightarrow> mp_session \<Rightarrow> mp_session" where
  "process_message fac msg s =
     (case data_handler s of
        None \<Rightarrow> s
      | Some h \<Rightarrow>
          let (response, s) = process_app_data fac h msg (observe (MP_message msg) s)
          in safe_write response s)"

text \<open>
  The scan of the line protocol. \<open>e\<close> is the epoch at entry: calling a member function of
  a handler that was replaced meanwhile is a use after free. Decrementing a
  \<open>line_length\<close> of zero would wrap and make the string constructor throw.
\<close>

function line_scan ::
    "protocol_factory \<Rightarrow> nat \<Rightarrow> bytes \<Rightarrow> nat \<Rightarrow> nat \<Rightarrow> nat \<Rightarrow> nat \<Rightarrow> mp_session
      \<Rightarrow> (nat \<times> mp_session) result" where
  "line_scan fac e data len i start processed s =
     (if i < len then
        if data ! i = LF then
          if i > 0 \<and> data ! (i - 1) = CR \<and> i = start then Inl (Throws ''length_error'')
          else
            let line_length = (if i > 0 \<and> data ! (i - 1) = CR then i - start - 1 else i - start);
                line = segment data start line_length
            in if protocol_epoch s \<noteq> e then Inl (Undefined Use_after_free)
               else line_scan fac e data len (Suc i) (Suc i) (Suc i) (process_message fac line s)
        else line_scan fac e data len (Suc i) start processed s
      else Inr (processed, s))"
  by pat_completeness auto
termination
  by (relation "measure (\<lambda>(fac, e, data, len, i, start, processed, s). len - i)") auto

declare line_scan.simps [simp del]

definition line_process_data ::
    "protocol_factory \<Rightarrow> bytes \<Rightarrow> nat \<Rightarrow> mp_session \<Rightarrow> (nat \<times> mp_session) result" where
  "line_process_data fac data len s = line_scan fac (protocol_epoch s) data len 0 0 0 s"

text \<open>\<open>return frame_size_\<close> reads a member after the callback.\<close>

definition fixed_process_data ::
    "nat \<Rightarrow> protocol_factory \<Rightarrow> bytes \<Rightarrow> nat \<Rightarrow> mp_session \<Rightarrow> (nat \<times> mp_session) result" where
  "fixed_process_data frame_size fac data len s =
     (if len < frame_size then Inr (0, s)
      else
        let t = process_message fac (segment data 0 frame_size) s
        in if protocol_epoch t \<noteq> protocol_epoch s then Inl (Undefined Use_after_free)
           else Inr (frame_size, t))"

text \<open>
  The payload length is a \<open>uint32_t\<close>, so \<open>4 + payload_length\<close> is computed in 32 bits;
  \<open>std::string payload(data + 4, payload_length)\<close> reads that many bytes of the buffer.
\<close>

definition binary_process_data ::
    "protocol_factory \<Rightarrow> bytes \<Rightarrow> nat \<Rightarrow> mp_session \<Rightarrow> (nat \<times> mp_session) result" where
  "binary_process_data fac data len s =
     (if len < 4 then Inr (0, s)
      else
        let payload_length = be32_value data
        in if len < unat (4 + payload_length) then Inr (0, s)
           else if length data < 4 + unat payload_length then Inl (Undefined Out_of_bounds)
           else Inr (unat (4 + payload_length),
                  process_message fac (segment data 4 (unat payload_length)) s))"

definition process_data ::
    "protocol_factory \<Rightarrow> protocol \<Rightarrow> bytes \<Rightarrow> nat \<Rightarrow> mp_session \<Rightarrow> (nat \<times> mp_session) result" where
  "process_data fac p =
     (case p of
        LineProtocolHandler \<Rightarrow> line_process_data fac
      | FixedLengthProtocolHandler n \<Rightarrow> fixed_process_data n fac
      | BinaryProtocolHandler \<Rightarrow> binary_process_data fac)"

definition line_prepare_send :: "bytes \<Rightarrow> bytes" where
  "line_prepare_send data = data @ [CR, LF]"

definition fixed_prepare_send :: "nat \<Rightarrow> bytes \<Rightarrow> bytes" where
  "fixed_prepare_send frame_size data =
     (if length data \<ge> frame_size then take frame_size data else resize data frame_size)"

definition binary_prepare_send :: "bytes \<Rightarrow> bytes result" where
  "binary_prepare_send data =
     (let len = (of_nat (length data) :: u32);
          out = replicate (unat (4 + len)) NUL
      in rbind (memcpy_in 0 (be32_bytes len) out) (memcpy_in 4 data))"

definition prepare_send :: "protocol \<Rightarrow> bytes \<Rightarrow> bytes result" where
  "prepare_send p data =
     (case p of
        LineProtocolHandler \<Rightarrow> Inr (line_prepare_send data)
      | FixedLengthProtocolHandler n \<Rightarrow> Inr (fixed_prepare_send n data)
      | BinaryProtocolHandler \<Rightarrow> binary_prepare_send data)"

section \<open>The session's loops\<close>

definition mp_do_read :: "mp_session \<Rightarrow> mp_session" where
  "mp_do_read s = initiate (MP_read (read_pos s) (READ_BUFFER_SIZE - read_pos s)) s"

definition mp_start :: "string option \<Rightarrow> mp_session \<Rightarrow> mp_session result" where
  "mp_start peer s =
     rbind (case data_handler s of None \<Rightarrow> Inr s | Some h \<Rightarrow> on_session_created h peer s)
       (\<lambda>s. Inr (post_task MP_read_task s))"

text \<open>The removal of the processed bytes, with \<open>read_pos_ -= processed\<close> in \<open>size_t\<close>.\<close>

definition discard_processed :: "nat \<Rightarrow> mp_session \<Rightarrow> mp_session result" where
  "discard_processed processed s =
     (if processed > 0 then
        rbind (if processed < read_pos s
               then memmove_within 0 processed (read_pos s - processed) (read_buffer s)
               else Inr (read_buffer s))
          (\<lambda>buf. Inr (s\<lparr>read_buffer := buf,
             read_pos := unat (of_nat (read_pos s) - of_nat processed :: u64)\<rparr>))
      else Inr s)"

text \<open>asio stores the received bytes at the address it was given before the handler runs.\<close>

definition store_read :: "nat \<Rightarrow> bytes \<Rightarrow> mp_session \<Rightarrow> mp_session" where
  "store_read pos data s = s\<lparr>read_buffer := overwrite (read_buffer s) pos data\<rparr>"

definition mp_on_read ::
    "protocol_factory \<Rightarrow> error_code \<Rightarrow> nat \<Rightarrow> mp_session \<Rightarrow> mp_session result" where
  "mp_on_read fac ec len s =
     (if ec_ok ec then
        let s = s\<lparr>read_pos := read_pos s + len\<rparr>
        in case protocol s of
             None \<Rightarrow> Inl (Undefined Null_deref)
           | Some p \<Rightarrow>
               rbind (process_data fac p (read_buffer s) (read_pos s) s) (\<lambda>(processed, s).
               rbind (discard_processed processed s) (\<lambda>s. Inr (mp_do_read s)))
      else if is_eof ec then Inr (on_session_closed ''Client disconnected'' s)
      else Inr (on_session_closed (''Read error: '' @ ec_message ec) s))"

definition start_writing :: "mp_session \<Rightarrow> mp_session result" where
  "start_writing s =
     (case write_queue s of
        [] \<Rightarrow> Inl (Undefined Empty_container)
      | buf # _ \<Rightarrow> Inr (observe (MP_wrote buf) (initiate (MP_write buf) s)))"

definition mp_on_write :: "error_code \<Rightarrow> mp_session \<Rightarrow> mp_session result" where
  "mp_on_write ec s =
     (if ec_ok ec then
        (case write_queue s of
           [] \<Rightarrow> Inl (Undefined Empty_container)
         | _ # bufs \<Rightarrow>
             (let s = s\<lparr>write_queue := bufs\<rparr> in
              if bufs \<noteq> [] then start_writing s else Inr s))
      else
        let s = on_session_closed (''Write error: '' @ ec_message ec) s
        in Inr (observe MP_socket_closed (s\<lparr>write_queue := []\<rparr>)))"

definition mp_write_task :: "bytes \<Rightarrow> mp_session \<Rightarrow> mp_session result" where
  "mp_write_task data s =
     (case protocol s of
        None \<Rightarrow> Inl (Undefined Null_deref)
      | Some p \<Rightarrow>
          rbind (prepare_send p data) (\<lambda>buf.
            let write_in_progress = write_queue s \<noteq> [];
                s = s\<lparr>write_queue := write_queue s @ [buf]\<rparr>
            in if \<not> write_in_progress then start_writing s else Inr s))"

definition mp_destroy :: "mp_session \<Rightarrow> mp_session" where
  "mp_destroy s = on_session_closed ''Destructor called'' s"

section \<open>Steps\<close>

text \<open>
  The server calls \<open>start\<close> once, before anything else; afterwards the session moves by
  the tasks and handlers the \<open>io_context\<close> runs and by calls of \<open>safe_write\<close>.
\<close>

datatype mp_event =
    MP_call_safe_write bytes
  | MP_run_task nat
  | MP_read_done nat nat error_code bytes
  | MP_write_done bytes error_code

definition mp_run_task :: "mp_task \<Rightarrow> mp_session \<Rightarrow> mp_session result" where
  "mp_run_task k s =
     (case k of MP_read_task \<Rightarrow> Inr (mp_do_read s) | MP_write_task data \<Rightarrow> mp_write_task data s)"

fun mp_step :: "protocol_factory \<Rightarrow> mp_event \<Rightarrow> mp_session \<Rightarrow> mp_session outcome" where
  "mp_step fac (MP_call_safe_write data) s = Moves (safe_write data s)"
| "mp_step fac (MP_run_task i) s =
     (if i < length (posted s) then outcome_of (mp_run_task (posted s ! i) (take_task i s))
      else Disabled)"
| "mp_step fac (MP_read_done pos n ec data) s =
     (if MP_read pos n \<in> set (pending s) \<and> length data \<le> n
      then outcome_of (mp_on_read fac ec (length data)
        (store_read pos data (finish_op (MP_read pos n) s))) else Disabled)"
| "mp_step fac (MP_write_done buf ec) s =
     (if MP_write buf \<in> set (pending s)
      then outcome_of (mp_on_write ec (finish_op (MP_write buf) s)) else Disabled)"

end
