(* ===== verification/Protocol_Lines.thy ===== *)
theory Protocol_Lines
  imports Protocol_Session
begin

text \<open>
  The line protocol. The in-place scan of \<open>LineProtocolHandler::process_data\<close> is proved
  equal to cutting the stream into lines (\<open>take_lines\<close>), first for one call, then for a
  whole session: whatever the sizes of the reads and whatever happens on the write side in
  between, the handler is given exactly the lines of the bytes received so far.
\<close>

section \<open>One scan\<close>

definition replaces_protocol :: "mp_session \<Rightarrow> bool" where
  "replaces_protocol s \<longleftrightarrow> data_handler s = Some ProtocolDetector"

lemma process_message_echo:
  "data_handler s = Some EchoHandler \<Longrightarrow>
   process_message fac m s = post_task (MP_write_task (''Echo: '' @ m)) (observe (MP_message m) s)"
  by (simp add: process_message_def process_app_data_def safe_write_def aio_defs)

lemma process_message_frame:
  assumes "\<not> replaces_protocol s"
  shows "protocol_epoch (process_message fac m s) = protocol_epoch s"
    and "\<not> replaces_protocol (process_message fac m s)"
  using assms
  by (auto simp: process_message_def process_app_data_def safe_write_def aio_defs
      replaces_protocol_def split: option.splits data_handler.splits)

lemma segment_Suc:
  assumes "start \<le> i" "i < length data"
  shows "segment data start (Suc i - start) = segment data start (i - start) @ [data ! i]"
  using assms by (simp add: segment_def Suc_diff_le take_Suc_conv_app_nth)

lemma segment_Cons:
  assumes "i < len" "len \<le> length data"
  shows "segment data i (len - i) = data ! i # segment data (Suc i) (len - Suc i)"
  using assms by (simp add: segment_def Cons_nth_drop_Suc [symmetric] Suc_diff_Suc [symmetric]
      del: Suc_diff_Suc)

text \<open>The line the scan cuts out is the stripped line, and its length never underflows.\<close>

lemma scanned_line:
  assumes "start \<le> i" "i < length data" "start = 0 \<or> data ! (start - 1) = LF"
  shows "\<not> (i > 0 \<and> data ! (i - 1) = CR \<and> i = start)"
    and "segment data start (if i > 0 \<and> data ! (i - 1) = CR then i - start - 1 else i - start)
      = strip_cr (segment data start (i - start))"
proof -
  show a: "\<not> (i > 0 \<and> data ! (i - 1) = CR \<and> i = start)"
    using assms(3) by auto
  show "segment data start (if i > 0 \<and> data ! (i - 1) = CR then i - start - 1 else i - start)
      = strip_cr (segment data start (i - start))"
  proof (cases "i = start")
    case True
    with a show ?thesis by (auto simp: strip_cr_def segment_def)
  next
    case False
    then obtain k where k: "i = Suc k" "start \<le> k"
      using assms(1) by (cases i) auto
    then have "segment data start (i - start) = segment data start (k - start) @ [data ! k]"
      using segment_Suc [of start k data] assms(2) by simp
    with k show ?thesis by (simp add: strip_cr_def)
  qed
qed

lemma line_scan_lines:
  assumes "start \<le> i" "i \<le> len" "len \<le> length data"
    and "start = 0 \<or> data ! (start - 1) = LF"
    and "\<not> replaces_protocol s" "protocol_epoch s = e"
    and "T = take_lines (segment data start (i - start)) (segment data i (len - i))"
  shows "line_scan fac e data len i start start s
    = Inr (len - length (snd T), fold (process_message fac) (fst T) s)"
  using assms
proof (induction "len - i" arbitrary: i start s T)
  case 0
  then have "i = len" by simp
  with 0 show ?case
    by (simp add: line_scan.simps [of fac e data len len] segment_0)
next
  case (Suc n)
  then have i: "i < len" "i < length data" by simp_all
  note seg = segment_Cons [OF i(1) Suc.prems(3)]
  show ?case
  proof (cases "data ! i = LF")
    case True
    let ?line = "strip_cr (segment data start (i - start))"
    let ?T = "take_lines (segment data (Suc i) 0) (segment data (Suc i) (len - Suc i))"
    have ih: "line_scan fac e data len (Suc i) (Suc i) (Suc i) (process_message fac ?line s)
      = Inr (len - length (snd ?T), fold (process_message fac) (fst ?T) (process_message fac ?line s))"
      using Suc.hyps(1) [of "Suc i" "Suc i" "process_message fac ?line s" ?T] Suc.hyps(2) i(1) Suc.prems True
        process_message_frame [OF Suc.prems(5)] by simp
    have T: "T = (?line # fst ?T, snd ?T)"
      using Suc.prems(7) True by (simp add: seg segment_0)
    show ?thesis
      using ih T True i(1) Suc.prems(6) scanned_line [OF Suc.prems(1) i(2) Suc.prems(4)]
      by (subst line_scan.simps) (simp add: Let_def)
  next
    case False
    have "T = take_lines (segment data start (Suc i - start)) (segment data (Suc i) (len - Suc i))"
      using Suc.prems(7) False segment_Suc [OF Suc.prems(1) i(2)] by (simp add: seg)
    then have "line_scan fac e data len (Suc i) start start s
      = Inr (len - length (snd T), fold (process_message fac) (fst T) s)"
      using Suc.hyps(1) [of "Suc i" start s T] Suc.hyps(2) i(1) Suc.prems by simp
    then show ?thesis
      using False i(1) by (subst line_scan.simps) simp
  qed
qed

lemma line_process_data_eq:
  assumes "len \<le> length data" "\<not> replaces_protocol s"
  shows "line_process_data fac data len s =
    Inr (len - length (snd (take_lines [] (take len data))),
         fold (process_message fac) (fst (take_lines [] (take len data))) s)"
  using line_scan_lines [of 0 0 len data s "protocol_epoch s", OF _ _ _ _ _ _ refl] assms
  by (simp add: line_process_data_def segment_0 segment_from_0)

text \<open>
  The scan of the line protocol. On a buffer with \<open>len\<close> received bytes it hands the
  handler exactly the complete lines among them, each without its line feed and one
  carriage return before it, in order, and reports as processed everything but the
  unfinished last line; no line length underflows and no access leaves the buffer.
\<close>

theorem line_process_data_lines:
  assumes "len \<le> length data" "\<not> replaces_protocol s"
  shows "line_process_data fac data len s =
    Inr (len - length (snd (take_lines [] (take len data))),
         fold (process_message fac) (fst (take_lines [] (take len data))) s)"
  by (rule line_process_data_eq [OF assms])

text \<open>A session for the examples, with a zeroed buffer and \<open>start\<close> already called.\<close>

definition mp_demo :: "protocol \<Rightarrow> data_handler \<Rightarrow> nat \<Rightarrow> mp_session" where
  "mp_demo p h n = \<lparr>pending = [], posted = [MP_read_task], trace = [], data_handler = Some h,
     protocol = Some p, protocol_epoch = 0, write_queue = [], read_buffer = replicate n NUL,
     read_pos = 0, session_id = ''SESS'', metadata = Map.empty\<rparr>"

theorem line_process_data_lines_witness:
  "line_process_data Map.empty (''ab'' @ [CR, LF, LF] @ ''c'') 6 (mp_demo LineProtocolHandler EchoHandler 0)
     = Inr (5, fold (process_message Map.empty) [''ab'', ''''] (mp_demo LineProtocolHandler EchoHandler 0))"
proof -
  have ok: "6 \<le> length (''ab'' @ [CR, LF, LF] @ ''c'')"
      "\<not> replaces_protocol (mp_demo LineProtocolHandler EchoHandler 0)"
    by (simp_all add: replaces_protocol_def mp_demo_def)
  show ?thesis
    unfolding line_process_data_lines [OF ok] by (simp add: strip_cr_def)
qed

end
