(* ===== verification/Protocol_Stream.thy ===== *)
theory Protocol_Stream
  imports Protocol_Lines
begin

text \<open>
  The read side of a session refined to a stream parser. \<open>parse\<close> is the reference of the
  three protocol handlers: the messages they take from the front of the buffered bytes,
  and how many bytes that consumes. \<open>feed\<close> is the abstract session: it appends a chunk
  and parses. The session's whole read side (the fixed array, \<open>read_pos_\<close>, the scan, the
  \<open>memmove\<close>, the size of the next read) is proved to simulate it for every run, with
  writes, posted tasks and errors in any order between the reads.
\<close>

section \<open>The reference parser\<close>

fun parse :: "protocol \<Rightarrow> bytes \<Rightarrow> bytes list \<times> nat" where
  "parse LineProtocolHandler bs =
     (fst (take_lines [] bs), length bs - length (snd (take_lines [] bs)))"
| "parse (FixedLengthProtocolHandler n) bs =
     (if length bs < n then ([], 0) else ([take n bs], n))"
| "parse BinaryProtocolHandler bs =
     (if length bs < 4 \<or> length bs < 4 + unat (be32_value bs) then ([], 0)
      else ([segment bs 4 (unat (be32_value bs))], 4 + unat (be32_value bs)))"

definition feed :: "protocol \<Rightarrow> bytes list \<times> bytes \<Rightarrow> bytes \<Rightarrow> bytes list \<times> bytes" where
  "feed p st chunk =
     (let bs = snd st @ chunk in (fst st @ fst (parse p bs), drop (snd (parse p bs)) bs))"

lemma parse_le: "snd (parse p bs) \<le> length bs"
  by (cases p) auto

section \<open>The handlers implement it\<close>

lemma fold_process_message_echo:
  assumes "data_handler s = Some EchoHandler"
  shows "fold (process_message fac) ms s =
    s\<lparr>posted := posted s @ map (\<lambda>m. MP_write_task (''Echo: '' @ m)) ms,
      trace := trace s @ map MP_message ms\<rparr>"
  using assms
proof (induction ms arbitrary: s)
  case Nil
  then show ?case by simp
next
  case (Cons m ms)
  then show ?case
    by (simp add: process_message_echo aio_defs)
qed

lemma be32_value_take: "4 \<le> len \<Longrightarrow> be32_value (take len data) = be32_value data"
  by (simp add: be32_value_def)

lemma length_plus_4: "unat w + 4 < 2 ^ 32 \<Longrightarrow> unat (4 + w :: u32) = 4 + unat w"
  by (simp add: unat_word_ariths)

lemma process_data_parse:
  assumes "data_handler s = Some EchoHandler" "len \<le> length data" "length data < 2 ^ 32"
    and "process_data fac p data len s = Inr (k, t)"
  shows "k = snd (parse p (take len data))
    \<and> t = fold (process_message fac) (fst (parse p (take len data))) s"
proof (cases p)
  case LineProtocolHandler
  have nr: "\<not> replaces_protocol s"
    using assms(1) by (simp add: replaces_protocol_def)
  show ?thesis
    using assms(4) LineProtocolHandler
    by (auto simp: process_data_def line_process_data_eq [OF assms(2) nr] min_absorb2 [OF assms(2)])
next
  case (FixedLengthProtocolHandler n)
  then show ?thesis
    using assms
    by (auto simp: process_data_def fixed_process_data_def Let_def segment_from_0 split: if_splits)
next
  case BinaryProtocolHandler
  show ?thesis
  proof (cases "len < 4 \<or> len < unat (4 + be32_value data)")
    case True
    then have "k = 0 \<and> t = s"
      using assms(4) BinaryProtocolHandler
      by (auto simp: process_data_def binary_process_data_def Let_def split: if_splits)
    moreover have "len < 4 \<or> len < 4 + unat (be32_value (take len data))"
    proof (cases "len < 4")
      case big: False
      then have "len < unat (4 + be32_value data)"
        using True by simp
      then show ?thesis
        using length_plus_4 [of "be32_value data"] assms(2,3) big
        by (cases "unat (be32_value data) + 4 < 2 ^ 32") (auto simp: be32_value_take)
    qed simp
    ultimately show ?thesis
      using BinaryProtocolHandler by (auto simp: min_absorb2 [OF assms(2)])
  next
    case False
    then have r: "4 + unat (be32_value data) \<le> length data"
        "k = unat (4 + be32_value data)"
        "t = process_message fac (segment data 4 (unat (be32_value data))) s"
      using assms(4) BinaryProtocolHandler
      by (auto simp: process_data_def binary_process_data_def Let_def split: if_splits)
    then have k: "k = 4 + unat (be32_value data)"
      using length_plus_4 [of "be32_value data"] assms(3) by simp
    then have "segment (take len data) 4 (unat (be32_value data)) = segment data 4 (unat (be32_value data))"
      using False r(2) by (auto simp: segment_def drop_take min_def)
    with r k False show ?thesis
      using assms(2) BinaryProtocolHandler by (simp add: min_def be32_value_take)
  qed
qed

section \<open>The session simulates it\<close>

fun mp_message_of :: "mp_obs \<Rightarrow> bytes option" where
  "mp_message_of (MP_message m) = Some m"
| "mp_message_of x = None"

fun mp_read_of :: "mp_op \<Rightarrow> (nat \<times> nat) option" where
  "mp_read_of (MP_read pos n) = Some (pos, n)"
| "mp_read_of x = None"

definition messages :: "mp_session \<Rightarrow> bytes list" where
  "messages s = picks mp_message_of (trace s)"

definition buffered :: "mp_session \<Rightarrow> bytes" where
  "buffered s = take (read_pos s) (read_buffer s)"

definition mp_reads :: "mp_session \<Rightarrow> (nat \<times> nat) list" where
  "mp_reads s = picks mp_read_of (pending s)"

definition mp_read_tasks :: "mp_session \<Rightarrow> mp_task list" where
  "mp_read_tasks s = filter (\<lambda>k. k = MP_read_task) (posted s)"

text \<open>One read is outstanding, into the free part of the buffer, or one is about to be.\<close>

definition mp_read_inv :: "protocol \<Rightarrow> mp_session \<Rightarrow> bool" where
  "mp_read_inv p s \<longleftrightarrow> data_handler s = Some EchoHandler \<and> protocol s = Some p
     \<and> length (read_buffer s) = READ_BUFFER_SIZE \<and> read_pos s \<le> READ_BUFFER_SIZE
     \<and> (mp_reads s = [] \<and> length (mp_read_tasks s) \<le> 1
        \<or> mp_reads s = [(read_pos s, READ_BUFFER_SIZE - read_pos s)] \<and> mp_read_tasks s = [])"

definition mp_simulates :: "protocol \<Rightarrow> bytes list \<Rightarrow> mp_session \<Rightarrow> bool" where
  "mp_simulates p chunks s \<longleftrightarrow> mp_read_inv p s
     \<and> (messages s, buffered s) = foldl (feed p) ([], []) chunks"

fun mp_chunk :: "mp_event \<Rightarrow> mp_session \<Rightarrow> bytes list" where
  "mp_chunk (MP_read_done pos n ec data) s = (if ec_ok ec then [data] else [])"
| "mp_chunk _ s = []"

lemma mp_read_of_inj: "mp_read_of y = Some (pos, n) \<Longrightarrow> y = MP_read pos n"
  by (cases y) simp_all

lemma mp_reads_remove:
  "picks mp_read_of (remove1 (MP_read pos n) ops) = remove1 (pos, n) (picks mp_read_of ops)"
  "picks mp_read_of (remove1 (MP_write buf) ops) = picks mp_read_of ops"
  by (simp_all add: picks_remove1_same picks_remove1_other mp_read_of_inj)

lemma picks_map_messages [simp]: "picks mp_message_of (map MP_message ms) = ms"
  by (induction ms) simp_all

lemma discard_processed_ok:
  assumes "k \<le> read_pos s" "read_pos s \<le> length (read_buffer s)" "length (read_buffer s) < 2 ^ 64"
  obtains t where "discard_processed k s = Inr t" "buffered t = drop k (buffered s)"
    "length (read_buffer t) = length (read_buffer s)" "read_pos t = read_pos s - k"
    "t = s\<lparr>read_buffer := read_buffer t, read_pos := read_pos t\<rparr>"
proof -
  let ?n = "read_pos s - k"
  let ?buf = "if 0 < k \<and> k < read_pos s then overwrite (read_buffer s) 0 (segment (read_buffer s) k ?n)
    else read_buffer s"
  let ?t = "s\<lparr>read_buffer := ?buf, read_pos := ?n\<rparr>"
  have "unat (of_nat (read_pos s) - of_nat k :: u64) = ?n"
    using assms by (simp add: unat_simps)
  then have "discard_processed k s = Inr ?t"
    using assms by (auto simp: discard_processed_def memmove_within_def)
  moreover have "buffered ?t = drop k (buffered s)"
    using assms by (auto simp: buffered_def segment_simps segment_def drop_take)
  ultimately show thesis
    using assms by (intro that [of ?t]) auto
qed

lemma mp_read_tasks_echo [simp]:
  "filter (\<lambda>k. k = MP_read_task) (map (\<lambda>m. MP_write_task (''Echo: '' @ m)) ms) = []"
  by (induction ms) simp_all

text \<open>Processing and discarding: the messages leave the front of the buffered bytes.\<close>

lemma process_and_discard:
  assumes "data_handler u = Some EchoHandler" "length (read_buffer u) = READ_BUFFER_SIZE"
    and "read_pos u \<le> READ_BUFFER_SIZE"
    and "process_data fac p (read_buffer u) (read_pos u) u = Inr (k, v)"
    and "discard_processed k v = Inr w"
  shows "buffered w = drop (snd (parse p (buffered u))) (buffered u)"
    and "messages w = messages u @ fst (parse p (buffered u))"
    and "mp_read_tasks w = mp_read_tasks u" "pending w = pending u"
    and "data_handler w = Some EchoHandler" "protocol w = protocol u"
    and "length (read_buffer w) = READ_BUFFER_SIZE" "read_pos w \<le> READ_BUFFER_SIZE"
proof -
  have k: "k = snd (parse p (buffered u))"
    and v: "v = fold (process_message fac) (fst (parse p (buffered u))) u"
    using process_data_parse [OF assms(1) _ _ assms(4)] assms(2,3)
    by (simp_all add: buffered_def READ_BUFFER_SIZE_def)
  have v': "buffered v = buffered u" "read_pos v = read_pos u" "read_buffer v = read_buffer u"
      "messages v = messages u @ fst (parse p (buffered u))" "mp_read_tasks v = mp_read_tasks u"
      "pending v = pending u" "data_handler v = Some EchoHandler" "protocol v = protocol u"
    unfolding v fold_process_message_echo [OF assms(1)]
    by (simp_all add: buffered_def messages_def mp_read_tasks_def assms(1))
  have "k \<le> read_pos v"
    using parse_le [of p "buffered u"] assms(2,3) by (simp add: k v' buffered_def)
  then obtain w' where w': "discard_processed k v = Inr w'" "buffered w' = drop k (buffered v)"
      "length (read_buffer w') = READ_BUFFER_SIZE" "read_pos w' = read_pos v - k"
      "w' = v\<lparr>read_buffer := read_buffer w', read_pos := read_pos w'\<rparr>"
    using discard_processed_ok [of k v] assms(2,3) v' by (auto simp: READ_BUFFER_SIZE_def)
  have ww: "w' = w" using assms(5) w'(1) by simp
  note w = w'(2-5) [unfolded ww]
  show "buffered w = drop (snd (parse p (buffered u))) (buffered u)"
      "length (read_buffer w) = READ_BUFFER_SIZE" "read_pos w \<le> READ_BUFFER_SIZE"
    using w v' k assms(3) by simp_all
  show "messages w = messages u @ fst (parse p (buffered u))"
      "mp_read_tasks w = mp_read_tasks u" "pending w = pending u"
      "data_handler w = Some EchoHandler" "protocol w = protocol u"
    by (subst w(4), simp add: messages_def mp_read_tasks_def v' [unfolded messages_def mp_read_tasks_def])+
qed

lemma mp_on_read_Inr:
  assumes "mp_on_read fac ec len s = Inr t" "ec_ok ec" "protocol s = Some p"
  obtains k v w where
    "process_data fac p (read_buffer s) (read_pos s + len) (s\<lparr>read_pos := read_pos s + len\<rparr>) = Inr (k, v)"
    "discard_processed k v = Inr w" "t = mp_do_read w"
  using assms by (auto simp: mp_on_read_def Let_def rbind_Inr_iff)

text \<open>A read that completes: one chunk is fed, and the next read starts.\<close>

lemma mp_on_read_feeds:
  assumes "mp_read_inv p s" "MP_read pos n \<in> set (pending s)" "length data \<le> n" "ec_ok ec"
    and "mp_on_read fac ec (length data) (store_read pos data (finish_op (MP_read pos n) s)) = Inr t"
  shows "mp_read_inv p t \<and> (messages t, buffered t) = feed p (messages s, buffered s) data"
proof -
  have "(pos, n) \<in> set (mp_reads s)"
    using assms(2) picks_mem [of mp_read_of "MP_read pos n" "(pos, n)"] by (simp add: mp_reads_def)
  with assms(1) have inv: "data_handler s = Some EchoHandler" "protocol s = Some p"
      "length (read_buffer s) = READ_BUFFER_SIZE" "read_pos s \<le> READ_BUFFER_SIZE"
      "mp_reads s = [(pos, n)]" "mp_read_tasks s = []" "pos = read_pos s"
      "n = READ_BUFFER_SIZE - pos"
    by (auto simp: mp_read_inv_def)
  define u where "u = (store_read pos data (finish_op (MP_read pos n) s))\<lparr>read_pos := read_pos s + length data\<rparr>"
  have u: "data_handler u = Some EchoHandler" "length (read_buffer u) = READ_BUFFER_SIZE"
      "read_pos u \<le> READ_BUFFER_SIZE" "buffered u = buffered s @ data" "messages u = messages s"
      "protocol u = Some p" "mp_read_tasks u = []" "mp_reads u = []"
    using inv assms(3)
    by (simp_all add: u_def buffered_def store_read_def aio_defs take_overwrite_append
        messages_def mp_read_tasks_def mp_reads_def mp_reads_remove)
  have s0: "protocol (store_read pos data (finish_op (MP_read pos n) s)) = Some p"
      "read_pos (store_read pos data (finish_op (MP_read pos n) s)) + length data = read_pos u"
      "read_buffer (store_read pos data (finish_op (MP_read pos n) s)) = read_buffer u"
      "(store_read pos data (finish_op (MP_read pos n) s))\<lparr>read_pos := read_pos u\<rparr> = u"
    using inv(2) by (simp_all add: u_def store_read_def aio_defs)
  obtain k v w where "process_data fac p (read_buffer u) (read_pos u) u = Inr (k, v)"
      and "discard_processed k v = Inr w" and t: "t = mp_do_read w"
    using mp_on_read_Inr [OF assms(5,4) s0(1)] unfolding s0 by metis
  note w = process_and_discard [OF u(1-3) this(1,2)]
  have "mp_read_inv p t"
    using w u(6-8)
    by (simp add: mp_read_inv_def t mp_do_read_def aio_defs mp_reads_def mp_read_tasks_def)
  moreover have "messages t = messages w" "buffered t = buffered w"
    by (simp_all add: t mp_do_read_def aio_defs messages_def buffered_def)
  ultimately show ?thesis
    using u(4,5) w(1,2) by (simp add: feed_def Let_def)
qed

text \<open>Every other step leaves the read side alone.\<close>

lemma mp_read_tasks_take:
  assumes "i < length (posted s)"
  shows "length (mp_read_tasks s) = length (mp_read_tasks (take_task i s))
    + (if posted s ! i = MP_read_task then 1 else 0)"
  using filter_remove_nth [OF assms, of "\<lambda>k. k = MP_read_task"]
  by (simp add: mp_read_tasks_def take_task_def)

lemma take_overwrite_before: "n \<le> i \<Longrightarrow> i \<le> length xs \<Longrightarrow> take n (overwrite xs i ys) = take n xs"
  by (simp add: overwrite_def)

named_theorems mp_defs

lemmas [mp_defs] = aio_defs mp_run_task_def mp_do_read_def mp_write_task_def start_writing_def
  mp_on_write_def on_session_closed_def safe_write_def Let_def rbind_Inr_iff

lemmas mp_splits = if_splits list.splits option.splits mp_task.splits

text \<open>The fields the read side consists of; the writes and the errors change none of them.\<close>

definition same_read_side :: "mp_session \<Rightarrow> mp_session \<Rightarrow> bool" where
  "same_read_side s t \<longleftrightarrow> data_handler t = data_handler s \<and> protocol t = protocol s
     \<and> read_buffer t = read_buffer s \<and> read_pos t = read_pos s \<and> mp_reads t = mp_reads s
     \<and> mp_read_tasks t = mp_read_tasks s \<and> messages t = messages s"

lemma same_read_side_write_task:
  "mp_write_task data s = Inr t \<Longrightarrow> same_read_side s t"
  by (auto simp: same_read_side_def mp_defs mp_reads_def mp_read_tasks_def messages_def
      split: mp_splits)

lemma same_read_side_on_write:
  "mp_on_write ec (finish_op (MP_write buf) s) = Inr t \<Longrightarrow> same_read_side s t"
  by (auto simp: same_read_side_def mp_defs mp_reads_def mp_reads_remove mp_read_tasks_def
      messages_def split: mp_splits)

lemma same_read_side_safe_write: "same_read_side s (safe_write data s)"
  by (simp add: same_read_side_def mp_defs mp_reads_def mp_read_tasks_def messages_def)

lemma mp_simulates_frame:
  assumes "same_read_side s t" "mp_simulates p chunks s"
  shows "mp_simulates p chunks t"
  using assms by (simp add: same_read_side_def mp_simulates_def mp_read_inv_def buffered_def)

lemma mp_simulates_run_task:
  assumes "mp_simulates p chunks s" "i < length (posted s)"
    and "mp_run_task (posted s ! i) (take_task i s) = Inr t"
  shows "mp_simulates p chunks t"
proof (cases "posted s ! i")
  case MP_read_task
  then have "length (mp_read_tasks s) = Suc (length (mp_read_tasks (take_task i s)))"
    using mp_read_tasks_take [OF assms(2)] by simp
  then show ?thesis
    using assms(1,3) MP_read_task
    by (auto simp: mp_simulates_def mp_read_inv_def mp_defs mp_reads_def mp_read_tasks_def
        messages_def buffered_def)
next
  case (MP_write_task data)
  then have "length (mp_read_tasks (take_task i s)) = length (mp_read_tasks s)"
    using mp_read_tasks_take [OF assms(2)] by simp
  then have "mp_simulates p chunks (take_task i s)"
    using assms(1)
    by (auto simp: mp_simulates_def mp_read_inv_def take_task_def mp_reads_def messages_def
        buffered_def)
  with same_read_side_write_task show ?thesis
    using assms(3) MP_write_task by (auto simp: mp_run_task_def intro: mp_simulates_frame)
qed

lemma mp_simulates_read_error:
  assumes "mp_simulates p chunks s" "MP_read pos n \<in> set (pending s)" "length data \<le> n" "\<not> ec_ok ec"
    and "mp_on_read fac ec (length data) (store_read pos data (finish_op (MP_read pos n) s)) = Inr t"
  shows "mp_simulates p chunks t"
proof -
  have "(pos, n) \<in> set (mp_reads s)"
    using assms(2) picks_mem [of mp_read_of "MP_read pos n" "(pos, n)"] by (simp add: mp_reads_def)
  then have inv: "mp_reads s = [(pos, n)]" "mp_read_tasks s = []" "pos = read_pos s"
      "n = READ_BUFFER_SIZE - pos" "length (read_buffer s) = READ_BUFFER_SIZE"
      "read_pos s \<le> READ_BUFFER_SIZE"
    using assms(1) by (auto simp: mp_simulates_def mp_read_inv_def)
  then have "take pos (overwrite (read_buffer s) pos data) = buffered s"
      "length (overwrite (read_buffer s) pos data) = READ_BUFFER_SIZE"
    using assms(3) by (simp_all add: take_overwrite_before buffered_def)
  then show ?thesis
    using assms(1,4,5) inv
    by (auto simp: mp_simulates_def mp_read_inv_def mp_on_read_def store_read_def aio_defs
        on_session_closed_def mp_reads_def mp_reads_remove mp_read_tasks_def messages_def
        buffered_def split: if_splits)
qed

lemma mp_simulates_step:
  assumes "mp_simulates p chunks s" "mp_step fac e s = Moves t"
  shows "mp_simulates p (chunks @ mp_chunk e s) t"
proof (cases e)
  case (MP_call_safe_write data)
  then show ?thesis
    using assms mp_simulates_frame [OF same_read_side_safe_write [of s data]] by auto
next
  case (MP_run_task i)
  then show ?thesis
    using assms mp_simulates_run_task by (auto split: if_splits)
next
  case (MP_read_done pos n ec data)
  then have r: "MP_read pos n \<in> set (pending s)" "length data \<le> n"
      "mp_on_read fac ec (length data) (store_read pos data (finish_op (MP_read pos n) s)) = Inr t"
    using assms(2) by (auto split: if_splits)
  show ?thesis
  proof (cases "ec_ok ec")
    case True
    have "mp_read_inv p s"
      using assms(1) by (simp add: mp_simulates_def)
    from mp_on_read_feeds [OF this r(1,2) True r(3)] show ?thesis
      using assms(1) MP_read_done True by (simp add: mp_simulates_def)
  next
    case False
    then show ?thesis
      using mp_simulates_read_error [OF assms(1) r(1,2) False r(3)] MP_read_done by simp
  qed
next
  case (MP_write_done buf ec)
  then have "mp_on_write ec (finish_op (MP_write buf) s) = Inr t"
    using assms(2) by (auto split: if_splits)
  from mp_simulates_frame [OF same_read_side_on_write [OF this] assms(1)] show ?thesis
    using MP_write_done by simp
qed

interpretation mps: history_invariant "mp_step fac" mp_chunk "mp_simulates p"
  by unfold_locales (rule mp_simulates_step)

text \<open>A session that was constructed and started, with nothing received yet.\<close>

definition mp_started :: "protocol_factory \<Rightarrow> bytes \<Rightarrow> string \<Rightarrow> string \<Rightarrow> string \<Rightarrow> mp_session result" where
  "mp_started fac mem sid proto peer =
     rbind (mp_session_init fac mem (Some EchoHandler) sid proto) (mp_start (Some peer))"

lemma mp_started_simulates:
  assumes "mp_started fac mem sid proto peer = Inr s" "length mem = READ_BUFFER_SIZE"
  shows "\<exists>p. fac proto = Some p \<and> mp_simulates p [] s \<and> write_queue s = []
    \<and> pending s = [] \<and> posted s = [MP_read_task] \<and> trace s = [MP_created sid]"
  using assms
  by (auto simp: mp_started_def mp_session_init_def create_protocol_def mp_start_def
      on_session_created_def aio_defs mp_simulates_def mp_read_inv_def mp_reads_def
      mp_read_tasks_def messages_def buffered_def split: option.splits)

text \<open>A registry and started sessions for the examples.\<close>

definition demo_fac :: protocol_factory where
  "demo_fac = register_protocol ''pair'' (FixedLengthProtocolHandler 2) (register_protocols Map.empty)"

lemma demo_fac_simps [simp]:
  "demo_fac ''pair'' = Some (FixedLengthProtocolHandler 2)"
  "demo_fac ''line'' = Some LineProtocolHandler"
  "demo_fac ''binary'' = Some BinaryProtocolHandler"
  by (simp_all add: demo_fac_def register_protocols_def register_protocol_def)

lemmas mp_run_defs = mp_started_def mp_session_init_def create_protocol_def mp_start_def
  on_session_created_def mp_run_task_def mp_do_read_def mp_on_read_def store_read_def process_data_def
  discard_processed_def memmove_within_def aio_defs Let_def READ_BUFFER_SIZE_def

lemma overwrite_fresh:
  "length ys \<le> n \<Longrightarrow> overwrite (replicate n c) 0 ys = ys @ replicate (n - length ys) c"
  by (simp add: overwrite_def)

lemma length_fresh: "length (replicate 4096 NUL) = READ_BUFFER_SIZE"
  by (simp add: READ_BUFFER_SIZE_def)

text \<open>
  C4: the read side refines the abstract parser. For a session started with any
  registered protocol and the echo handler, after any run the messages its handler was
  given and the bytes still buffered are those of the abstract session fed with the
  chunks the reads delivered.
\<close>

theorem session_refines_parser:
  assumes "mp_started fac mem sid proto peer = Inr s0" "length mem = READ_BUFFER_SIZE"
    and "fac proto = Some p" "run (mp_step fac) es s0 = Moves s"
  shows "(messages s, buffered s) = foldl (feed p) ([], []) (history (mp_step fac) mp_chunk es s0)"
proof -
  have "mp_simulates p [] s0"
    using mp_started_simulates [OF assms(1,2)] assms(3) by auto
  from mps.history_run [OF this assms(4)] show ?thesis
    by (simp add: mp_simulates_def)
qed

theorem session_refines_parser_witness:
  "\<exists>s0 s. mp_started demo_fac (replicate 4096 NUL) ''S'' ''binary'' ''p'' = Inr s0
    \<and> run (mp_step demo_fac) [MP_run_task 0,
        MP_read_done 0 4096 success_code ([NUL, NUL, NUL, CHR 0x02] @ ''hi'' @ [NUL])] s0 = Moves s
    \<and> messages s = [''hi''] \<and> buffered s = [NUL]"
proof -
  let ?data = "[NUL, NUL, NUL, CHR 0x02] @ ''hi'' @ [NUL]"
  let ?es = "[MP_run_task 0, MP_read_done 0 4096 success_code ?data]"
  obtain s0 where s0: "mp_started demo_fac (replicate 4096 NUL) ''S'' ''binary'' ''p'' = Inr s0"
    by (simp add: mp_run_defs)
  have "be32_value (?data @ rest) = 2" for rest
    by (simp add: be32_value_def byte_value_def)
  then have "\<exists>s. run (mp_step demo_fac) ?es s0 = Moves s
      \<and> history (mp_step demo_fac) mp_chunk ?es s0 = [?data]"
    using s0 by (auto simp: mp_run_defs overwrite_fresh binary_process_data_def process_message_echo)
  then obtain s where s: "run (mp_step demo_fac) ?es s0 = Moves s"
      "history (mp_step demo_fac) mp_chunk ?es s0 = [?data]"
    by blast
  have "be32_value ?data = 2"
    by (simp add: be32_value_def byte_value_def)
  then have "foldl (feed BinaryProtocolHandler) ([], []) [?data] = ([''hi''], [NUL])"
    by (simp add: feed_def segment_def Let_def)
  with session_refines_parser [OF s0 length_fresh demo_fac_simps(3) s(1)] s0 s show ?thesis
    by auto
qed

section \<open>What the parser does with a stream\<close>

lemma drop_to_suffix: "xs = front @ r \<Longrightarrow> drop (length xs - length r) xs = r"
  by simp

lemma feed_line:
  assumes "st = take_lines [] bs"
  shows "feed LineProtocolHandler st chunk = take_lines [] (bs @ chunk)"
proof -
  let ?bs = "snd st @ chunk"
  have "LF \<notin> set (snd st)"
    using take_lines_rest_no_LF [of "[]" bs] assms by simp
  then have T: "take_lines [] ?bs = take_lines (snd st) chunk"
    using take_lines_cur [of "snd st" chunk] by simp
  obtain front where "?bs = front @ snd (take_lines [] ?bs)"
    using take_lines_rest_suffix [of "[]" ?bs] by auto
  then have "drop (length ?bs - length (snd (take_lines [] ?bs))) ?bs = snd (take_lines [] ?bs)"
    by (rule drop_to_suffix)
  then have "feed LineProtocolHandler st chunk
      = (fst st @ fst (take_lines [] ?bs), snd (take_lines [] ?bs))"
    by (simp only: feed_def Let_def parse.simps fst_conv snd_conv)
  also have "\<dots> = take_lines [] (bs @ chunk)"
    unfolding T by (simp add: take_lines_append assms)
  finally show ?thesis .
qed

lemma foldl_feed_line:
  "foldl (feed LineProtocolHandler) ([], []) chunks = take_lines [] (concat chunks)"
  by (induction chunks rule: rev_induct) (simp_all add: feed_line)

text \<open>
  The line protocol is independent of packet boundaries. After any run of a session
  with the line protocol, its handler has been given exactly the complete lines of the
  concatenation of everything received, in order, and the unfinished last line is what
  the buffer holds.
\<close>

theorem line_session_lines:
  assumes "mp_started fac mem sid proto peer = Inr s0" "length mem = READ_BUFFER_SIZE"
    and "fac proto = Some LineProtocolHandler" "run (mp_step fac) es s0 = Moves s"
  shows "(messages s, buffered s)
    = take_lines [] (concat (history (mp_step fac) mp_chunk es s0))"
proof -
  have "mp_simulates LineProtocolHandler [] s0"
    using mp_started_simulates [OF assms(1,2)] assms(3) by auto
  from mps.history_run [OF this assms(4)] show ?thesis
    by (simp add: mp_simulates_def foldl_feed_line)
qed

definition line_demo_events :: "mp_event list" where
  "line_demo_events = [MP_run_task 0, MP_read_done 0 4096 success_code ''ab'',
     MP_read_done 2 4094 success_code ([CR, LF] @ ''c'')]"

lemma line_demo_run:
  obtains s0 s where "mp_started demo_fac (replicate 4096 NUL) ''S'' ''line'' ''p'' = Inr s0"
    and "run (mp_step demo_fac) line_demo_events s0 = Moves s"
    and "history (mp_step demo_fac) mp_chunk line_demo_events s0 = [''ab'', [CR, LF] @ ''c'']"
proof -
  obtain s0 where s0: "mp_started demo_fac (replicate 4096 NUL) ''S'' ''line'' ''p'' = Inr s0"
    by (simp add: mp_run_defs)
  have "overwrite (''ab'' @ replicate 4094 NUL) 2 ([CR, LF] @ ''c'') = ''ab'' @ [CR, LF] @ ''c'' @ replicate 4091 NUL"
    by (simp add: overwrite_def)
  then have "\<exists>s. run (mp_step demo_fac) line_demo_events s0 = Moves s
      \<and> history (mp_step demo_fac) mp_chunk line_demo_events s0 = [''ab'', [CR, LF] @ ''c'']"
    using s0 by (auto simp: line_demo_events_def mp_run_defs overwrite_fresh line_process_data_eq
        replaces_protocol_def strip_cr_def process_message_echo)
  with s0 that show thesis
    by blast
qed

theorem line_session_lines_witness:
  "\<exists>s0 s. mp_started demo_fac (replicate 4096 NUL) ''S'' ''line'' ''p'' = Inr s0
    \<and> run (mp_step demo_fac) line_demo_events s0 = Moves s
    \<and> messages s = [''ab''] \<and> buffered s = ''c''"
proof -
  obtain s0 s where s: "mp_started demo_fac (replicate 4096 NUL) ''S'' ''line'' ''p'' = Inr s0"
      "run (mp_step demo_fac) line_demo_events s0 = Moves s"
      "history (mp_step demo_fac) mp_chunk line_demo_events s0 = [''ab'', [CR, LF] @ ''c'']"
    by (rule line_demo_run)
  have "take_lines [] (concat [''ab'', [CR, LF] @ ''c'']) = ([''ab''], ''c'')"
    by (simp add: strip_cr_def)
  with line_session_lines [OF s(1) length_fresh demo_fac_simps(2) s(2)] s show ?thesis
    by auto
qed

text \<open>A stream of frames: the first \<open>k\<close> frames, and what is left.\<close>

definition frames :: "nat \<Rightarrow> nat \<Rightarrow> bytes \<Rightarrow> bytes list" where
  "frames n k bs = map (\<lambda>i. segment bs (i * n) n) [0..<k]"

lemma frames_append:
  assumes "k * n \<le> length bs"
  shows "frames n k (bs @ cs) = frames n k bs"
proof -
  have "segment (bs @ cs) (i * n) n = segment bs (i * n) n" if "i < k" for i
  proof -
    have "Suc i * n \<le> k * n"
      using that by (intro mult_le_mono1) simp
    then have "i * n + n \<le> length bs"
      using assms by simp
    then show ?thesis
      by (simp add: segment_def)
  qed
  then show ?thesis
    by (simp add: frames_def)
qed

definition framed :: "nat \<Rightarrow> nat \<Rightarrow> bytes \<Rightarrow> bytes list \<times> bytes \<Rightarrow> bool" where
  "framed n k bs st \<longleftrightarrow> k * n \<le> length bs \<and> st = (frames n k bs, drop (k * n) bs)"

lemma feed_fixed:
  assumes "framed n k bs st"
  shows "framed n (if length (snd st @ chunk) < n then k else Suc k) (bs @ chunk)
    (feed (FixedLengthProtocolHandler n) st chunk)"
proof -
  have le: "k * n \<le> length bs" and st: "st = (frames n k bs, drop (k * n) bs)"
    using assms by (simp_all add: framed_def)
  show ?thesis
  proof (cases "length (snd st @ chunk) < n")
    case True
    then show ?thesis
      using le by (simp add: st feed_def framed_def frames_append)
  next
    case False
    have "segment (bs @ chunk) (k * n) n = take n (drop (k * n) bs @ chunk)"
      using le by (simp add: segment_def)
    then have "frames n (Suc k) (bs @ chunk) = frames n k bs @ [take n (drop (k * n) bs @ chunk)]"
      using frames_append [OF le, of chunk] by (simp add: frames_def)
    moreover have "drop n (drop (k * n) bs @ chunk) = drop (n + k * n) (bs @ chunk)"
      using le by (metis add.commute append_Nil diff_is_0_eq' drop_0 drop_append drop_drop)
    ultimately show ?thesis
      using False le by (simp add: st feed_def Let_def framed_def)
  qed
qed

lemma foldl_feed_fixed:
  "\<exists>k \<le> length chunks. framed n k (concat chunks) (foldl (feed (FixedLengthProtocolHandler n)) ([], []) chunks)"
proof (induction chunks rule: rev_induct)
  case Nil
  show ?case by (simp add: framed_def frames_def)
next
  case (snoc c cs)
  then obtain k where "k \<le> length cs"
    and "framed n k (concat cs) (foldl (feed (FixedLengthProtocolHandler n)) ([], []) cs)"
    by blast
  from feed_fixed [OF this(2), of c] this(1) show ?case
    by (auto intro: le_SucI split: if_splits)
qed

text \<open>
  The fixed-length protocol delivers the frames of the stream in order, none altered,
  but at most one per completed read: the number \<open>k\<close> of delivered frames never exceeds the
  number of reads, and every further frame of the stream, complete or not, stays in the
  buffer.
\<close>

theorem fixed_session_frames:
  assumes "mp_started fac mem sid proto peer = Inr s0" "length mem = READ_BUFFER_SIZE"
    and "fac proto = Some (FixedLengthProtocolHandler n)" "run (mp_step fac) es s0 = Moves s"
    and "chunks = history (mp_step fac) mp_chunk es s0"
  shows "\<exists>k \<le> length chunks. k * n \<le> length (concat chunks)
    \<and> messages s = frames n k (concat chunks) \<and> buffered s = drop (k * n) (concat chunks)"
proof -
  have "mp_simulates (FixedLengthProtocolHandler n) [] s0"
    using mp_started_simulates [OF assms(1,2)] assms(3) by auto
  from mps.history_run [OF this assms(4)] assms(5)
  have "(messages s, buffered s) = foldl (feed (FixedLengthProtocolHandler n)) ([], []) chunks"
    by (simp add: mp_simulates_def)
  with foldl_feed_fixed [of chunks n] show ?thesis
    by (auto simp: framed_def)
qed

definition fixed_demo_events :: "mp_event list" where
  "fixed_demo_events = [MP_run_task 0, MP_read_done 0 4096 success_code ''abcde'']"

lemma fixed_demo_run:
  obtains s0 s where "mp_started demo_fac (replicate 4096 NUL) ''S'' ''pair'' ''p'' = Inr s0"
    and "run (mp_step demo_fac) fixed_demo_events s0 = Moves s"
    and "history (mp_step demo_fac) mp_chunk fixed_demo_events s0 = [''abcde'']"
proof -
  obtain s0 where s0: "mp_started demo_fac (replicate 4096 NUL) ''S'' ''pair'' ''p'' = Inr s0"
    by (simp add: mp_run_defs)
  have "\<exists>s. run (mp_step demo_fac) fixed_demo_events s0 = Moves s
      \<and> history (mp_step demo_fac) mp_chunk fixed_demo_events s0 = [''abcde'']"
    using s0 by (auto simp: fixed_demo_events_def mp_run_defs overwrite_fresh
        fixed_process_data_def process_message_echo)
  with s0 that show thesis
    by blast
qed

theorem fixed_session_frames_witness:
  "\<exists>s0 s. mp_started demo_fac (replicate 4096 NUL) ''S'' ''pair'' ''p'' = Inr s0
    \<and> run (mp_step demo_fac) fixed_demo_events s0 = Moves s
    \<and> (\<exists>k \<le> 1. messages s = frames 2 k ''abcde'' \<and> buffered s = drop (k * 2) ''abcde'')"
proof -
  obtain s0 s where s: "mp_started demo_fac (replicate 4096 NUL) ''S'' ''pair'' ''p'' = Inr s0"
      "run (mp_step demo_fac) fixed_demo_events s0 = Moves s"
      "history (mp_step demo_fac) mp_chunk fixed_demo_events s0 = [''abcde'']"
    by (rule fixed_demo_run)
  from fixed_session_frames [OF s(1) length_fresh demo_fac_simps(1) s(2) s(3) [symmetric]] s(1,2)
  show ?thesis
    by auto
qed

end
