(* ===== verification/Protocol_Writes.thy ===== *)
theory Protocol_Writes
  imports Protocol_Stream
begin

text \<open>
  The write side of a session, the safety of a whole session, and the two sides together:
  the queue discipline (an interpretation of \<open>write_queue\<close>), the absence of faults for
  echo sessions and its one exception, and the replies as a function of the messages.
\<close>

section \<open>The write queue\<close>

fun mp_write_data :: "mp_op \<Rightarrow> bytes option" where
  "mp_write_data (MP_write m) = Some m"
| "mp_write_data x = None"

fun mp_wrote_data :: "mp_obs \<Rightarrow> bytes option" where
  "mp_wrote_data (MP_wrote m) = Some m"
| "mp_wrote_data x = None"

definition mp_inflight :: "mp_session \<Rightarrow> bytes list" where
  "mp_inflight s = picks mp_write_data (pending s)"

definition mp_written :: "mp_session \<Rightarrow> bytes list" where
  "mp_written s = picks mp_wrote_data (trace s)"

text \<open>A write task that runs queues the message as its protocol encodes it.\<close>

fun mp_label :: "mp_event \<Rightarrow> mp_session \<Rightarrow> bytes wq_label" where
  "mp_label (MP_run_task i) s =
     (if i < length (posted s) then
        (case posted s ! i of
           MP_read_task \<Rightarrow> Unrelated
         | MP_write_task data \<Rightarrow>
             (case protocol s of
                None \<Rightarrow> Unrelated
              | Some p \<Rightarrow> (case prepare_send p data of Inl f \<Rightarrow> Unrelated | Inr buf \<Rightarrow> Accepts buf)))
      else Unrelated)"
| "mp_label (MP_write_done m ec) s = (if ec_ok ec then Completes else Breaks)"
| "mp_label _ s = Unrelated"

lemma mp_write_data_inj: "mp_write_data y = Some m \<Longrightarrow> y = MP_write m"
  by (cases y) simp_all

lemma mp_inflight_remove:
  "picks mp_write_data (remove1 (MP_write m) ops) = remove1 m (picks mp_write_data ops)"
  "picks mp_write_data (remove1 (MP_read pos n) ops) = picks mp_write_data ops"
  by (simp_all add: picks_remove1_same picks_remove1_other mp_write_data_inj)

definition same_write_side :: "mp_session \<Rightarrow> mp_session \<Rightarrow> bool" where
  "same_write_side s t \<longleftrightarrow> write_queue t = write_queue s \<and> mp_inflight t = mp_inflight s
     \<and> mp_written t = mp_written s"

lemma same_write_side_refl [simp]: "same_write_side s s"
  by (simp add: same_write_side_def)

lemma same_write_side_trans:
  "same_write_side s t \<Longrightarrow> same_write_side t u \<Longrightarrow> same_write_side s u"
  by (simp add: same_write_side_def)

lemma process_message_write_side: "same_write_side s (process_message fac m s)"
  by (auto simp: same_write_side_def process_message_def process_app_data_def detect_protocol_def
      set_metadata_def set_protocol_def safe_write_def aio_defs mp_inflight_def mp_written_def
      Let_def split: option.splits data_handler.splits)

lemma line_scan_write_side:
  "line_scan fac e data len i start processed s = Inr (k, t) \<Longrightarrow> same_write_side s t"
proof (induction fac e data len i start processed s rule: line_scan.induct)
  case (1 fac e data len i start processed s)
  then show ?case
    by (subst (asm) (3) line_scan.simps)
      (auto simp: Let_def split: if_splits
        intro: same_write_side_trans [OF process_message_write_side])
qed

lemma process_data_write_side:
  "process_data fac p data len s = Inr (k, t) \<Longrightarrow> same_write_side s t"
  by (cases p) (auto simp: process_data_def line_process_data_def fixed_process_data_def
      binary_process_data_def Let_def process_message_write_side
      split: if_splits intro: line_scan_write_side)

lemma discard_processed_write_side:
  "discard_processed k s = Inr t \<Longrightarrow> same_write_side s t"
  by (auto simp: discard_processed_def rbind_Inr_iff same_write_side_def mp_inflight_def
      mp_written_def split: if_splits)

lemma mp_on_read_write_side: "mp_on_read fac ec n s = Inr t \<Longrightarrow> same_write_side s t"
proof (cases "ec_ok ec")
  case True
  assume h: "mp_on_read fac ec n s = Inr t"
  then obtain p where p: "protocol s = Some p"
    using True by (auto simp: mp_on_read_def Let_def split: option.splits)
  obtain k v w where
      v: "process_data fac p (read_buffer s) (read_pos s + n) (s\<lparr>read_pos := read_pos s + n\<rparr>) = Inr (k, v)"
    and w: "discard_processed k v = Inr w" and t: "t = mp_do_read w"
    using mp_on_read_Inr [OF h True p] .
  have "same_write_side s (s\<lparr>read_pos := read_pos s + n\<rparr>)" "same_write_side w t"
    by (simp_all add: same_write_side_def mp_inflight_def mp_written_def t mp_do_read_def aio_defs)
  then show ?thesis
    using process_data_write_side [OF v] discard_processed_write_side [OF w]
    by (blast intro: same_write_side_trans)
next
  case False
  assume "mp_on_read fac ec n s = Inr t"
  then show ?thesis
    using False by (auto simp: mp_on_read_def on_session_closed_def aio_defs same_write_side_def
        mp_inflight_def mp_written_def split: if_splits)
qed

lemma mp_accept:
  assumes "mp_step fac e s = Moves t" "mp_label e s = Accepts m"
  shows "write_queue t = write_queue s @ [m]
    \<and> mp_inflight t = mp_inflight s @ (if write_queue s = [] then [m] else [])
    \<and> mp_written t = mp_written s @ (if write_queue s = [] then [m] else [])"
  using assms
  by (cases e) (auto simp: mp_run_task_def mp_write_task_def start_writing_def aio_defs Let_def
      mp_inflight_def mp_written_def
      split: if_splits mp_task.splits option.splits sum.splits list.splits)

lemma mp_complete:
  assumes "mp_step fac e s = Moves t" "mp_label e s = Completes"
  shows "\<exists>m0 m ms. write_queue s = m # ms \<and> write_queue t = ms \<and> m0 \<in> set (mp_inflight s)
    \<and> mp_inflight t = remove1 m0 (mp_inflight s) @ take 1 ms
    \<and> mp_written t = mp_written s @ take 1 ms"
proof -
  obtain m ec where e: "e = MP_write_done m ec" "ec_ok ec"
    using assms(2) by (cases e) (auto split: if_splits mp_task.splits option.splits sum.splits)
  have mem: "m \<in> set (mp_inflight s)"
    using assms(1) e picks_mem [of mp_write_data "MP_write m" m "pending s"]
    by (auto simp: mp_inflight_def split: if_splits)
  show ?thesis
    using assms(1) e mem
    by (auto simp: mp_on_write_def start_writing_def aio_defs Let_def mp_inflight_def mp_written_def
        mp_inflight_remove split: if_splits list.splits)
qed

lemma mp_unrelated:
  assumes "mp_step fac e s = Moves t" "mp_label e s = Unrelated"
  shows "same_write_side s t"
proof (cases e)
  case (MP_read_done pos n ec data)
  then have r: "mp_on_read fac ec (length data) (store_read pos data (finish_op (MP_read pos n) s)) = Inr t"
    using assms(1) by (auto split: if_splits)
  have "same_write_side s (store_read pos data (finish_op (MP_read pos n) s))"
    by (simp add: same_write_side_def store_read_def aio_defs mp_inflight_def mp_written_def mp_inflight_remove)
  then show ?thesis
    using mp_on_read_write_side [OF r] by (rule same_write_side_trans)
qed (use assms in \<open>auto simp: safe_write_def mp_run_task_def mp_do_read_def mp_write_task_def
    aio_defs same_write_side_def mp_inflight_def mp_written_def
    split: if_splits mp_task.splits option.splits sum.splits\<close>)

interpretation mpq: write_queue "mp_step fac" mp_label write_queue mp_inflight mp_written
  by unfold_locales (erule (1) mp_accept mp_complete mp_unrelated [unfolded same_write_side_def])+

section \<open>Safety of echo sessions\<close>

definition mp_echo_inv :: "protocol \<Rightarrow> mp_session \<Rightarrow> bool" where
  "mp_echo_inv p s \<longleftrightarrow> (\<exists>h. mp_simulates p h s) \<and> mp_inflight s = take 1 (write_queue s)"

lemma mp_echo_inv_queue:
  assumes "mp_inflight s = take 1 (write_queue s)" "mp_step fac e s = Moves t"
  shows "mp_inflight t = take 1 (write_queue t)"
proof (cases "mp_label e s")
  case (Accepts m)
  then show ?thesis
    using mp_accept [OF assms(2) Accepts] assms(1) by (cases "write_queue s") simp_all
next
  case Completes
  then show ?thesis
    using mp_complete [OF assms(2) Completes] assms(1) by auto
next
  case Unrelated
  then show ?thesis
    using mp_unrelated [OF assms(2) Unrelated] assms(1) by (simp add: same_write_side_def)
next
  case Breaks
  then obtain m ec where e: "e = MP_write_done m ec" "\<not> ec_ok ec"
    by (cases e) (auto split: if_splits mp_task.splits option.splits sum.splits)
  then have "m \<in> set (mp_inflight s)"
    using assms(2) picks_mem [of mp_write_data "MP_write m" m "pending s"]
    by (auto simp: mp_inflight_def split: if_splits)
  then have "mp_inflight s = [m]"
    using assms(1) by (cases "write_queue s") auto
  then show ?thesis
    using assms(2) e
    by (auto simp: mp_on_write_def on_session_closed_def aio_defs Let_def mp_inflight_def
        mp_inflight_remove split: if_splits)
qed

text \<open>The only fault of the handlers and encoders: the binary protocol leaves its buffer.\<close>

lemma line_scan_total:
  assumes "len \<le> length data" "data_handler s = Some EchoHandler"
  shows "line_process_data fac data len s \<noteq> Inl f"
  using assms by (simp add: line_process_data_eq replaces_protocol_def)

lemma process_data_fails:
  assumes "len \<le> length data" "data_handler s = Some EchoHandler"
    and "process_data fac p data len s = Inl f"
  shows "p = BinaryProtocolHandler \<and> f = Undefined Out_of_bounds"
  using assms
  by (cases p) (auto simp: process_data_def line_scan_total fixed_process_data_def
      binary_process_data_def process_message_echo aio_defs Let_def split: if_splits)

lemma prepare_send_fails:
  "prepare_send p data = Inl f \<Longrightarrow> p = BinaryProtocolHandler \<and> f = Undefined Out_of_bounds"
  by (cases p) (auto simp: prepare_send_def binary_prepare_send_def memcpy_in_def Let_def
      rbind_Inl_iff split: if_splits)

lemma mp_on_read_fails:
  assumes "mp_read_inv p s" "MP_read pos n \<in> set (pending s)" "length data \<le> n"
    and "mp_on_read fac ec (length data) (store_read pos data (finish_op (MP_read pos n) s)) = Inl f"
  shows "p = BinaryProtocolHandler \<and> f = Undefined Out_of_bounds"
proof -
  have "(pos, n) \<in> set (mp_reads s)"
    using assms(2) picks_mem [of mp_read_of "MP_read pos n" "(pos, n)"] by (simp add: mp_reads_def)
  with assms(1) have inv: "data_handler s = Some EchoHandler" "protocol s = Some p"
      "length (read_buffer s) = READ_BUFFER_SIZE" "read_pos s \<le> READ_BUFFER_SIZE"
      "pos = read_pos s" "n = READ_BUFFER_SIZE - pos"
    by (auto simp: mp_read_inv_def)
  define u where "u = (store_read pos data (finish_op (MP_read pos n) s))\<lparr>read_pos := read_pos s + length data\<rparr>"
  have u: "data_handler u = Some EchoHandler" "length (read_buffer u) = READ_BUFFER_SIZE"
      "read_pos u \<le> READ_BUFFER_SIZE"
    using inv assms(3) by (simp_all add: u_def store_read_def aio_defs)
  have ok: "ec_ok ec"
    using assms(4) by (auto simp: mp_on_read_def split: if_splits)
  have "rbind (process_data fac p (read_buffer u) (read_pos u) u) (\<lambda>(processed, s).
      rbind (discard_processed processed s) (\<lambda>s. Inr (mp_do_read s))) = Inl f"
    using assms(4) inv(2) ok by (simp add: mp_on_read_def u_def store_read_def aio_defs Let_def)
  then consider "process_data fac p (read_buffer u) (read_pos u) u = Inl f"
    | k v where "process_data fac p (read_buffer u) (read_pos u) u = Inr (k, v)" "discard_processed k v = Inl f"
    by (auto simp: rbind_Inl_iff)
  then show ?thesis
  proof cases
    case 1
    then show ?thesis
      using process_data_fails [OF _ u(1) 1] u(2,3) by simp
  next
    case 2
    have "k = snd (parse p (buffered u)) \<and> v = fold (process_message fac) (fst (parse p (buffered u))) u"
      using process_data_parse [OF u(1) _ _ 2(1)] u(2,3) by (simp add: buffered_def READ_BUFFER_SIZE_def)
    then have "k \<le> read_pos v" "read_pos v \<le> length (read_buffer v)" "length (read_buffer v) < 2 ^ 64"
      using parse_le [of p "buffered u"] u
      by (simp_all add: fold_process_message_echo buffered_def READ_BUFFER_SIZE_def)
    then show ?thesis
      using 2(2) discard_processed_ok by (metis sum.distinct(1))
  qed
qed

lemma mp_step_fails:
  assumes "mp_echo_inv p s" "mp_step fac e s = Fails f"
  shows "p = BinaryProtocolHandler \<and> f = Undefined Out_of_bounds"
proof -
  obtain h where sim: "mp_simulates p h s" and q: "mp_inflight s = take 1 (write_queue s)"
    using assms(1) by (auto simp: mp_echo_inv_def)
  then have inv: "mp_read_inv p s" "protocol s = Some p"
    by (simp_all add: mp_simulates_def mp_read_inv_def)
  show ?thesis
  proof (cases e)
    case (MP_read_done pos n ec data)
    then show ?thesis
      using mp_on_read_fails [OF inv(1)] assms(2) by (auto split: if_splits)
  next
    case (MP_write_done m ec)
    then have "m \<in> set (mp_inflight s)"
      using assms(2) picks_mem [of mp_write_data "MP_write m" m "pending s"]
      by (auto simp: mp_inflight_def split: if_splits)
    then obtain ms where "write_queue s = m # ms"
      using q by (cases "write_queue s") auto
    then show ?thesis
      using MP_write_done assms(2)
      by (auto simp: mp_on_write_def start_writing_def aio_defs Let_def split: if_splits list.splits)
  next
    case (MP_run_task i)
    then show ?thesis
      using assms(2) inv(2) prepare_send_fails
      by (auto simp: mp_run_task_def mp_write_task_def start_writing_def aio_defs Let_def rbind_Inl_iff
          split: if_splits mp_task.splits list.splits)
  qed (use assms(2) in auto)
qed

interpretation mpi: safe_invariant "mp_step fac" "mp_echo_inv p"
    "\<lambda>f. p \<noteq> BinaryProtocolHandler \<or> f \<noteq> Undefined Out_of_bounds"
proof unfold_locales
  fix s e t f
  show "mp_echo_inv p t" if "mp_echo_inv p s" "mp_step fac e s = Moves t"
    using that mp_simulates_step mp_echo_inv_queue unfolding mp_echo_inv_def by meson
  show "\<not> (p \<noteq> BinaryProtocolHandler \<or> f \<noteq> Undefined Out_of_bounds)"
    if "mp_echo_inv p s" "mp_step fac e s = Fails f"
    using mp_step_fails [OF that] by simp
qed

text \<open>
  An echo session whose handlers run whole is safe. Whatever the peer sends and however reads,
  writes, posted tasks and errors interleave, no step of a session with the line or a fixed-length
  protocol fails: no access outside the buffer, no underflow of a length or of
  \<open>read_pos_\<close>, no front of an empty queue, no use of a destroyed handler, no exception.
\<close>

theorem echo_session_safe:
  assumes "mp_started fac mem sid proto peer = Inr s0" "length mem = READ_BUFFER_SIZE"
    and "fac proto = Some p" "p \<noteq> BinaryProtocolHandler"
  shows "run (mp_step fac) es s0 \<noteq> Fails f"
proof
  assume fails: "run (mp_step fac) es s0 = Fails f"
  have "mp_echo_inv p s0"
    using mp_started_simulates [OF assms(1,2)] assms(3) by (auto simp: mp_echo_inv_def mp_inflight_def)
  from mpi.safe_run [OF this fails] assms(4) show False by simp
qed

theorem echo_session_safe_witness:
  "\<exists>s0. mp_started demo_fac (replicate 4096 NUL) ''S'' ''line'' ''p'' = Inr s0
    \<and> (\<forall>es f. run (mp_step demo_fac) es s0 \<noteq> Fails f)"
proof -
  obtain s0 where s0: "mp_started demo_fac (replicate 4096 NUL) ''S'' ''line'' ''p'' = Inr s0"
    by (simp add: mp_run_defs)
  with echo_session_safe [OF s0 length_fresh demo_fac_simps(2)] show ?thesis
    by auto
qed

lemma wrapped_length:
  fixes n :: nat
  assumes "n < 2 ^ 32" "len \<le> room" "room < 2 ^ 32 - 4"
  shows "4 \<le> len \<and> (4 + n) mod 2 ^ 32 \<le> len \<and> room < 4 + n \<longleftrightarrow> 4 \<le> len \<and> 2 ^ 32 - 4 \<le> n"
proof (cases "4 + n < 2 ^ 32")
  case True
  then have "(4 + n) mod 2 ^ 32 = 4 + n"
    by (rule mod_less)
  with assms True show ?thesis
    by linarith
next
  case False
  then have "(4 + n) mod 2 ^ 32 = (4 + n - 2 ^ 32) mod 2 ^ 32"
    by (simp only: not_less le_mod_geq)
  also have "\<dots> = 4 + n - 2 ^ 32"
    using assms(1) by (intro mod_less) simp
  finally have "(4 + n) mod 2 ^ 32 = 4 + n - 2 ^ 32" .
  with assms False show ?thesis
    by linarith
qed

text \<open>
  C40: the exception is the binary protocol. Its completeness check adds 4 to the announced
  length in 32 bits; for the four lengths from \<open>2 ^ 32 - 4\<close> on the sum wraps to at most 3,
  the check passes and the payload is read far beyond the buffer. For every other
  prefix \<open>process_data\<close> stays inside.
\<close>

theorem binary_overread_iff:
  assumes "len \<le> length data" "length data < 2 ^ 32 - 4"
  shows "binary_process_data fac data len s = Inl (Undefined Out_of_bounds)
    \<longleftrightarrow> 4 \<le> len \<and> 2 ^ 32 - 4 \<le> unat (be32_value data)"
proof -
  let ?w = "be32_value data"
  have "binary_process_data fac data len s = Inl (Undefined Out_of_bounds)
      \<longleftrightarrow> 4 \<le> len \<and> unat (4 + ?w) \<le> len \<and> length data < 4 + unat ?w"
    by (simp add: binary_process_data_def Let_def not_less)
  moreover have "unat (4 + ?w) = (4 + unat ?w) mod 2 ^ 32"
    by (simp add: unat_word_ariths)
  moreover have "unat ?w < 2 ^ 32"
    using unsigned_less [of ?w] by simp
  ultimately show ?thesis
    using wrapped_length [of "unat ?w"] assms by (simp only:)
qed

theorem binary_overread_iff_witness:
  "binary_process_data Map.empty [CHR 0xFF, CHR 0xFF, CHR 0xFF, CHR 0xFF] 4
     (mp_demo BinaryProtocolHandler EchoHandler 0) = Inl (Undefined Out_of_bounds)"
proof -
  have "be32_value [CHR 0xFF, CHR 0xFF, CHR 0xFF, CHR 0xFF] = 0xFFFFFFFF"
    by (simp add: be32_value_def byte_value_def)
  then show ?thesis
    by (subst binary_overread_iff) simp_all
qed

text \<open>
  Replies leave in order. Without a write error, the encoded messages are those
  completely written followed by the queue, in the order in which their write tasks ran;
  one is in flight at a time.
\<close>

theorem mp_session_fifo:
  assumes "mp_started fac mem sid proto peer = Inr s0" "length mem = READ_BUFFER_SIZE"
    and "run (mp_step fac) es s0 = Moves s" "unbroken (mp_step fac) mp_label es s0"
  shows "\<exists>sent. accepted (mp_step fac) mp_label es s0 = sent @ write_queue s
    \<and> mp_written s = sent @ take 1 (write_queue s) \<and> mp_inflight s = take 1 (write_queue s)"
proof -
  have "write_queue s0 = []" "mp_inflight s0 = []" "mp_written s0 = []"
    using mp_started_simulates [OF assms(1,2)] by (auto simp: mp_inflight_def mp_written_def)
  from mpq.fifo_delivery [OF assms(3,4) this] show ?thesis .
qed

definition mp_demo_events :: "mp_event list" where
  "mp_demo_events = [MP_run_task 0, MP_read_done 0 4096 success_code (''a'' @ [LF] @ ''b'' @ [LF]),
     MP_run_task 0, MP_run_task 0, MP_write_done (''Echo: a'' @ [CR, LF]) success_code]"

lemma mp_demo_run:
  assumes "mp_started demo_fac (replicate 4096 NUL) ''S'' ''line'' ''p'' = Inr s0"
  obtains s where "run (mp_step demo_fac) mp_demo_events s0 = Moves s"
    and "unbroken (mp_step demo_fac) mp_label mp_demo_events s0"
    and "write_queue s = [''Echo: b'' @ [CR, LF]]" "posted s = []" "messages s = [''a'', ''b'']"
    and "accepted (mp_step demo_fac) mp_label mp_demo_events s0
      = [''Echo: a'' @ [CR, LF], ''Echo: b'' @ [CR, LF]]"
  using assms
  by (auto simp: mp_demo_events_def mp_run_defs overwrite_fresh line_process_data_eq
      replaces_protocol_def strip_cr_def process_message_echo mp_write_task_def prepare_send_def
      line_prepare_send_def start_writing_def mp_on_write_def messages_def)

theorem mp_session_fifo_witness:
  "\<exists>s0 s. mp_started demo_fac (replicate 4096 NUL) ''S'' ''line'' ''p'' = Inr s0
    \<and> run (mp_step demo_fac) mp_demo_events s0 = Moves s
    \<and> mp_written s = [''Echo: a'' @ [CR, LF], ''Echo: b'' @ [CR, LF]]
    \<and> mp_inflight s = [''Echo: b'' @ [CR, LF]]"
proof -
  obtain s0 where s0: "mp_started demo_fac (replicate 4096 NUL) ''S'' ''line'' ''p'' = Inr s0"
    by (simp add: mp_run_defs)
  obtain s where s: "run (mp_step demo_fac) mp_demo_events s0 = Moves s"
      "unbroken (mp_step demo_fac) mp_label mp_demo_events s0"
      "write_queue s = [''Echo: b'' @ [CR, LF]]"
      "accepted (mp_step demo_fac) mp_label mp_demo_events s0
        = [''Echo: a'' @ [CR, LF], ''Echo: b'' @ [CR, LF]]"
    using mp_demo_run [OF s0] by metis
  from mp_session_fifo [OF s0 length_fresh s(1,2)] s0 s show ?thesis
    by auto
qed

end
