(* ===== verification/Protocol_Replies.thy ===== *)
theory Protocol_Replies
  imports Protocol_Exchange
begin

text \<open>
  The replies of an echo session as a function of the messages it received, and the two
  ways in which a session is lost: a message that does not fit the read buffer, and a
  data handler that replaces the protocol handler that is calling it.
\<close>

section \<open>Every message is answered once, in order\<close>

fun mp_task_data :: "mp_task \<Rightarrow> bytes option" where
  "mp_task_data (MP_write_task data) = Some data"
| "mp_task_data MP_read_task = None"

text \<open>The replies posted and not yet queued.\<close>

definition mp_replies_posted :: "mp_session \<Rightarrow> bytes list" where
  "mp_replies_posted s = picks mp_task_data (posted s)"

text \<open>One thread runs the posted tasks in order, and nobody else writes.\<close>

fun mp_in_order :: "mp_event \<Rightarrow> bool" where
  "mp_in_order (MP_call_safe_write data) = False"
| "mp_in_order (MP_run_task i) = (i = 0)"
| "mp_in_order _ = True"

definition mp_answers :: "protocol \<Rightarrow> bytes list \<Rightarrow> mp_session \<Rightarrow> bool" where
  "mp_answers p queued s \<longleftrightarrow> (\<exists>h. mp_simulates p h s)
     \<and> map (\<lambda>m. prepare_send p (''Echo: '' @ m)) (messages s)
       = map Inr queued @ map (prepare_send p) (mp_replies_posted s)"

lemma picks_task_data_map [simp]:
  "picks mp_task_data (map (\<lambda>m. MP_write_task (f m)) ms) = map f ms"
  by (induction ms) simp_all

lemma discard_processed_frame:
  "discard_processed k v = Inr w \<Longrightarrow> posted w = posted v \<and> trace w = trace v"
  by (auto simp: discard_processed_def rbind_Inr_iff split: if_splits)

lemma mp_on_read_answers:
  assumes "mp_read_inv p s" "MP_read pos n \<in> set (pending s)" "length data \<le> n"
    and "mp_on_read fac ec (length data) (store_read pos data (finish_op (MP_read pos n) s)) = Inr t"
  shows "\<exists>ms. messages t = messages s @ ms
    \<and> mp_replies_posted t = mp_replies_posted s @ map (\<lambda>m. ''Echo: '' @ m) ms"
proof (cases "ec_ok ec")
  case False
  then show ?thesis
    using assms(4) by (intro exI [of _ "[]"])
      (auto simp: mp_on_read_def store_read_def aio_defs on_session_closed_def messages_def
        mp_replies_posted_def split: if_splits)
next
  case True
  define u where "u = (store_read pos data (finish_op (MP_read pos n) s))\<lparr>read_pos := read_pos s + length data\<rparr>"
  have inv: "data_handler s = Some EchoHandler" "protocol s = Some p"
      "length (read_buffer s) = READ_BUFFER_SIZE" "(pos, n) = (read_pos s, READ_BUFFER_SIZE - read_pos s)"
      "read_pos s \<le> READ_BUFFER_SIZE"
    using assms(1) picks_mem [of mp_read_of "MP_read pos n" "(pos, n)", OF _ assms(2)]
    by (auto simp: mp_read_inv_def mp_reads_def)
  have u: "data_handler u = Some EchoHandler" "length (read_buffer u) = READ_BUFFER_SIZE"
      "read_pos u \<le> READ_BUFFER_SIZE" "messages u = messages s"
      "mp_replies_posted u = mp_replies_posted s"
    using inv assms(3)
    by (simp_all add: u_def store_read_def aio_defs messages_def mp_replies_posted_def)
  have s0: "protocol (store_read pos data (finish_op (MP_read pos n) s)) = Some p"
      "read_pos (store_read pos data (finish_op (MP_read pos n) s)) + length data = read_pos u"
      "read_buffer (store_read pos data (finish_op (MP_read pos n) s)) = read_buffer u"
      "(store_read pos data (finish_op (MP_read pos n) s))\<lparr>read_pos := read_pos u\<rparr> = u"
    using inv(2) by (simp_all add: u_def store_read_def aio_defs)
  obtain k v w where k: "process_data fac p (read_buffer u) (read_pos u) u = Inr (k, v)"
      and w: "discard_processed k v = Inr w" and t: "t = mp_do_read w"
    using mp_on_read_Inr [OF assms(4) True s0(1)] unfolding s0 by metis
  let ?ms = "fst (parse p (buffered u))"
  have v: "v = fold (process_message fac) ?ms u"
    using process_data_parse [OF u(1) _ _ k] u(2,3) by (simp add: buffered_def READ_BUFFER_SIZE_def)
  have "messages t = messages v" "mp_replies_posted t = mp_replies_posted v"
    using discard_processed_frame [OF w]
    by (simp_all add: t mp_do_read_def aio_defs messages_def mp_replies_posted_def)
  moreover have "messages v = messages u @ ?ms"
      "mp_replies_posted v = mp_replies_posted u @ map (\<lambda>m. ''Echo: '' @ m) ?ms"
    by (simp_all add: v fold_process_message_echo [OF u(1)] messages_def mp_replies_posted_def)
  ultimately show ?thesis
    using u by auto
qed

lemma mp_answers_step:
  assumes "mp_answers p h s" "mp_in_order e" "mp_step fac e s = Moves t"
  shows "mp_answers p (h @ accepts mp_label e s) t"
proof -
  obtain c where c: "mp_simulates p c s" and eq: "map (\<lambda>m. prepare_send p (''Echo: '' @ m)) (messages s)
      = map Inr h @ map (prepare_send p) (mp_replies_posted s)"
    using assms(1) by (auto simp: mp_answers_def)
  have sim: "\<exists>h. mp_simulates p h t"
    using mp_simulates_step [OF c assms(3)] by blast
  have inv: "mp_read_inv p s" "protocol s = Some p"
    using c by (simp_all add: mp_simulates_def mp_read_inv_def)
  show ?thesis
  proof (cases e)
    case (MP_run_task i)
    then obtain k ks where ks: "posted s = k # ks" "i = 0"
      using assms(2,3) by (cases "posted s") auto
    then show ?thesis
      using assms(3) MP_run_task sim eq inv(2)
      by (auto simp: mp_answers_def mp_run_task_def mp_do_read_def mp_write_task_def start_writing_def
          aio_defs Let_def rbind_Inr_iff accepts_def messages_def mp_replies_posted_def
          split: mp_task.splits if_splits list.splits)
  next
    case (MP_read_done pos n ec data)
    then have "MP_read pos n \<in> set (pending s)" "length data \<le> n"
        "mp_on_read fac ec (length data) (store_read pos data (finish_op (MP_read pos n) s)) = Inr t"
      using assms(3) by (auto split: if_splits)
    from mp_on_read_answers [OF inv(1) this] obtain ms where "messages t = messages s @ ms"
        "mp_replies_posted t = mp_replies_posted s @ map (\<lambda>m. ''Echo: '' @ m) ms"
      by blast
    then show ?thesis
      using eq sim MP_read_done by (auto simp: mp_answers_def accepts_def)
  next
    case (MP_write_done m ec)
    then have "messages t = messages s" "mp_replies_posted t = mp_replies_posted s"
      using assms(3)
      by (auto simp: mp_on_write_def start_writing_def on_session_closed_def aio_defs Let_def
          messages_def mp_replies_posted_def split: if_splits list.splits)
    then show ?thesis
      using eq sim MP_write_done by (simp add: mp_answers_def accepts_def)
  qed (use assms(2) in simp)
qed

interpretation mpa: obliged_history "mp_step fac" "\<lambda>e s. mp_in_order e" "accepts mp_label" "mp_answers p"
  by unfold_locales (rule mp_answers_step)

text \<open>From the start: what the handler was given, against the queue and the posted tasks.\<close>

lemma mp_replies_run:
  assumes "mp_started fac mem sid proto peer = Inr s0" "length mem = READ_BUFFER_SIZE"
    and "fac proto = Some p" "run (mp_step fac) es s0 = Moves s" "list_all mp_in_order es"
  shows "map (\<lambda>m. prepare_send p (''Echo: '' @ m)) (messages s)
    = map Inr (accepted (mp_step fac) mp_label es s0) @ map (prepare_send p) (mp_replies_posted s)"
proof -
  have "mp_simulates p [] s0" "messages s0 = []" "mp_replies_posted s0 = []"
    using mp_started_simulates [OF assms(1,2)] assms(3) by (auto simp: messages_def mp_replies_posted_def)
  then have "mp_answers p [] s0"
    by (auto simp: mp_answers_def)
  from mpa.obliged_run [OF this assms(4) guarded_events [OF assms(5)]] show ?thesis
    by (simp add: accepted_def mp_answers_def)
qed

text \<open>The queue of a started session is idle.\<close>

lemma mp_started_idle:
  "mp_started fac mem sid proto peer = Inr s0 \<Longrightarrow> length mem = READ_BUFFER_SIZE \<Longrightarrow>
    write_queue s0 = [] \<and> mp_inflight s0 = [] \<and> mp_written s0 = []"
  by (drule (1) mp_started_simulates) (auto simp: mp_inflight_def mp_written_def)

text \<open>
  Every message is answered exactly once and in order, when handlers run whole. When the
  posted tasks run in order, no one else writes to the session and no write fails, the encoded echoes of the
  messages received so far are, in this order: the replies completely written, the
  replies in the queue (the first of which is in flight), and the replies whose task is
  still posted.
\<close>

theorem echo_session_replies:
  assumes "mp_started fac mem sid proto peer = Inr s0" "length mem = READ_BUFFER_SIZE"
    and "fac proto = Some p" "run (mp_step fac) es s0 = Moves s" "list_all mp_in_order es"
    and "unbroken (mp_step fac) mp_label es s0"
  shows "\<exists>sent. map (\<lambda>m. prepare_send p (''Echo: '' @ m)) (messages s)
      = map Inr (sent @ write_queue s) @ map (prepare_send p) (mp_replies_posted s)
    \<and> mp_written s = sent @ take 1 (write_queue s)"
  using mp_replies_run [OF assms(1-5)] mpq.fifo_delivery [OF assms(4,6)] mp_started_idle [OF assms(1,2)]
  by auto

theorem echo_session_replies_witness:
  "\<exists>s0 s. mp_started demo_fac (replicate 4096 NUL) ''S'' ''line'' ''p'' = Inr s0
    \<and> run (mp_step demo_fac) mp_demo_events s0 = Moves s
    \<and> (\<exists>sent. map (\<lambda>m. Inr (''Echo: '' @ m @ [CR, LF]) :: bytes result) [''a'', ''b'']
          = map Inr (sent @ write_queue s)
        \<and> mp_written s = sent @ take 1 (write_queue s))"
proof -
  obtain s0 where s0: "mp_started demo_fac (replicate 4096 NUL) ''S'' ''line'' ''p'' = Inr s0"
    by (simp add: mp_run_defs)
  obtain s where s: "run (mp_step demo_fac) mp_demo_events s0 = Moves s"
      "unbroken (mp_step demo_fac) mp_label mp_demo_events s0"
      "messages s = [''a'', ''b'']" "posted s = []"
    using mp_demo_run [OF s0] by metis
  have o: "list_all mp_in_order mp_demo_events"
    by (simp add: mp_demo_events_def)
  from echo_session_replies [OF s0 length_fresh demo_fac_simps(2) s(1) o s(2)] s0 s show ?thesis
    by (auto simp: prepare_send_def line_prepare_send_def mp_replies_posted_def)
qed

section \<open>A message that does not fit the buffer\<close>

definition mp_full :: "protocol \<Rightarrow> bytes list \<Rightarrow> bytes \<Rightarrow> mp_session \<Rightarrow> bool" where
  "mp_full p ms b s \<longleftrightarrow> (\<exists>h. mp_simulates p h s) \<and> messages s = ms \<and> buffered s = b
     \<and> length b = READ_BUFFER_SIZE \<and> parse p b = ([], 0)"

lemma mp_full_reads:
  assumes "mp_full p ms b s" "MP_read pos n \<in> set (pending s)"
  shows "pos = READ_BUFFER_SIZE \<and> n = 0 \<and> mp_reads s = [(READ_BUFFER_SIZE, 0)]"
  using assms picks_mem [of mp_read_of "MP_read pos n" "(pos, n)", OF _ assms(2)]
  by (auto simp: mp_full_def mp_simulates_def mp_read_inv_def mp_reads_def buffered_def)

lemma mp_full_step:
  assumes "mp_full p ms b s" "mp_step fac e s = Moves t"
  shows "mp_full p ms b t"
proof -
  obtain h where h: "mp_simulates p h s" "messages s = ms" "buffered s = b"
    using assms(1) by (auto simp: mp_full_def)
  have sim: "mp_simulates p (h @ mp_chunk e s) t"
    using mp_simulates_step [OF h(1) assms(2)] .
  have "mp_chunk e s = [] \<or> mp_chunk e s = [[]]"
    using assms mp_full_reads [OF assms(1)] by (cases e) (auto split: if_splits)
  moreover have "foldl (feed p) ([], []) h = (ms, b)"
    using h by (simp add: mp_simulates_def)
  moreover have "feed p (ms, b) [] = (ms, b)"
    using assms(1) by (simp add: mp_full_def feed_def)
  ultimately have "(messages t, buffered t) = (ms, b)"
    using sim by (auto simp: mp_simulates_def)
  with sim assms(1) show ?thesis
    by (auto simp: mp_full_def)
qed

interpretation mpf: step_invariant "mp_step fac" "mp_full p ms b"
  by unfold_locales (rule mp_full_step)

text \<open>
  A message that does not fit the buffer wedges its session. Once the 4096 bytes of
  the read buffer are used and hold no complete message, no continuation delivers another
  message or frees a byte: every further read is a read of zero bytes, and when such a
  read completes (asio completes it at once) the next one starts, so the session spins.
\<close>

theorem full_buffer_wedges:
  assumes "mp_started fac mem sid proto peer = Inr s0" "length mem = READ_BUFFER_SIZE"
    and "fac proto = Some p" "p \<noteq> BinaryProtocolHandler" "run (mp_step fac) es s0 = Moves s"
    and "read_pos s = READ_BUFFER_SIZE" "parse p (buffered s) = ([], 0)"
    and "run (mp_step fac) es' s = Moves t"
  shows "messages t = messages s \<and> buffered t = buffered s
    \<and> (\<forall>pos n. MP_read pos n \<in> set (pending t) \<longrightarrow> n = 0
        \<and> (\<exists>u. mp_step fac (MP_read_done pos n success_code []) t = Moves u
            \<and> mp_reads u = [(READ_BUFFER_SIZE, 0)]))"
proof -
  have e0: "mp_echo_inv p s0"
    using mp_started_simulates [OF assms(1,2)] assms(3) by (auto simp: mp_echo_inv_def mp_inflight_def)
  note es = mpi.kept_run [OF e0 assms(5)]
  then have "mp_full p (messages s) (buffered s) s"
    using assms(6,7) by (auto simp: mp_full_def mp_echo_inv_def mp_simulates_def mp_read_inv_def buffered_def)
  note t = mpf.kept_run [OF this assms(8)]
  have "\<exists>u. mp_step fac (MP_read_done pos n success_code []) t = Moves u
      \<and> mp_reads u = [(READ_BUFFER_SIZE, 0)]" if r: "MP_read pos n \<in> set (pending t)" for pos n
  proof -
    obtain u where u: "mp_step fac (MP_read_done pos n success_code []) t = Moves u"
      using mp_step_fails [OF mpi.kept_run [OF es assms(8)], of fac "MP_read_done pos n success_code []"] r assms(4)
      by (cases "mp_step fac (MP_read_done pos n success_code []) t") auto
    have inv: "mp_read_inv p t"
      using t by (auto simp: mp_full_def mp_simulates_def)
    have "mp_on_read fac success_code 0 (store_read pos [] (finish_op (MP_read pos n) t)) = Inr u"
      using u r by simp
    then obtain w where "u = mp_do_read w"
      using mp_on_read_Inr [of fac success_code 0 "store_read pos [] (finish_op (MP_read pos n) t)" u p] inv
      by (auto simp: mp_read_inv_def store_read_def aio_defs)
    then have "MP_read (read_pos w) (READ_BUFFER_SIZE - read_pos w) \<in> set (pending u)"
      by (simp add: mp_do_read_def aio_defs)
    with mp_full_reads [OF mp_full_step [OF t u]] u show ?thesis
      by blast
  qed
  then show ?thesis
    using t mp_full_reads [OF t] by (auto simp: mp_full_def)
qed

theorem full_buffer_wedges_witness:
  "\<exists>s0 s. mp_started demo_fac (replicate 4096 NUL) ''S'' ''line'' ''p'' = Inr s0
    \<and> run (mp_step demo_fac) [MP_run_task 0, MP_read_done 0 4096 success_code (replicate 4096 NUL)] s0
      = Moves s
    \<and> (\<forall>es t. run (mp_step demo_fac) es s = Moves t \<longrightarrow> messages t = [])"
proof -
  let ?es = "[MP_run_task 0, MP_read_done 0 4096 success_code (replicate 4096 NUL)]"
  have none: "take_lines [] (replicate 4096 NUL) = ([], replicate 4096 NUL)"
    by (simp add: take_lines_no_LF)
  obtain s0 where s0: "mp_started demo_fac (replicate 4096 NUL) ''S'' ''line'' ''p'' = Inr s0"
    by (simp add: mp_run_defs)
  have "\<exists>s. run (mp_step demo_fac) ?es s0 = Moves s \<and> read_pos s = 4096 \<and> messages s = []
      \<and> read_buffer s = replicate 4096 NUL"
    using s0 by (auto simp: mp_run_defs overwrite_fresh line_process_data_eq replaces_protocol_def
        none messages_def)
  then obtain s where s: "run (mp_step demo_fac) ?es s0 = Moves s" "read_pos s = READ_BUFFER_SIZE"
      "messages s = []" "read_buffer s = replicate 4096 NUL"
    by (auto simp: READ_BUFFER_SIZE_def)
  then have "parse LineProtocolHandler (buffered s) = ([], 0)"
    by (simp add: buffered_def none READ_BUFFER_SIZE_def)
  from full_buffer_wedges [OF s0 length_fresh demo_fac_simps(2) _ s(1,2) this] s0 s show ?thesis
    by auto
qed

section \<open>A handler that replaces its caller\<close>

text \<open>The protocol name that the detector looks up for a first message.\<close>

definition detected :: "bytes \<Rightarrow> string" where
  "detected m = (if starts_with ''GET /'' m \<or> starts_with ''POST /'' m then ''http'' else ''line'')"

lemma process_message_detector:
  assumes "data_handler s = Some ProtocolDetector"
  shows "data_handler (process_message fac m s) = Some ProtocolDetector"
    and "protocol_epoch (process_message fac m s)
      = (if fac (detected m) = None then protocol_epoch s else Suc (protocol_epoch s))"
  using assms
  by (auto simp: process_message_def process_app_data_def detect_protocol_def detected_def
      create_protocol_def set_metadata_def set_protocol_def safe_write_def aio_defs Let_def
      split: option.split)

lemma line_scan_replaced:
  assumes "start \<le> i" "i \<le> len" "len \<le> length data" "start = 0 \<or> data ! (start - 1) = LF"
    and "protocol_epoch s \<noteq> e" "LF \<in> set (segment data i (len - i))"
  shows "line_scan fac e data len i start processed s = Inl (Undefined Use_after_free)"
  using assms
proof (induction "len - i" arbitrary: i)
  case 0
  then show ?case by (simp add: segment_0)
next
  case (Suc n)
  then have i: "i < len" "i < length data" by simp_all
  show ?case
  proof (cases "data ! i = LF")
    case True
    then show ?thesis
      using i(1) Suc.prems(5) scanned_line(1) [OF Suc.prems(1) i(2) Suc.prems(4)]
      by (subst line_scan.simps) (simp add: Let_def)
  next
    case False
    then have "line_scan fac e data len (Suc i) start processed s = Inl (Undefined Use_after_free)"
      using Suc.hyps(1) [of "Suc i"] Suc.hyps(2) Suc.prems i segment_Cons [OF i(1) Suc.prems(3)] by auto
    then show ?thesis
      using False i(1) by (subst line_scan.simps) simp
  qed
qed

lemma first_occurrence:
  assumes "a @ x # c = b @ x # d" "x \<notin> set a" "x \<notin> set b"
  shows "a = b" "c = d"
proof -
  show "a = b"
    using takeWhile_until [OF assms(2), of c] takeWhile_until [OF assms(3), of d] assms(1) by simp
  with assms(1) show "c = d" by simp
qed

lemma line_scan_detector:
  assumes "start \<le> i" "i \<le> len" "len \<le> length data" "start = 0 \<or> data ! (start - 1) = LF"
    and "data_handler s = Some ProtocolDetector" "protocol_epoch s = e"
    and "LF \<notin> set (segment data start (i - start))"
    and "segment data start (i - start) @ segment data i (len - i) = l @ LF # tail"
    and "LF \<notin> set l" "LF \<in> set tail" "fac (detected (strip_cr l)) \<noteq> None"
  shows "line_scan fac e data len i start processed s = Inl (Undefined Use_after_free)"
  using assms
proof (induction "len - i" arbitrary: i)
  case 0
  then have "segment data start (i - start) = l @ LF # tail"
    by (simp add: segment_0)
  with 0 show ?case by simp
next
  case (Suc n)
  then have i: "i < len" "i < length data" by simp_all
  note seg = segment_Cons [OF i(1) Suc.prems(3)]
  show ?case
  proof (cases "data ! i = LF")
    case True
    then have "segment data start (i - start) @ LF # segment data (Suc i) (len - Suc i) = l @ LF # tail"
      using Suc.prems(8) by (simp add: seg)
    note l = first_occurrence [OF this Suc.prems(7,9), symmetric]
    let ?t = "process_message fac (strip_cr l) s"
    have "line_scan fac e data len (Suc i) (Suc i) (Suc i) ?t = Inl (Undefined Use_after_free)"
      using line_scan_replaced [of "Suc i" "Suc i" len data ?t e fac] i(1) Suc.prems True l
        process_message_detector(2) [OF Suc.prems(5), of fac "strip_cr l"] by auto
    then show ?thesis
      using True i(1) Suc.prems(6) scanned_line [OF Suc.prems(1) i(2) Suc.prems(4)] l(1)
      by (subst line_scan.simps) (simp add: Let_def)
  next
    case False
    then have "line_scan fac e data len (Suc i) start processed s = Inl (Undefined Use_after_free)"
      using Suc.hyps(1) [of "Suc i"] Suc.hyps(2) Suc.prems i seg segment_Suc [OF Suc.prems(1) i(2)] by auto
    then show ?thesis
      using False i(1) by (subst line_scan.simps) simp
  qed
qed

text \<open>
  The protocol detector destroys the handler that is calling it. When a session with
  the detector receives two complete lines in one scan and the protocol detected from the
  first is registered, the scan goes on in a destroyed line handler; with a fixed-length
  handler already the first frame does, since \<open>return frame_size_\<close> reads the destroyed
  object.
\<close>

theorem detector_destroys_caller:
  assumes "data_handler s = Some ProtocolDetector" "len \<le> length data"
  shows "(take len data = l @ LF # tail \<and> LF \<notin> set l \<and> LF \<in> set tail
      \<and> fac (detected (strip_cr l)) \<noteq> None \<longrightarrow>
      line_process_data fac data len s = Inl (Undefined Use_after_free))
    \<and> (n \<le> len \<and> fac (detected (take n data)) \<noteq> None \<longrightarrow>
      fixed_process_data n fac data len s = Inl (Undefined Use_after_free))"
  using line_scan_detector [of 0 0 len data s "protocol_epoch s" l tail fac 0] assms
    process_message_detector(2) [OF assms(1), of fac "take n data"]
  by (simp add: line_process_data_def fixed_process_data_def segment_0 segment_from_0 Let_def)

theorem detector_destroys_caller_witness:
  "line_process_data demo_fac (''hi'' @ [LF] @ ''you'' @ [LF]) 7
     (mp_demo LineProtocolHandler ProtocolDetector 0) = Inl (Undefined Use_after_free)"
  using detector_destroys_caller [of "mp_demo LineProtocolHandler ProtocolDetector 0" 7
    "''hi'' @ [LF] @ ''you'' @ [LF]" "''hi''" "''you'' @ [LF]" demo_fac 0]
  by (simp add: mp_demo_def detected_def starts_with_def strip_cr_def)

end
