(* ===== verification/Worker_Threads.thy ===== *)
theory Worker_Threads
  imports Socket_Link
begin

text \<open>
  The handlers of one object run by several threads, one access to the shared state at a
  time. A thread is idle or at a point \<open>pc\<close> of a handler. \<open>start i x\<close> is the first access of
  the handler \<open>x\<close> in thread \<open>i\<close>, \<open>go pc\<close> the next access of a handler under way; both also
  say where the thread is afterwards. The contract \<open>worker_handlers\<close> relates the accesses to
  a step function that runs the same handlers whole: as long as no handler starts while
  another one is under way, the threads do what that step function does with the handlers
  in the order in which they were started. A single thread always runs that way; several
  threads do when a strand serialises them.
\<close>

section \<open>Threads and accesses\<close>

record ('s, 'pc) workers =
  w_state :: 's
  w_pcs :: "'pc option list"

datatype 'x access = Starts 'x | Goes

definition w_put :: "nat \<Rightarrow> ('s, 'pc) workers \<Rightarrow> 'pc option \<times> 's \<Rightarrow> ('s, 'pc) workers" where
  "w_put i r p = \<lparr>w_state = snd p, w_pcs = (w_pcs r)[i := fst p]\<rparr>"

fun workers_step ::
    "(nat \<Rightarrow> 'x \<Rightarrow> 's \<Rightarrow> ('pc option \<times> 's) outcome) \<Rightarrow> ('pc \<Rightarrow> 's \<Rightarrow> ('pc option \<times> 's) outcome)
      \<Rightarrow> nat \<times> 'x access \<Rightarrow> ('s, 'pc) workers \<Rightarrow> ('s, 'pc) workers outcome" where
  "workers_step start go (i, Starts x) r =
     (if i < length (w_pcs r) \<and> w_pcs r ! i = None
      then map_outcome (w_put i r) (start i x (w_state r)) else Disabled)"
| "workers_step start go (i, Goes) r =
     (if i < length (w_pcs r) then
        (case w_pcs r ! i of
           None \<Rightarrow> Disabled
         | Some pc \<Rightarrow> map_outcome (w_put i r) (go pc (w_state r)))
      else Disabled)"

text \<open>\<open>n\<close> threads, all of them idle.\<close>

definition at_rest :: "nat \<Rightarrow> 's \<Rightarrow> ('s, 'pc) workers" where
  "at_rest n s = \<lparr>w_state = s, w_pcs = replicate n None\<rparr>"

lemma at_rest_simps [simp]:
  "w_state (at_rest n s) = s" "w_pcs (at_rest n s) = replicate n None"
  by (simp_all add: at_rest_def)

lemma at_rest_2: "at_rest 2 s = \<lparr>w_state = s, w_pcs = [None, None]\<rparr>"
  by (simp add: at_rest_def numeral_2_eq_2)

text \<open>No overlap: a handler starts only while no other one is under way.\<close>

fun no_overlap :: "nat \<times> 'x access \<Rightarrow> ('s, 'pc) workers \<Rightarrow> bool" where
  "no_overlap (i, Starts x) r = list_all (\<lambda>pc. pc = None) (w_pcs r)"
| "no_overlap (i, Goes) r = True"

text \<open>A condition on the events of the whole handlers, put to the start of a handler.\<close>

fun on_start :: "('x \<Rightarrow> 'e) \<Rightarrow> ('e \<Rightarrow> 's \<Rightarrow> bool) \<Rightarrow> nat \<times> 'x access \<Rightarrow> ('s, 'pc) workers \<Rightarrow> bool" where
  "on_start handler ok (i, Starts x) r = ok (handler x) (w_state r)"
| "on_start handler ok (i, Goes) r = True"

definition orderly :: "('x \<Rightarrow> 'e) \<Rightarrow> ('e \<Rightarrow> 's \<Rightarrow> bool) \<Rightarrow> nat \<times> 'x access \<Rightarrow> ('s, 'pc) workers \<Rightarrow> bool" where
  "orderly handler ok x r \<longleftrightarrow> no_overlap x r \<and> on_start handler ok x r"

text \<open>The handlers that were started, as the events of the step function.\<close>

fun started :: "('x \<Rightarrow> 'e) \<Rightarrow> (nat \<times> 'x access) list \<Rightarrow> 'e list" where
  "started handler [] = []"
| "started handler ((i, Starts x) # as) = handler x # started handler as"
| "started handler ((i, Goes) # as) = started handler as"

text \<open>What is left of a handler, for a thread that may be idle.\<close>

fun rest_of :: "('pc \<Rightarrow> 's \<Rightarrow> 's result) \<Rightarrow> 'pc option \<times> 's \<Rightarrow> 's result" where
  "rest_of remaining (None, s) = Inr s"
| "rest_of remaining (Some pc, s) = remaining pc s"

lemma map_outcome_eqs [simp]:
  "map_outcome f x = Moves t \<longleftrightarrow> (\<exists>s. x = Moves s \<and> t = f s)"
  "map_outcome f x = Fails g \<longleftrightarrow> x = Fails g"
  by (cases x; auto)+

lemma all_idle: "list_all (\<lambda>pc. pc = None) pcs \<longleftrightarrow> pcs = replicate (length pcs) None"
  by (induction pcs) auto

lemma replicate_update [simp]: "(replicate n x)[i := x] = replicate n x"
  using list_update_id [of "replicate n x" i] by (cases "i < n") (simp_all add: list_update_beyond)

text \<open>A single thread never has two handlers under way.\<close>

lemma single_worker:
  "run (workers_step start go) as r \<noteq> Disabled \<Longrightarrow> length (w_pcs r) = 1 \<Longrightarrow>
    guarded no_overlap (workers_step start go) as r"
proof (induction as arbitrary: r)
  case (Cons a as)
  obtain i y where a: "a = (i, y)" by (cases a)
  obtain pc where pcs: "w_pcs r = [pc]"
    using Cons.prems(2) by (auto simp: length_Suc_conv)
  have "no_overlap a r"
    using Cons.prems(1) pcs by (cases y) (auto simp: a split: if_splits)
  moreover have "guarded no_overlap (workers_step start go) as t" if t: "workers_step start go a r = Moves t" for t
  proof -
    have "length (w_pcs t) = 1"
      using t pcs by (cases y) (auto simp: a w_put_def split: if_splits option.splits)
    then show ?thesis
      using Cons.IH [of t] Cons.prems(1) t by simp
  qed
  ultimately show ?case
    by (auto split: outcome.split)
qed simp

lemma no_workers:
  assumes "run (workers_step start go) as (at_rest n s) \<noteq> Disabled" "n = 0"
  shows "as = []"
proof (cases as)
  case (Cons a bs)
  obtain i y where "a = (i, y)" by (cases a)
  with Cons assms show ?thesis by (cases y) auto
qed

section \<open>Without overlap the accesses are the handlers\<close>

locale worker_handlers =
  fixes step :: "'e \<Rightarrow> 's \<Rightarrow> 's outcome"
    and start :: "nat \<Rightarrow> 'x \<Rightarrow> 's \<Rightarrow> ('pc option \<times> 's) outcome"
    and go :: "'pc \<Rightarrow> 's \<Rightarrow> ('pc option \<times> 's) outcome"
    and handler :: "'x \<Rightarrow> 'e"
    and remaining :: "'pc \<Rightarrow> 's \<Rightarrow> 's result"
  assumes start_moves: "start i x s = Moves p \<Longrightarrow> step (handler x) s = outcome_of (rest_of remaining p)"
    and start_fails: "start i x s = Fails f \<Longrightarrow> step (handler x) s = Fails f"
    and go_moves: "go pc s = Moves p \<Longrightarrow> remaining pc s = rest_of remaining p"
    and go_fails: "go pc s = Fails f \<Longrightarrow> remaining pc s = Inl f"
begin

text \<open>
  At most one thread is in a handler, and if it ran on undisturbed the state would be the one
  that the step function reaches by the handlers started so far.
\<close>

definition serial :: "nat \<Rightarrow> 's \<Rightarrow> 'e list \<Rightarrow> ('s, 'pc) workers \<Rightarrow> bool" where
  "serial n s0 es r \<longleftrightarrow> (\<exists>i pc. i < n \<and> w_pcs r = (replicate n None)[i := pc]
     \<and> run step es s0 = outcome_of (rest_of remaining (pc, w_state r)))"

lemma serial_idle:
  assumes "serial n s0 es r" "list_all (\<lambda>pc. pc = None) (w_pcs r)"
  shows "w_pcs r = replicate n None \<and> run step es s0 = Moves (w_state r)"
proof -
  obtain i pc where r: "i < n" "w_pcs r = (replicate n None)[i := pc]"
      "run step es s0 = outcome_of (rest_of remaining (pc, w_state r))"
    using assms(1) by (auto simp: serial_def)
  then have "pc = None"
    using assms(2) by (auto simp: list_all_iff set_update_memI)
  with r show ?thesis by simp
qed

lemma serial_step:
  assumes "serial n s0 es r" "no_overlap a r" "workers_step start go a r = Moves t"
  shows "serial n s0 (es @ started handler [a]) t"
proof (cases a)
  case (Pair i y)
  show ?thesis
  proof (cases y)
    case (Starts x)
    then obtain p where p: "i < n" "start i x (w_state r) = Moves p" "t = w_put i r p"
      using assms serial_idle [OF assms(1)] Pair by (auto split: if_splits)
    have "run step (es @ [handler x]) s0 = outcome_of (rest_of remaining p)"
      using serial_idle [OF assms(1)] assms(2) start_moves [OF p(2)] Pair Starts
      by (simp add: run_append split: outcome.split)
    then show ?thesis
      using p serial_idle [OF assms(1)] assms(2) Pair Starts unfolding serial_def w_put_def
      by (intro exI [of _ i] exI [of _ "fst p"]) simp
  next
    case Goes
    obtain j pc where r: "j < n" "w_pcs r = (replicate n None)[j := pc]"
        "run step es s0 = outcome_of (rest_of remaining (pc, w_state r))"
      using assms(1) by (auto simp: serial_def)
    obtain c p where c: "i < n" "w_pcs r ! i = Some c" "go c (w_state r) = Moves p" "t = w_put i r p"
      using assms(3) r(2) Pair Goes by (auto split: if_splits option.splits)
    then have "i = j" "pc = Some c"
      using r(1,2) by (auto simp: nth_list_update split: if_splits)
    then show ?thesis
      using r c go_moves [OF c(3)] Pair Goes unfolding serial_def w_put_def
      by (intro exI [of _ i] exI [of _ "fst p"]) simp
  qed
qed

lemma serial_fails:
  assumes "serial n s0 es r" "no_overlap a r" "workers_step start go a r = Fails f"
  shows "run step (es @ started handler [a]) s0 = Fails f"
proof (cases a)
  case (Pair i y)
  show ?thesis
  proof (cases y)
    case (Starts x)
    then have "start i x (w_state r) = Fails f" "run step es s0 = Moves (w_state r)"
      using assms serial_idle [OF assms(1)] Pair by (auto split: if_splits)
    with start_fails Pair Starts show ?thesis
      by (simp add: run_append)
  next
    case Goes
    obtain j pc where r: "j < n" "w_pcs r = (replicate n None)[j := pc]"
        "run step es s0 = outcome_of (rest_of remaining (pc, w_state r))"
      using assms(1) by (auto simp: serial_def)
    obtain c where c: "i < n" "w_pcs r ! i = Some c" "go c (w_state r) = Fails f"
      using assms(3) r(2) Pair Goes by (auto split: if_splits option.splits)
    then have "pc = Some c"
      using r(1,2) by (auto simp: nth_list_update split: if_splits)
    with r go_fails [OF c(3)] Pair Goes show ?thesis by simp
  qed
qed

lemma serial_run:
  "serial n s0 es r \<Longrightarrow> run (workers_step start go) as r = Moves t \<Longrightarrow>
    guarded no_overlap (workers_step start go) as r \<Longrightarrow> serial n s0 (es @ started handler as) t"
proof (induction as arbitrary: es r)
  case (Cons a as)
  from Cons.prems(2) obtain u where u: "workers_step start go a r = Moves u"
      "run (workers_step start go) as u = Moves t"
    unfolding run_Cons_Moves by blast
  have "started handler (a # as) = started handler [a] @ started handler as"
    by (cases a; cases "snd a") auto
  then show ?case
    using Cons.IH [OF serial_step [OF Cons.prems(1) _ u(1)] u(2)] Cons.prems(3) u(1) by simp
qed simp

lemma serial_start: "0 < n \<Longrightarrow> serial n s [] (at_rest n s)"
  unfolding serial_def by (intro exI [of _ 0] exI [of _ None]) simp

text \<open>The runs of \<open>n\<close> idle threads.\<close>

lemma rest_run:
  assumes "run (workers_step start go) as (at_rest n s) = Moves (at_rest n t)"
    and "guarded no_overlap (workers_step start go) as (at_rest n s)"
  shows "run step (started handler as) s = Moves t"
proof (cases "0 < n")
  case True
  note serial = serial_run [OF serial_start [OF True] assms]
  show ?thesis
    using serial_idle [OF serial] by (simp add: list_all_iff)
next
  case False
  then have "as = []"
    using no_workers [of start go as n s] assms(1) by simp
  with assms(1) show ?thesis by (simp add: at_rest_def)
qed

lemma failing_run:
  assumes "run (workers_step start go) as (at_rest n s) = Fails f"
    and "guarded no_overlap (workers_step start go) as (at_rest n s)"
  shows "\<exists>es. run step es s = Fails f"
proof -
  have n: "0 < n"
    using no_workers [of start go as n s] assms(1) by fastforce
  obtain as1 a u where a: "run (workers_step start go) as1 (at_rest n s) = Moves u"
      "guarded no_overlap (workers_step start go) as1 (at_rest n s)" "no_overlap a u"
      "workers_step start go a u = Fails f"
    using run_failing_step [OF assms] by blast
  from serial_fails [OF serial_run [OF serial_start [OF n] a(1,2)] a(3,4)] show ?thesis by blast
qed

text \<open>Conditions on the start of handlers are conditions on the events.\<close>

lemma serial_guarded:
  "serial n s0 es r \<Longrightarrow> run (workers_step start go) as r = Moves t \<Longrightarrow>
    guarded (orderly handler ok) (workers_step start go) as r \<Longrightarrow> guarded ok step es s0 \<Longrightarrow>
    guarded ok step (es @ started handler as) s0"
proof (induction as arbitrary: es r)
  case (Cons a as)
  from Cons.prems(2) obtain u where u: "workers_step start go a r = Moves u"
      "run (workers_step start go) as u = Moves t"
    unfolding run_Cons_Moves by blast
  have "orderly handler ok a r" "guarded (orderly handler ok) (workers_step start go) as u"
    using Cons.prems(3) u(1) by simp_all
  then have a: "no_overlap a r" "on_start handler ok a r" "guarded (orderly handler ok) (workers_step start go) as u"
    by (simp_all add: orderly_def)
  have g: "guarded ok step (es @ started handler [a]) s0"
  proof (cases a)
    case (Pair i y)
    then show ?thesis
      using Cons.prems(4) a(1,2) serial_idle [OF Cons.prems(1)]
      by (cases y) (auto simp: guarded_append split: outcome.split)
  qed
  have "started handler (a # as) = started handler [a] @ started handler as"
    by (cases a; cases "snd a") auto
  with Cons.IH [OF serial_step [OF Cons.prems(1) a(1) u(1)] u(2) a(3) g] show ?case
    by simp
qed simp

lemma rest_guarded:
  assumes "run (workers_step start go) as (at_rest n s) = Moves t"
    and "guarded (orderly handler ok) (workers_step start go) as (at_rest n s)"
  shows "guarded ok step (started handler as) s"
proof (cases "0 < n")
  case True
  from serial_guarded [OF serial_start [OF True] assms] show ?thesis by simp
next
  case False
  then have "as = []"
    using no_workers [of start go as n s] assms(1) by simp
  then show ?thesis by simp
qed

lemma orderly_no_overlap:
  "guarded (orderly handler ok) step' as r \<Longrightarrow> guarded no_overlap step' as r"
  by (erule guarded_mono) (simp add: orderly_def)

end

section \<open>Threads as a peer\<close>

text \<open>
  A connection whose one end is served by several threads. The end takes its bytes where a
  read handler starts; the link is calm as long as no two handlers overlap and each is calm
  when it starts.
\<close>

fun access_takes :: "('x \<Rightarrow> 'e) \<Rightarrow> ('e \<Rightarrow> bytes) \<Rightarrow> nat \<times> 'x access \<Rightarrow> bytes" where
  "access_takes handler takes (i, Starts x) = takes (handler x)"
| "access_takes handler takes (i, Goes) = []"

definition workers_peer ::
    "(nat \<Rightarrow> 'x \<Rightarrow> 's \<Rightarrow> ('pc option \<times> 's) outcome) \<Rightarrow> ('pc \<Rightarrow> 's \<Rightarrow> ('pc option \<times> 's) outcome)
      \<Rightarrow> ('x \<Rightarrow> 'e) \<Rightarrow> ('e, 's) peer \<Rightarrow> (nat \<times> 'x access, ('s, 'pc) workers) peer" where
  "workers_peer start go handler Q =
     \<lparr>peer_step = workers_step start go, peer_sent = (\<lambda>r. peer_sent Q (w_state r)),
      peer_takes = access_takes handler (peer_takes Q), peer_calm = orderly handler (peer_calm Q)\<rparr>"

locale worker_peer = worker_handlers "peer_step Q" start go handler remaining
  for Q :: "('e, 's) peer"
    and start :: "nat \<Rightarrow> 'x \<Rightarrow> 's \<Rightarrow> ('pc option \<times> 's) outcome"
    and go :: "'pc \<Rightarrow> 's \<Rightarrow> ('pc option \<times> 's) outcome"
    and handler :: "'x \<Rightarrow> 'e"
    and remaining :: "'pc \<Rightarrow> 's \<Rightarrow> 's result" +
  assumes start_sends: "peer_calm Q (handler x) s \<Longrightarrow> start i x s = Moves (pc, t) \<Longrightarrow>
      prefix (peer_sent Q s) (peer_sent Q t)"
    and go_sends: "go c s = Moves (pc, t) \<Longrightarrow> prefix (peer_sent Q s) (peer_sent Q t)"

sublocale worker_peer \<subseteq> socket_peer "workers_peer start go handler Q" "\<lambda>_. True"
proof unfold_locales
  fix r :: "('s, 'pc) workers" and a t
  assume a: "peer_calm (workers_peer start go handler Q) a r" "peer_step (workers_peer start go handler Q) a r = Moves t"
  obtain i y where "a = (i, y)" by (cases a)
  then show "prefix (peer_sent (workers_peer start go handler Q) r) (peer_sent (workers_peer start go handler Q) t)"
    using a start_sends go_sends
    by (cases y) (force simp: workers_peer_def orderly_def w_put_def split: if_splits option.splits)+
qed simp

context worker_peer begin

lemma taken_started: "taken (workers_peer start go handler Q) as = taken Q (started handler as)"
  by (induction handler as rule: started.induct) (simp_all add: workers_peer_def)

text \<open>A link to these threads, seen when they are idle again.\<close>

lemma linked_at_rest:
  assumes "run (link_step P (workers_peer start go handler Q)) es (link_init c (at_rest n s)) = Moves l"
    and "lk_right l = at_rest n t"
  shows "run (peer_step Q) (started handler (rights es)) s = Moves t"
    and "guarded (peer_calm Q) (peer_step Q) (started handler (rights es)) s"
proof -
  have right: "run (workers_step start go) (rights es) (at_rest n s) = Moves (at_rest n t)"
      "guarded (orderly handler (peer_calm Q)) (workers_step start go) (rights es) (at_rest n s)"
    using link_run_right [OF assms(1)] assms(2) by (simp_all add: workers_peer_def link_init_def)
  from rest_run [OF right(1) orderly_no_overlap [OF right(2)]]
  show "run (peer_step Q) (started handler (rights es)) s = Moves t" .
  from rest_guarded [OF right]
  show "guarded (peer_calm Q) (peer_step Q) (started handler (rights es)) s" .
qed

end

end
