(* ===== verification/Protocol_Race.thy ===== *)
theory Protocol_Race
  imports Protocol_Replies Worker_Threads
begin

text \<open>
  The handlers of a \<open>Session\<close> of \<^verbatim>\<open>asio-1.28_server_multi_protocol/src/test.cpp\<close> as several
  worker threads run them. All workers run one \<open>io_context\<close> and there is no strand, so the
  lambda that \<open>safe_write\<close> posts and the completion of a write may overlap in two threads.
  One step is one access to the write queue, or one start of a write, of one worker; the
  handlers that do not touch the queue (reads, and \<open>post\<close> itself) are one step each, and so
  is the handler of a failed write. The theories before this one run handlers whole. By the
  contract of \<^theory_text>\<open>Worker_Threads\<close> what they prove holds of the workers as long as no two
  handlers of the session overlap, in particular when there is one worker only; the last
  section shows what happens otherwise.
\<close>

section \<open>One access at a time\<close>

datatype mp_pc =
    T_prepared bytes         \<comment> \<open>lambda: after \<open>prepare_send\<close>\<close>
  | T_tested bytes bool      \<comment> \<open>lambda: after \<open>write_queue_.empty()\<close>\<close>
  | T_pushed bool            \<comment> \<open>lambda: after \<open>emplace_back\<close>\<close>
  | T_completed              \<comment> \<open>completion: entered without error\<close>
  | T_popped                 \<comment> \<open>completion: after \<open>pop_front\<close>\<close>
  | T_write_next             \<comment> \<open>completion: the queue was found not empty\<close>

text \<open>
  A worker takes a posted lambda, enters the completion of a successful write, or runs a
  whole handler of another kind. An access yields where the worker is then (None: idle
  again) and the session.
\<close>

datatype mp_access = A_take nat | A_complete bytes | A_whole mp_event

type_synonym mp_accessed = "(mp_pc option \<times> mp_session) outcome"

text \<open>The handlers that do not touch the queue, and that of a failed write.\<close>

fun whole_handler :: "mp_event \<Rightarrow> mp_session \<Rightarrow> bool" where
  "whole_handler (MP_call_safe_write data) s = True"
| "whole_handler (MP_run_task k) s = (k < length (posted s) \<and> posted s ! k = MP_read_task)"
| "whole_handler (MP_read_done pos n ec data) s = True"
| "whole_handler (MP_write_done m ec) s = (\<not> ec_ok ec)"

definition access_whole :: "protocol_factory \<Rightarrow> mp_event \<Rightarrow> mp_session \<Rightarrow> mp_accessed" where
  "access_whole fac e s =
     (if whole_handler e s then map_outcome (Pair None) (mp_step fac e s) else Disabled)"

text \<open>The lambda of \<open>safe_write\<close>.\<close>

definition access_take :: "nat \<Rightarrow> mp_session \<Rightarrow> mp_accessed" where
  "access_take k s =
     (if k < length (posted s) then
        (case posted s ! k of
           MP_read_task \<Rightarrow> Disabled
         | MP_write_task data \<Rightarrow>
             (case protocol s of
                None \<Rightarrow> Fails (Undefined Null_deref)
              | Some p \<Rightarrow> outcome_of (rbind (prepare_send p data) (\<lambda>buf.
                  Inr (Some (T_prepared buf), take_task k s)))))
      else Disabled)"

definition access_test :: "bytes \<Rightarrow> mp_session \<Rightarrow> mp_accessed" where
  "access_test buf s = Moves (Some (T_tested buf (write_queue s \<noteq> [])), s)"

definition access_push :: "bytes \<Rightarrow> bool \<Rightarrow> mp_session \<Rightarrow> mp_accessed" where
  "access_push buf write_in_progress s =
     Moves (Some (T_pushed write_in_progress), s\<lparr>write_queue := write_queue s @ [buf]\<rparr>)"

definition access_write :: "bool \<Rightarrow> mp_session \<Rightarrow> mp_accessed" where
  "access_write write_in_progress s =
     outcome_of (rbind (if \<not> write_in_progress then start_writing s else Inr s) (\<lambda>s. Inr (None, s)))"

text \<open>The handler of a write that succeeded.\<close>

definition access_complete :: "bytes \<Rightarrow> mp_session \<Rightarrow> mp_accessed" where
  "access_complete m s =
     (if MP_write m \<in> set (pending s) then Moves (Some T_completed, finish_op (MP_write m) s) else Disabled)"

definition access_pop :: "mp_session \<Rightarrow> mp_accessed" where
  "access_pop s =
     (case write_queue s of
        [] \<Rightarrow> Fails (Undefined Empty_container)
      | _ # bufs \<Rightarrow> Moves (Some T_popped, s\<lparr>write_queue := bufs\<rparr>))"

definition access_check :: "mp_session \<Rightarrow> mp_accessed" where
  "access_check s = Moves (if write_queue s \<noteq> [] then Some T_write_next else None, s)"

definition access_next :: "mp_session \<Rightarrow> mp_accessed" where
  "access_next s = outcome_of (rbind (start_writing s) (\<lambda>s. Inr (None, s)))"

text \<open>All workers are alike: any of them may start any handler.\<close>

definition mp_start_access :: "protocol_factory \<Rightarrow> nat \<Rightarrow> mp_access \<Rightarrow> mp_session \<Rightarrow> mp_accessed" where
  "mp_start_access fac i a s =
     (case a of
        A_take k \<Rightarrow> access_take k s
      | A_complete m \<Rightarrow> access_complete m s
      | A_whole e \<Rightarrow> access_whole fac e s)"

definition mp_go_access :: "mp_pc \<Rightarrow> mp_session \<Rightarrow> mp_accessed" where
  "mp_go_access pc s =
     (case pc of
        T_prepared buf \<Rightarrow> access_test buf s
      | T_tested buf b \<Rightarrow> access_push buf b s
      | T_pushed b \<Rightarrow> access_write b s
      | T_completed \<Rightarrow> access_pop s
      | T_popped \<Rightarrow> access_check s
      | T_write_next \<Rightarrow> access_next s)"

type_synonym mp_workers = "(mp_session, mp_pc) workers"

abbreviation mp_workers_step ::
    "protocol_factory \<Rightarrow> nat \<times> mp_access access \<Rightarrow> mp_workers \<Rightarrow> mp_workers outcome" where
  "mp_workers_step fac \<equiv> workers_step (mp_start_access fac) mp_go_access"

named_theorems acc_defs

lemmas [acc_defs] = access_take_def access_test_def access_push_def access_write_def
  access_complete_def access_pop_def access_check_def access_next_def access_whole_def
  mp_start_access_def mp_go_access_def Let_def

section \<open>Without overlap, the accesses are the handlers\<close>

text \<open>The event of a handler, and what remains of it if it runs on undisturbed.\<close>

fun mp_handler :: "mp_access \<Rightarrow> mp_event" where
  "mp_handler (A_take k) = MP_run_task k"
| "mp_handler (A_complete m) = MP_write_done m success_code"
| "mp_handler (A_whole e) = e"

fun mp_remaining :: "mp_pc \<Rightarrow> mp_session \<Rightarrow> mp_session result" where
  "mp_remaining (T_pushed b) s = (if \<not> b then start_writing s else Inr s)"
| "mp_remaining (T_tested buf b) s =
     (if \<not> b then start_writing (s\<lparr>write_queue := write_queue s @ [buf]\<rparr>)
      else Inr (s\<lparr>write_queue := write_queue s @ [buf]\<rparr>))"
| "mp_remaining (T_prepared buf) s =
     (if write_queue s = [] then start_writing (s\<lparr>write_queue := write_queue s @ [buf]\<rparr>)
      else Inr (s\<lparr>write_queue := write_queue s @ [buf]\<rparr>))"
| "mp_remaining T_write_next s = start_writing s"
| "mp_remaining T_popped s = (if write_queue s \<noteq> [] then start_writing s else Inr s)"
| "mp_remaining T_completed s =
     (case write_queue s of
        [] \<Rightarrow> Inl (Undefined Empty_container)
      | _ # bufs \<Rightarrow> (if bufs \<noteq> [] then start_writing (s\<lparr>write_queue := bufs\<rparr>) else Inr (s\<lparr>write_queue := bufs\<rparr>)))"

lemma mp_start_moves:
  "mp_start_access fac i a s = Moves p \<Longrightarrow> mp_step fac (mp_handler a) s = outcome_of (rest_of mp_remaining p)"
  by (cases a) (auto simp: acc_defs rbind_Inr_iff mp_run_task_def mp_write_task_def mp_on_write_def take_task_def
      split: if_splits mp_task.splits option.splits list.splits)

lemma mp_start_fails: "mp_start_access fac i a s = Fails f \<Longrightarrow> mp_step fac (mp_handler a) s = Fails f"
  by (cases a) (auto simp: acc_defs mp_run_task_def mp_write_task_def rbind_Inl_iff take_task_def
      split: if_splits mp_task.splits option.splits)

lemma mp_go_moves: "mp_go_access pc s = Moves p \<Longrightarrow> mp_remaining pc s = rest_of mp_remaining p"
  by (cases pc) (auto simp: acc_defs rbind_Inr_iff split: if_splits list.splits)

lemma mp_go_fails: "mp_go_access pc s = Fails f \<Longrightarrow> mp_remaining pc s = Inl f"
  by (cases pc) (auto simp: acc_defs rbind_Inl_iff split: if_splits list.splits)

interpretation mpt: worker_handlers "mp_step fac" "mp_start_access fac" mp_go_access mp_handler mp_remaining
  by unfold_locales (erule mp_start_moves mp_start_fails mp_go_moves mp_go_fails)+


section \<open>Safety and replies for any number of workers\<close>

text \<open>
  C37: only an overlap can make an echo session fail. Run the session's handlers by any
  number of workers, access by access, whatever the peer sends and however reads, writes,
  posted tasks and errors interleave. If a step of a session with the line or a
  fixed-length protocol fails (an access outside the buffer, an underflow of a length or of
  \<open>read_pos_\<close>, the front of an empty queue, a destroyed handler, an exception), then there
  are several workers, and a handler was started while another one of the session was
  under way. A session served by one worker, or by a strand, never fails.
\<close>

theorem echo_workers_safe:
  assumes "mp_started fac mem sid proto peer = Inr s0" "length mem = READ_BUFFER_SIZE"
    and "fac proto = Some p" "p \<noteq> BinaryProtocolHandler"
    and "run (mp_workers_step fac) as (at_rest n s0) = Fails f"
  shows "1 < n \<and> \<not> guarded no_overlap (mp_workers_step fac) as (at_rest n s0)"
proof -
  have "\<not> guarded no_overlap (mp_workers_step fac) as (at_rest n s0)"
    using mpt.failing_run [OF assms(5)] echo_session_safe [OF assms(1-4)] by blast
  with single_worker [of "mp_start_access fac" mp_go_access as "at_rest n s0"]
    no_workers [of "mp_start_access fac" mp_go_access as n s0] assms(5) show ?thesis
    by (cases "n = 0"; cases "n = 1") auto
qed

text \<open>The example: two lines arrive, and two workers take the two posted replies at once.\<close>

definition two_lines :: "(nat \<times> mp_access access) list" where
  "two_lines = [(0, Starts (A_whole (MP_run_task 0))),
     (0, Starts (A_whole (MP_read_done 0 4096 success_code (''a'' @ [LF] @ ''b'' @ [LF]))))]"

definition overlapping_lambdas :: "(nat \<times> mp_access access) list" where
  "overlapping_lambdas = [(0, Starts (A_take 0)), (1, Starts (A_take 0)), (0, Goes), (1, Goes), (0, Goes),
     (1, Goes), (0, Goes), (1, Goes)]"

definition completions :: "bytes \<Rightarrow> bytes \<Rightarrow> (nat \<times> mp_access access) list" where
  "completions x y = [(0, Starts (A_complete x)), (0, Goes), (0, Goes), (0, Goes),
     (0, Starts (A_complete x)), (0, Goes), (0, Goes), (0, Starts (A_complete y)), (0, Goes)]"

theorem echo_workers_safe_witness:
  "\<exists>s0. mp_started demo_fac (replicate 4096 NUL) ''S'' ''line'' ''p'' = Inr s0
    \<and> \<not> guarded no_overlap (mp_workers_step demo_fac)
        (two_lines @ overlapping_lambdas @ completions (''Echo: a'' @ [CR, LF]) (''Echo: b'' @ [CR, LF]))
        (at_rest 2 s0)"
proof -
  obtain s0 where s0: "mp_started demo_fac (replicate 4096 NUL) ''S'' ''line'' ''p'' = Inr s0"
    by (simp add: mp_run_defs)
  have "run (mp_workers_step demo_fac) (two_lines @ overlapping_lambdas
        @ completions (''Echo: a'' @ [CR, LF]) (''Echo: b'' @ [CR, LF])) (at_rest 2 s0)
      = Fails (Undefined Empty_container)"
    using s0
    by (auto simp: two_lines_def overlapping_lambdas_def completions_def at_rest_2 w_put_def acc_defs
        mp_run_defs overwrite_fresh line_process_data_eq replaces_protocol_def strip_cr_def
        process_message_echo prepare_send_def line_prepare_send_def start_writing_def)
  from echo_workers_safe [OF s0 length_fresh demo_fac_simps(2) _ this] s0 show ?thesis
    by auto
qed

text \<open>
  The tasks of the session run in the order in which they were posted, nobody else writes to
  it, and no write fails.
\<close>

definition mp_quiet :: "mp_event \<Rightarrow> mp_session \<Rightarrow> bool" where
  "mp_quiet e s \<longleftrightarrow> mp_in_order e \<and> mp_label e s \<noteq> Breaks"

lemma guarded_in_order:
  "run step es s = Moves t \<Longrightarrow> guarded ok step es s \<Longrightarrow> (\<And>e s. ok e s \<Longrightarrow> mp_in_order e) \<Longrightarrow>
    list_all mp_in_order es"
proof (induction es arbitrary: s)
  case (Cons e es)
  then show ?case
    by (auto split: outcome.splits)
qed simp

text \<open>
  C27: every message is answered exactly once and in order, as long as handlers do not
  overlap. Run the session's handlers by any number of workers, access by access, such that
  no handler starts while another one of the session is under way, the posted tasks start
  in order, nobody else writes to the session and no write fails. Then, whenever no handler
  is under way, the encoded echoes of the messages received so far are, in this order: the
  replies completely written, the replies in the queue (the first of which is in flight),
  and the replies whose task is still posted.
\<close>

theorem echo_workers_reply:
  assumes "mp_started fac mem sid proto peer = Inr s0" "length mem = READ_BUFFER_SIZE"
    and "fac proto = Some p"
    and "run (mp_workers_step fac) as (at_rest n s0) = Moves (at_rest n s)"
    and "guarded (orderly mp_handler mp_quiet) (mp_workers_step fac) as (at_rest n s0)"
  shows "\<exists>sent. map (\<lambda>m. prepare_send p (''Echo: '' @ m)) (messages s)
      = map Inr (sent @ write_queue s) @ map (prepare_send p) (mp_replies_posted s)
    \<and> mp_written s = sent @ take 1 (write_queue s)"
proof -
  note rest = mpt.rest_run [OF assms(4) mpt.orderly_no_overlap [OF assms(5)]]
  note quiet = mpt.rest_guarded [OF assms(4,5)]
  have "list_all mp_in_order (started mp_handler as)"
    using guarded_in_order [OF rest quiet] by (simp add: mp_quiet_def)
  moreover have "unbroken (mp_step fac) mp_label (started mp_handler as) s0"
    by (rule guarded_unbroken [OF quiet]) (simp add: mp_quiet_def)
  ultimately show ?thesis
    using echo_session_replies [OF assms(1-3) rest] by blast
qed

text \<open>The example: both lines are answered, by two workers in turn.\<close>

definition lambdas_in_turn :: "(nat \<times> mp_access access) list" where
  "lambdas_in_turn = [(0, Starts (A_take 0)), (0, Goes), (0, Goes), (0, Goes),
     (1, Starts (A_take 0)), (1, Goes), (1, Goes), (1, Goes),
     (0, Starts (A_complete (''Echo: a'' @ [CR, LF]))), (0, Goes), (0, Goes), (0, Goes)]"

theorem echo_workers_reply_witness:
  "\<exists>s0 s. mp_started demo_fac (replicate 4096 NUL) ''S'' ''line'' ''p'' = Inr s0
    \<and> run (mp_workers_step demo_fac) (two_lines @ lambdas_in_turn) (at_rest 2 s0) = Moves (at_rest 2 s)
    \<and> (\<exists>sent. map (\<lambda>m. Inr (''Echo: '' @ m @ [CR, LF]) :: bytes result) [''a'', ''b'']
          = map Inr (sent @ write_queue s)
        \<and> mp_written s = sent @ take 1 (write_queue s))"
proof -
  obtain s0 where s0: "mp_started demo_fac (replicate 4096 NUL) ''S'' ''line'' ''p'' = Inr s0"
    by (simp add: mp_run_defs)
  obtain s where s: "run (mp_workers_step demo_fac) (two_lines @ lambdas_in_turn) (at_rest 2 s0)
        = Moves (at_rest 2 s)"
      "guarded (orderly mp_handler mp_quiet) (mp_workers_step demo_fac) (two_lines @ lambdas_in_turn) (at_rest 2 s0)"
      "messages s = [''a'', ''b'']" "posted s = []"
    using s0
    by (auto simp: two_lines_def lambdas_in_turn_def at_rest_2 w_put_def acc_defs orderly_def mp_quiet_def
        mp_run_defs overwrite_fresh line_process_data_eq replaces_protocol_def strip_cr_def messages_def
        process_message_echo prepare_send_def line_prepare_send_def start_writing_def)
  from echo_workers_reply [OF s0 length_fresh demo_fac_simps(2) s(1,2)] s0 s show ?thesis
    by (auto simp: prepare_send_def line_prepare_send_def mp_replies_posted_def)
qed

section \<open>Two workers at once\<close>

text \<open>
  C6: overlapping handlers send a reply twice, and the session then crashes. Whenever the
  queue is empty and two replies are posted, two workers that take one each can both find the
  queue empty, and both start a write of the first reply. When these writes and that of the
  second reply complete, the last completion pops an empty queue.
\<close>

theorem unserialised_replies:
  assumes "protocol s = Some p" "posted s = MP_write_task a # MP_write_task b # ks" "write_queue s = []"
    and "prepare_send p a = Inr x" "prepare_send p b = Inr y"
  shows "\<exists>t. run (mp_workers_step fac) overlapping_lambdas (at_rest 2 s) = Moves (at_rest 2 t)
    \<and> pending t = pending s @ [MP_write x, MP_write x] \<and> write_queue t = [x, y]
    \<and> run (mp_workers_step fac) (completions x y) (at_rest 2 t) = Fails (Undefined Empty_container)"
proof -
  let ?ops = "remove1 (MP_write x) (pending s @ [MP_write x, MP_write x])"
  have "MP_write x \<in> set ?ops"
    by (rule write_still_pending)
  moreover from this have "MP_write y \<in> set (remove1 (MP_write x) (?ops @ [MP_write y]))"
    by (simp add: remove1_append)
  ultimately show ?thesis
    using assms
    by (simp add: overlapping_lambdas_def completions_def at_rest_2 acc_defs w_put_def aio_defs
        start_writing_def)
qed

text \<open>The example: a started session has read two lines.\<close>

theorem unserialised_replies_witness:
  "\<exists>s0 t. mp_started demo_fac (replicate 4096 NUL) ''S'' ''line'' ''p'' = Inr s0
    \<and> run (mp_workers_step demo_fac) (two_lines @ overlapping_lambdas) (at_rest 2 s0) = Moves (at_rest 2 t)
    \<and> write_queue t = [''Echo: a'' @ [CR, LF], ''Echo: b'' @ [CR, LF]]
    \<and> run (mp_workers_step demo_fac) (completions (''Echo: a'' @ [CR, LF]) (''Echo: b'' @ [CR, LF]))
        (at_rest 2 t) = Fails (Undefined Empty_container)"
proof -
  obtain s0 where s0: "mp_started demo_fac (replicate 4096 NUL) ''S'' ''line'' ''p'' = Inr s0"
    by (simp add: mp_run_defs)
  obtain s where s: "run (mp_workers_step demo_fac) two_lines (at_rest 2 s0) = Moves (at_rest 2 s)"
      "protocol s = Some LineProtocolHandler" "write_queue s = []"
      "posted s = [MP_write_task ''Echo: a'', MP_write_task ''Echo: b'']"
    using s0
    by (auto simp: two_lines_def at_rest_2 w_put_def acc_defs mp_run_defs overwrite_fresh line_process_data_eq
        replaces_protocol_def strip_cr_def process_message_echo)
  have "prepare_send LineProtocolHandler m = Inr (m @ [CR, LF])" for m
    by (simp add: prepare_send_def line_prepare_send_def)
  from unserialised_replies [OF s(2,4,3) this this, of demo_fac] s(1) s0 show ?thesis
    by (auto simp: run_append)
qed

end
