(* ===== verification/Protocol_Link.thy ===== *)
theory Protocol_Link
  imports Echo_Exchange Protocol_Race
begin

text \<open>
  The clients of \<^verbatim>\<open>asio-1.28_async_client\<close> and \<^verbatim>\<open>asio-1.28\<close> talking to a session of the
  multi-protocol server with the line protocol and the echo handler. The session is a peer
  that writes through a queue, like the clients, and is served by any number of workers,
  access by access; its two sides are linked by the posted replies. Composed with any client that writes through a queue: the lines the client sends
  are what the handler is given, in order, and the client's callback gets one reply for each.
\<close>

section \<open>The session as a peer\<close>

fun mp_takes :: "mp_event \<Rightarrow> bytes" where
  "mp_takes (MP_read_done pos n ec data) = (if ec_ok ec then data else [])"
| "mp_takes _ = []"

text \<open>Calm: the posted tasks run in order, and reads and writes succeed.\<close>

fun mp_calm :: "mp_event \<Rightarrow> mp_session \<Rightarrow> bool" where
  "mp_calm (MP_call_safe_write data) s = False"
| "mp_calm (MP_run_task i) s = (i = 0)"
| "mp_calm (MP_read_done pos n ec data) s = ec_ok ec"
| "mp_calm (MP_write_done m ec) s = ec_ok ec"

definition mp_peer :: "protocol_factory \<Rightarrow> (mp_event, mp_session) peer" where
  "mp_peer fac = queue_peer (mp_step fac) mp_written mp_takes mp_calm"

lemma mp_calm_unbroken: "mp_calm e s \<Longrightarrow> mp_label e s \<noteq> Breaks"
  by (cases e) (auto split: mp_task.splits option.splits sum.splits)

interpretation mpw: queue_writer "mp_step fac" mp_label write_queue mp_inflight mp_written mp_takes mp_calm
  by unfold_locales (rule mp_calm_unbroken)

lemma mp_calm_in_order: "mp_calm e s \<Longrightarrow> mp_in_order e"
  by (cases e) simp_all

lemma mp_taken:
  "run (mp_step fac) es s = Moves t \<Longrightarrow> guarded mp_calm (mp_step fac) es s \<Longrightarrow>
    taken (mp_peer fac) es = concat (history (mp_step fac) mp_chunk es s)"
proof (induction es arbitrary: s)
  case (Cons e es)
  then obtain u where "mp_step fac e s = Moves u" "run (mp_step fac) es u = Moves t"
    unfolding run_Cons_Moves by blast
  with Cons show ?case
    by (cases e) (auto simp: mp_peer_def queue_peer_def)
qed simp

lemma prepare_send_line: "prepare_send LineProtocolHandler = (\<lambda>m. Inr (line_prepare_send m))"
  by (rule ext) (simp add: prepare_send_def)

lemma sent_as_line: "sent_as LineProtocolHandler = line_prepare_send"
  by (rule ext) (simp add: sent_as_def prepare_send_def)

text \<open>
  A calm run of a session with the line protocol: the lines of what it has read, and one
  reply for each, written, queued or posted.
\<close>

lemma line_session_calm:
  assumes "mp_started fac mem sid proto peer = Inr s0" "length mem = READ_BUFFER_SIZE"
    and "fac proto = Some LineProtocolHandler" "run (mp_step fac) es s0 = Moves s"
    and "guarded mp_calm (mp_step fac) es s0"
  shows "(messages s, buffered s) = take_lines [] (taken (mp_peer fac) es)"
    and "concat (map (\<lambda>m. line_prepare_send (''Echo: '' @ m)) (messages s))
      = concat (mp_written s) @ concat (drop 1 (write_queue s))
        @ concat (map line_prepare_send (mp_replies_posted s))"
proof -
  show "(messages s, buffered s) = take_lines [] (taken (mp_peer fac) es)"
    using line_session_lines [OF assms(1-4)] mp_taken [OF assms(4,5)] by simp
  have inr: "(map Inr xs :: bytes result list) = map Inr ys @ map (\<lambda>m. Inr (f m)) zs \<longleftrightarrow> xs = ys @ map f zs"
    for xs ys zs :: "bytes list" and f
    using inj_map_eq_map [of "Inr :: bytes \<Rightarrow> bytes result" xs "ys @ map f zs"] by (simp add: comp_def)
  have "map (\<lambda>m. line_prepare_send (''Echo: '' @ m)) (messages s)
      = accepted (mp_step fac) mp_label es s0 @ map line_prepare_send (mp_replies_posted s)"
    using mp_replies_run [OF assms(1-4) guarded_in_order [OF assms(4,5) mp_calm_in_order]]
      inr [of "map (\<lambda>m. line_prepare_send (''Echo: '' @ m)) (messages s)"
        "accepted (mp_step fac) mp_label es s0" line_prepare_send "mp_replies_posted s"]
    by (simp add: prepare_send_line comp_def)
  moreover have "accepted (mp_step fac) mp_label es s0 = mp_written s @ drop 1 (write_queue s)"
    using mpw.accepted_calm [OF assms(4,5)] mp_started_idle [OF assms(1,2)] by blast
  ultimately have "map (\<lambda>m. line_prepare_send (''Echo: '' @ m)) (messages s)
      = mp_written s @ drop 1 (write_queue s) @ map line_prepare_send (mp_replies_posted s)"
    by simp
  then show "concat (map (\<lambda>m. line_prepare_send (''Echo: '' @ m)) (messages s))
      = concat (mp_written s) @ concat (drop 1 (write_queue s))
        @ concat (map line_prepare_send (mp_replies_posted s))"
    by simp
qed

text \<open>
  The session as its workers run it. The connection is calm as long as no two handlers of
  the session overlap and each is calm when it starts.
\<close>

definition mp_threads :: "protocol_factory \<Rightarrow> (nat \<times> mp_access access, mp_workers) peer" where
  "mp_threads fac = workers_peer (mp_start_access fac) mp_go_access mp_handler (mp_peer fac)"

lemma mp_peer_simps [simp]:
  "peer_step (mp_peer fac) = mp_step fac" "peer_calm (mp_peer fac) = mp_calm"
  "peer_sent (mp_peer fac) s = concat (mp_written s)"
  by (simp_all add: mp_peer_def queue_peer_def)

lemma mp_start_sends:
  assumes "mp_calm (mp_handler a) s" "mp_start_access fac i a s = Moves (pc, t)"
  shows "prefix (concat (mp_written s)) (concat (mp_written t))"
proof (cases a)
  case (A_whole e)
  then have "mp_step fac e s = Moves t"
    using assms(2) by (auto simp: acc_defs split: if_splits)
  then show ?thesis
    using mpw.only_sends [OF TrueI, of fac e s t] assms(1) A_whole by (simp add: queue_peer_def)
qed (use assms in \<open>auto simp: acc_defs rbind_Inr_iff take_task_def finish_op_def mp_written_def
    split: if_splits mp_task.splits option.splits\<close>)

lemma mp_go_sends:
  "mp_go_access c s = Moves (pc, t) \<Longrightarrow> prefix (concat (mp_written s)) (concat (mp_written t))"
  by (cases c) (auto simp: acc_defs rbind_Inr_iff start_writing_def aio_defs mp_written_def
      split: if_splits list.splits)

interpretation mpp: worker_peer "mp_peer fac" "mp_start_access fac" mp_go_access mp_handler mp_remaining
  by unfold_locales
    (simp_all add: mp_start_moves mp_start_fails mp_go_moves mp_go_fails mp_start_sends mp_go_sends)

text \<open>
  A line session that has been served, when all that it has read, and \<open>rest\<close>, are lines:
  the session has been given the first \<open>k\<close> of them and has replied to each.
\<close>

lemma mp_started_peer:
  assumes "mp_started fac mem sid proto peer = Inr s0" "length mem = READ_BUFFER_SIZE"
  shows "peer_sent (mp_threads fac) (at_rest n s0) = []"
  using mp_started_idle [OF assms] by (simp add: mp_threads_def workers_peer_def)

lemma line_served:
  assumes "run (link_step P (mp_threads fac)) es (link_init c (at_rest n s0)) = Moves l"
    and "lk_right l = at_rest n s"
    and "mp_started fac mem sid proto peer = Inr s0" "length mem = READ_BUFFER_SIZE"
    and "fac proto = Some LineProtocolHandler" "list_all (carries LineProtocolHandler) ms"
    and "taken (mp_threads fac) (rights es) @ rest = concat (map line_prepare_send ms)"
  shows "\<exists>k. messages s = take k ms
    \<and> buffered s @ rest = concat (map line_prepare_send (drop k ms))
    \<and> peer_sent (mp_threads fac) (lk_right l) @ concat (drop 1 (write_queue s))
        @ concat (map line_prepare_send (mp_replies_posted s))
      = concat (map (\<lambda>m. line_prepare_send (''Echo: '' @ m)) (take k ms))"
proof -
  note right = mpp.linked_at_rest [OF assms(1) [unfolded mp_threads_def] assms(2), simplified]
  note calm = line_session_calm [OF assms(3-5) right]
  have "taken (mp_peer fac) (started mp_handler (rights es)) @ rest = concat (map line_prepare_send ms)"
    using assms(7) mpp.taken_started [of fac "rights es"] by (simp add: mp_threads_def)
  then obtain k where "messages s = take k ms" "buffered s @ rest = concat (map line_prepare_send (drop k ms))"
    using take_lines_sent [OF assms(6), folded sent_as_line, of "taken (mp_peer fac) (started mp_handler (rights es))" rest] calm(1) [symmetric]
    by (auto simp: sent_as_line)
  then show ?thesis
    using calm(2) assms(2) by (intro exI [of _ k]) (simp add: mp_threads_def workers_peer_def)
qed

section \<open>Any client with a write queue\<close>

context queue_client begin

lemma line_exchange_calm:
  assumes "run (link_step (queue_peer step written takes calm) (mp_threads fac)) es
      (link_init c (at_rest n s0)) = Moves l"
    and "fresh c" "lk_right l = at_rest n s"
    and "mp_started fac mem sid proto peer = Inr s0" "length mem = READ_BUFFER_SIZE"
    and "fac proto = Some LineProtocolHandler"
    and "accepted step label (lefts es) c = map line_prepare_send ms"
    and "list_all (carries LineProtocolHandler) ms"
  shows "\<exists>k. messages s = take k ms
    \<and> buffered s @ to_right l @ concat (drop 1 (queue (lk_left l)))
      = concat (map line_prepare_send (drop k ms))
    \<and> received (lk_left l) @ to_left l @ concat (drop 1 (write_queue s))
        @ concat (map line_prepare_send (mp_replies_posted s))
      = concat (map (\<lambda>m. line_prepare_send (''Echo: '' @ m)) (take k ms))"
proof -
  note linked = linked [OF assms(1,2) mpp.socket_peer_axioms [folded mp_threads_def] TrueI
      mp_started_peer [OF assms(4,5)]]
  show ?thesis
    using line_served [OF assms(1,3-6,8)] linked assms(7) by (metis append.assoc)
qed

end

section \<open>The two clients\<close>

text \<open>
  C5: an \<open>AsyncClient\<close> and a line session of the multi-protocol server, served by any number
  of workers, access by access. Let the connection hold (no read or write fails, nobody but
  the data handler writes to the session), the session's posted tasks start in order, and no
  handler of the session start while another one is under way. Let the client be given lines
  to send, none of which holds a line feed. Then, however the handlers interleave and the
  bytes are cut into pieces, whenever no handler of the session is under way: the data
  handler of the server has been given the first \<open>k\<close> of the lines, unaltered and in order,
  and the rest is in the session's buffer, under way or queued; and the replies to these
  \<open>k\<close>, one for each and in order, are what the client's callback was given, what is on its
  way back, queued in the session, or posted.
\<close>

theorem async_line_exchange:
  assumes "run (link_step async_peer (mp_threads fac)) es (link_init c (at_rest n s0)) = Moves l"
    and "lk_right l = at_rest n s"
    and "mp_started fac mem sid proto peer = Inr s0" "length mem = READ_BUFFER_SIZE"
    and "fac proto = Some LineProtocolHandler"
    and "write_msgs c = []" "ac_inflight c = []" "ac_written c = []" "on_receive c" "ac_received c = []"
    and "accepted ac_step ac_label (lefts es) c = map line_prepare_send ms"
    and "list_all (carries LineProtocolHandler) ms"
  shows "\<exists>k. messages s = take k ms
    \<and> buffered s @ to_right l @ concat (drop 1 (write_msgs (lk_left l)))
      = concat (map line_prepare_send (drop k ms))
    \<and> ac_received (lk_left l) @ to_left l @ concat (drop 1 (write_queue s))
        @ concat (map line_prepare_send (mp_replies_posted s))
      = concat (map (\<lambda>m. line_prepare_send (''Echo: '' @ m)) (take k ms))"
  using ace.line_exchange_calm [OF assms(1) [unfolded async_peer_def] _ assms(2-5,11,12)] assms(6-10)
  by (simp add: ace.fresh_def)

text \<open>The same of the asio-1.28 \<open>TcpClient\<close>.\<close>

theorem tcp_line_exchange:
  assumes "run (link_step tcp_peer (mp_threads fac)) es (link_init c (at_rest n s0)) = Moves l"
    and "lk_right l = at_rest n s"
    and "mp_started fac mem sid proto peer = Inr s0" "length mem = READ_BUFFER_SIZE"
    and "fac proto = Some LineProtocolHandler"
    and "send_msgs c = []" "tc_inflight c = []" "tc_written c = []"
    and "recv_cb c" "length (recv_msg c) = recv_size" "tc_received c = []"
    and "accepted tc_step tc_label (lefts es) c = map line_prepare_send ms"
    and "list_all (carries LineProtocolHandler) ms"
  shows "\<exists>k. messages s = take k ms
    \<and> buffered s @ to_right l @ concat (drop 1 (send_msgs (lk_left l)))
      = concat (map line_prepare_send (drop k ms))
    \<and> tc_received (lk_left l) @ to_left l @ concat (drop 1 (write_queue s))
        @ concat (map line_prepare_send (mp_replies_posted s))
      = concat (map (\<lambda>m. line_prepare_send (''Echo: '' @ m)) (take k ms))"
  using tce.line_exchange_calm [OF assms(1) [unfolded tcp_peer_def] _ assms(2-5,12,13)] assms(6-11)
  by (simp add: tce.fresh_def tc_listening_def)

text \<open>The example: two lines, the second cut in the middle, and the first reply on its way.\<close>

definition line_link_events :: "(ac_event, nat \<times> mp_access access) link_event list" where
  "line_link_events = [At_left (AC_call_send (''hi'' @ [CR, LF])), At_left (AC_run_task 0 True),
     At_left (AC_call_send (''ho'' @ [CR, LF])), At_left (AC_run_task 0 True),
     At_left (AC_write_done (''hi'' @ [CR, LF]) success_code), At_right (0, Starts (A_whole (MP_run_task 0))),
     At_right (1, Starts (A_whole (MP_read_done 0 4096 success_code (''hi'' @ [CR, LF] @ ''h'')))),
     At_right (1, Starts (A_take 0)), At_right (1, Goes), At_right (1, Goes), At_right (1, Goes),
     At_left (AC_read_done success_code ''Echo: '')]"

theorem async_line_exchange_witness:
  "\<exists>s0 s l k. mp_started demo_fac (replicate 4096 NUL) ''S'' ''line'' ''p'' = Inr s0
    \<and> run (link_step async_peer (mp_threads demo_fac)) line_link_events
        (link_init ac_connected_demo (at_rest 2 s0)) = Moves l
    \<and> lk_right l = at_rest 2 s \<and> messages s = take k [''hi'', ''ho'']
    \<and> ac_received (lk_left l) = ''Echo: '' \<and> to_left l = ''hi'' @ [CR, LF]
    \<and> ''Echo: '' @ to_left l @ concat (drop 1 (write_queue s))
        @ concat (map line_prepare_send (mp_replies_posted s))
      = concat (map (\<lambda>m. line_prepare_send (''Echo: '' @ m)) (take k [''hi'', ''ho'']))"
proof -
  obtain s0 where s0: "mp_started demo_fac (replicate 4096 NUL) ''S'' ''line'' ''p'' = Inr s0"
    by (simp add: mp_run_defs)
  obtain l s where l: "run (link_step async_peer (mp_threads demo_fac)) line_link_events
      (link_init ac_connected_demo (at_rest 2 s0)) = Moves l"
      "lk_right l = at_rest 2 s" "ac_received (lk_left l) = ''Echo: ''" "to_left l = ''hi'' @ [CR, LF]"
    using s0
    by (auto simp: line_link_events_def ac_connected_demo_def async_peer_def mp_threads_def workers_peer_def
        mp_peer_def queue_peer_def at_rest_2 w_put_def acc_defs orderly_def
        link_init_def ac_defs ac_init_def newly_sent_def ac_written_def ac_received_def max_length_def
        mp_run_defs overwrite_fresh line_process_data_eq replaces_protocol_def strip_cr_def
        process_message_echo start_writing_def mp_written_def prepare_send_def line_prepare_send_def)
  have c: "write_msgs ac_connected_demo = []" "ac_inflight ac_connected_demo = []"
    "ac_written ac_connected_demo = []" "on_receive ac_connected_demo" "ac_received ac_connected_demo = []"
    by (simp_all add: ac_connected_demo_def ac_init_def ac_inflight_def ac_written_def ac_received_def)
  have "accepted ac_step ac_label (lefts line_link_events) ac_connected_demo
      = map line_prepare_send [''hi'', ''ho'']"
    by (simp add: line_link_events_def ac_connected_demo_def ac_defs ac_init_def line_prepare_send_def)
  moreover have "list_all (carries LineProtocolHandler) [''hi'', ''ho'']"
    by (simp add: carries_def)
  ultimately show ?thesis
    using async_line_exchange [OF l(1,2) s0 length_fresh demo_fac_simps(2) c] s0 l by metis
qed

end
