(* ===== verification/Multi_Session.thy ===== *)
theory Multi_Session
  imports Write_Queue Framing
begin

text \<open>
  The data handlers and the \<open>Session\<close> of \<^verbatim>\<open>asio-1.28_server_multi/src/test.cpp\<close>. One
  handler is shared by all sessions; a handler of a session is a function of both. The
  floating-point arithmetic of the calculator (\<open>std::stod\<close>, \<open>double\<close>, \<open>std::to_string\<close>) is a
  parameter.
\<close>

section \<open>CalculatorHandler\<close>

text \<open>\<open>fl_stod\<close> is the value and the number of characters used, or the exception's text.\<close>

record 'd float_ops =
  fl_stod :: "bytes \<Rightarrow> string + 'd \<times> nat"
  fl_add :: "'d \<Rightarrow> 'd \<Rightarrow> 'd"
  fl_sub :: "'d \<Rightarrow> 'd \<Rightarrow> 'd"
  fl_mul :: "'d \<Rightarrow> 'd \<Rightarrow> 'd"
  fl_div :: "'d \<Rightarrow> 'd \<Rightarrow> 'd"
  fl_is_zero :: "'d \<Rightarrow> bool"
  fl_text :: "'d \<Rightarrow> string"

text \<open>\<open>std::isspace\<close> in the C locale.\<close>

definition is_space :: "char \<Rightarrow> bool" where
  "is_space c \<longleftrightarrow> c \<in> {CHR '' '', CHR 0x09, CHR 0x0A, CHR 0x0B, CHR 0x0C, CHR 0x0D}"

function skip_spaces :: "bytes \<Rightarrow> nat \<Rightarrow> nat" where
  "skip_spaces data pos =
     (if pos < length data \<and> is_space (data ! pos) then skip_spaces data (Suc pos) else pos)"
  by auto
termination by (relation "measure (\<lambda>(data, pos). length data - pos)") auto

declare skip_spaces.simps [simp del]

definition calculate :: "('d, 'z) float_ops_scheme \<Rightarrow> char \<Rightarrow> 'd \<Rightarrow> 'd \<Rightarrow> string + 'd" where
  "calculate fl op a b =
     (if op = CHR ''+'' then Inr (fl_add fl a b)
      else if op = CHR ''-'' then Inr (fl_sub fl a b)
      else if op = CHR ''*'' then Inr (fl_mul fl a b)
      else if op = CHR ''/'' then
        (if fl_is_zero fl b then Inl ''Division by zero'' else Inr (fl_div fl a b))
      else Inl ''Invalid operator'')"

definition evaluate :: "('d, 'z) float_ops_scheme \<Rightarrow> bytes \<Rightarrow> string + 'd" where
  "evaluate fl data =
     (case fl_stod fl data of
        Inl e \<Rightarrow> Inl e
      | Inr (a, pos) \<Rightarrow>
          let pos = skip_spaces data pos in
          if pos \<ge> length data then Inl ''Missing operator''
          else let op = data ! pos; pos = skip_spaces data (Suc pos) in
            (case fl_stod fl (drop pos data) of
               Inl e \<Rightarrow> Inl e
             | Inr (b, _) \<Rightarrow> calculate fl op a b))"

definition calculator_process :: "('d, 'z) float_ops_scheme \<Rightarrow> bytes \<Rightarrow> bytes" where
  "calculator_process fl data =
     (case evaluate fl data of
        Inl e \<Rightarrow> ''Error: '' @ e
      | Inr r \<Rightarrow> ''Result: '' @ fl_text fl r)"

section \<open>StatisticsHandler\<close>

record statistics =
  total_chars :: u64
  message_count :: u64
  active_sessions :: u64
  session_stats :: "string \<rightharpoonup> u64"

definition statistics_init :: statistics where
  "statistics_init = \<lparr>total_chars = 0, message_count = 0, active_sessions = 0, session_stats = Map.empty\<rparr>"

text \<open>\<open>operator[]\<close> of the map makes a missing entry zero.\<close>

definition stats_entry :: "string \<Rightarrow> statistics \<Rightarrow> u64" where
  "stats_entry sid st = (case session_stats st sid of Some n \<Rightarrow> n | None \<Rightarrow> 0)"

definition stats_process :: "string \<Rightarrow> bytes \<Rightarrow> statistics \<Rightarrow> bytes \<times> statistics" where
  "stats_process sid data st =
     (let n = of_nat (length data);
          st = st\<lparr>total_chars := total_chars st + n, message_count := message_count st + 1,
            session_stats := (session_stats st)(sid \<mapsto> stats_entry sid st + n)\<rparr>
      in (''Received '' @ to_string (length data) @ '' chars. ''
          @ ''Total: '' @ to_string (unat (total_chars st)) @ '' chars, ''
          @ ''Messages: '' @ to_string (unat (message_count st)), st))"

definition stats_created :: "string \<Rightarrow> statistics \<Rightarrow> statistics" where
  "stats_created sid st =
     st\<lparr>session_stats := (session_stats st)(sid \<mapsto> 0), active_sessions := active_sessions st + 1\<rparr>"

definition stats_closed :: "string \<Rightarrow> statistics \<Rightarrow> statistics" where
  "stats_closed sid st =
     st\<lparr>active_sessions := active_sessions st - 1, session_stats := (session_stats st)(sid := None)\<rparr>"

section \<open>The handler a server is given\<close>

datatype multi_handler = Echo_handler | Calculator_handler | Statistics_handler statistics

definition mh_process ::
    "('d, 'z) float_ops_scheme \<Rightarrow> string \<Rightarrow> bytes \<Rightarrow> multi_handler \<Rightarrow> bytes \<times> multi_handler" where
  "mh_process fl sid data h =
     (case h of
        Echo_handler \<Rightarrow> (''Echo: '' @ data, h)
      | Calculator_handler \<Rightarrow> (calculator_process fl data, h)
      | Statistics_handler st \<Rightarrow>
          (let (response, st') = stats_process sid data st in (response, Statistics_handler st')))"

definition mh_created :: "string \<Rightarrow> multi_handler \<Rightarrow> multi_handler" where
  "mh_created sid h =
     (case h of Statistics_handler st \<Rightarrow> Statistics_handler (stats_created sid st) | _ \<Rightarrow> h)"

definition mh_closed :: "string \<Rightarrow> multi_handler \<Rightarrow> multi_handler" where
  "mh_closed sid h =
     (case h of Statistics_handler st \<Rightarrow> Statistics_handler (stats_closed sid st) | _ \<Rightarrow> h)"

section \<open>Session\<close>

datatype ms_op = MS_read | MS_write bytes

datatype ms_task = MS_read_task | MS_write_task bytes

datatype ms_obs = MS_wrote bytes | MS_closed string | MS_socket_closed

record multi_session = "(ms_op, ms_task, ms_obs) aio" +
  ms_id :: string
  ms_queue :: "bytes list"

definition ms_init :: "string \<Rightarrow> multi_session" where
  "ms_init sid = \<lparr>pending = [], posted = [], trace = [], ms_id = sid, ms_queue = []\<rparr>"

text \<open>The session tells the handler that it is closed, with a reason.\<close>

definition ms_closed :: "string \<Rightarrow> multi_handler \<times> multi_session \<Rightarrow> multi_handler \<times> multi_session" where
  "ms_closed reason hs =
     (case hs of (h, s) \<Rightarrow> (mh_closed (ms_id s) h, observe (MS_closed reason) s))"

definition ms_destroy :: "multi_handler \<times> multi_session \<Rightarrow> multi_handler \<times> multi_session" where
  "ms_destroy hs = ms_closed ''Destructor called'' hs"

definition ms_do_read :: "multi_session \<Rightarrow> multi_session" where
  "ms_do_read s = initiate MS_read s"

text \<open>\<open>remote_endpoint()\<close> throws when the client is gone already (\<open>peer\<close> is None).\<close>

definition ms_start ::
    "string option \<Rightarrow> multi_handler \<times> multi_session \<Rightarrow> (multi_handler \<times> multi_session) result" where
  "ms_start peer hs =
     (case hs of (h, s) \<Rightarrow>
        (case peer of
           None \<Rightarrow> Inl (Throws ''remote_endpoint: Transport endpoint is not connected'')
         | Some ip \<Rightarrow> Inr (mh_created (ms_id s) h, post_task MS_read_task s)))"

definition ms_safe_write :: "bytes \<Rightarrow> multi_session \<Rightarrow> multi_session" where
  "ms_safe_write data s = post_task (MS_write_task data) s"

definition ms_do_write :: "multi_session \<Rightarrow> multi_session result" where
  "ms_do_write s =
     (case ms_queue s of
        [] \<Rightarrow> Inl (Undefined Empty_container)
      | m # _ \<Rightarrow> Inr (observe (MS_wrote m) (initiate (MS_write m) s)))"

definition ms_write_task :: "bytes \<Rightarrow> multi_session \<Rightarrow> multi_session result" where
  "ms_write_task data s =
     (let write_in_progress = ms_queue s \<noteq> [];
          s = s\<lparr>ms_queue := ms_queue s @ [data]\<rparr>
      in if \<not> write_in_progress then ms_do_write s else Inr s)"

definition ms_run_task :: "ms_task \<Rightarrow> multi_session \<Rightarrow> multi_session result" where
  "ms_run_task k s =
     (case k of MS_read_task \<Rightarrow> Inr (ms_do_read s) | MS_write_task data \<Rightarrow> ms_write_task data s)"

definition ms_on_read ::
    "('d, 'z) float_ops_scheme \<Rightarrow> error_code \<Rightarrow> bytes \<Rightarrow> multi_handler \<times> multi_session
      \<Rightarrow> multi_handler \<times> multi_session" where
  "ms_on_read fl ec received hs =
     (case hs of (h, s) \<Rightarrow>
        if ec_ok ec then
          (let (response, h) = mh_process fl (ms_id s) received h
           in (h, ms_do_read (ms_safe_write response s)))
        else if is_eof ec then ms_closed ''Client disconnected'' (h, s)
        else ms_closed (''Read error: '' @ ec_message ec) (h, s))"

definition ms_on_write ::
    "error_code \<Rightarrow> multi_handler \<times> multi_session \<Rightarrow> (multi_handler \<times> multi_session) result" where
  "ms_on_write ec hs =
     (case hs of (h, s) \<Rightarrow>
        if ec_ok ec then
          (case ms_queue s of
             [] \<Rightarrow> Inl (Undefined Empty_container)
           | _ # ms \<Rightarrow>
               (let s = s\<lparr>ms_queue := ms\<rparr> in
                if ms \<noteq> [] then rbind (ms_do_write s) (\<lambda>s. Inr (h, s)) else Inr (h, s)))
        else
          (case ms_closed (''Write error: '' @ ec_message ec) (h, s) of
             (h, s) \<Rightarrow> Inr (h, observe MS_socket_closed (s\<lparr>ms_queue := []\<rparr>))))"

text \<open>The read buffer of a session has 1024 bytes.\<close>

datatype ms_event =
    MS_run_task nat
  | MS_read_done error_code bytes
  | MS_write_done bytes error_code

fun ms_step ::
    "('d, 'z) float_ops_scheme \<Rightarrow> ms_event \<Rightarrow> multi_handler \<times> multi_session
      \<Rightarrow> (multi_handler \<times> multi_session) outcome" where
  "ms_step fl (MS_run_task i) (h, s) =
     (if i < length (posted s)
      then outcome_of (rbind (ms_run_task (posted s ! i) (take_task i s)) (\<lambda>s. Inr (h, s)))
      else Disabled)"
| "ms_step fl (MS_read_done ec data) (h, s) =
     (if MS_read \<in> set (pending s) \<and> length data \<le> 1024
      then Moves (ms_on_read fl ec data (h, finish_op MS_read s)) else Disabled)"
| "ms_step fl (MS_write_done m ec) (h, s) =
     (if MS_write m \<in> set (pending s)
      then outcome_of (ms_on_write ec (h, finish_op (MS_write m) s)) else Disabled)"

named_theorems ms_defs

lemmas [ms_defs] = aio_defs ms_closed_def ms_destroy_def ms_do_read_def ms_start_def
  ms_safe_write_def ms_do_write_def ms_write_task_def ms_run_task_def ms_on_read_def
  ms_on_write_def Let_def

lemmas ms_splits = if_splits list.splits option.splits ms_task.splits prod.splits sum.splits

section \<open>The calculator\<close>

lemma skip_spaces_run:
  assumes "list_all is_space ws" "rest \<noteq> [] \<Longrightarrow> \<not> is_space (hd rest)"
  shows "skip_spaces (pre @ ws @ rest) (length pre) = length pre + length ws"
  using assms(1)
proof (induction ws arbitrary: pre)
  case Nil
  then show ?case
    using assms(2) by (subst skip_spaces.simps) (auto simp: nth_append hd_conv_nth)
next
  case (Cons w ws)
  have "skip_spaces (pre @ (w # ws) @ rest) (length pre)
      = skip_spaces ((pre @ [w]) @ ws @ rest) (length (pre @ [w]))"
    using Cons.prems by (subst skip_spaces.simps) (simp add: nth_append)
  then show ?case
    using Cons.IH [of "pre @ [w]"] Cons.prems by simp
qed

text \<open>
  The calculator computes the expression it is sent: a number, an operator and a number,
  with any white space between them, when \<open>std::stod\<close> reads the two numbers as it does.
\<close>

theorem calculator_evaluates:
  assumes "fl_stod fl (sa @ ws @ op # vs @ sb) = Inr (a, length sa)" "fl_stod fl sb = Inr (b, n)"
    and "list_all is_space ws" "\<not> is_space op" "list_all is_space vs"
    and "sb \<noteq> [] \<Longrightarrow> \<not> is_space (hd sb)"
  shows "calculator_process fl (sa @ ws @ op # vs @ sb)
    = (case calculate fl op a b of Inl e \<Rightarrow> ''Error: '' @ e | Inr r \<Rightarrow> ''Result: '' @ fl_text fl r)"
proof -
  let ?data = "sa @ ws @ op # vs @ sb"
  have 1: "skip_spaces ?data (length sa) = length sa + length ws"
    using skip_spaces_run [of ws "op # vs @ sb" sa] assms(3,4) by simp
  have 2: "skip_spaces ?data (Suc (length sa + length ws)) = length (sa @ ws @ [op]) + length vs"
    using skip_spaces_run [of vs sb "sa @ ws @ [op]"] assms(5,6) by simp
  have 3: "?data ! (length sa + length ws) = op" "drop (length (sa @ ws @ [op]) + length vs) ?data = sb"
    by (simp_all add: nth_append)
  have "evaluate fl ?data = calculate fl op a b"
    using assms(1,2) 1 2 3 by (simp add: evaluate_def Let_def)
  then show ?thesis by (simp add: calculator_process_def)
qed

section \<open>The write queue\<close>

type_synonym ms_state = "multi_handler \<times> multi_session"

fun ms_write_data :: "ms_op \<Rightarrow> bytes option" where
  "ms_write_data (MS_write m) = Some m"
| "ms_write_data x = None"

fun ms_wrote_data :: "ms_obs \<Rightarrow> bytes option" where
  "ms_wrote_data (MS_wrote m) = Some m"
| "ms_wrote_data x = None"

definition ms_inflight :: "ms_state \<Rightarrow> bytes list" where
  "ms_inflight hs = picks ms_write_data (pending (snd hs))"

definition ms_written :: "ms_state \<Rightarrow> bytes list" where
  "ms_written hs = picks ms_wrote_data (trace (snd hs))"

definition ms_queued :: "ms_state \<Rightarrow> bytes list" where
  "ms_queued hs = ms_queue (snd hs)"

fun ms_label :: "ms_event \<Rightarrow> ms_state \<Rightarrow> bytes wq_label" where
  "ms_label (MS_run_task i) (h, s) =
     (if i < length (posted s)
      then (case posted s ! i of MS_write_task m \<Rightarrow> Accepts m | MS_read_task \<Rightarrow> Unrelated)
      else Unrelated)"
| "ms_label (MS_write_done m ec) hs = (if ec_ok ec then Completes else Breaks)"
| "ms_label (MS_read_done ec data) hs = Unrelated"

lemma ms_write_data_inj: "ms_write_data y = Some m \<Longrightarrow> y = MS_write m"
  by (cases y) simp_all

lemma ms_inflight_remove:
  "picks ms_write_data (remove1 (MS_write m) ops) = remove1 m (picks ms_write_data ops)"
  "picks ms_write_data (remove1 MS_read ops) = picks ms_write_data ops"
  by (simp_all add: picks_remove1_same picks_remove1_other ms_write_data_inj)

lemmas ms_queue_defs = ms_inflight_def ms_written_def ms_queued_def ms_inflight_remove

lemma ms_accept:
  assumes "ms_step fl e hs = Moves t" "ms_label e hs = Accepts m"
  shows "ms_queued t = ms_queued hs @ [m]
    \<and> ms_inflight t = ms_inflight hs @ (if ms_queued hs = [] then [m] else [])
    \<and> ms_written t = ms_written hs @ (if ms_queued hs = [] then [m] else [])"
  using assms
  by (cases hs; cases e) (auto simp: ms_defs ms_queue_defs rbind_def split: ms_splits)

lemma ms_complete:
  assumes "ms_step fl e hs = Moves t" "ms_label e hs = Completes"
  shows "\<exists>m0 m ms. ms_queued hs = m # ms \<and> ms_queued t = ms \<and> m0 \<in> set (ms_inflight hs)
    \<and> ms_inflight t = remove1 m0 (ms_inflight hs) @ take 1 ms
    \<and> ms_written t = ms_written hs @ take 1 ms"
proof -
  obtain h s where hs: "hs = (h, s)" by (cases hs)
  obtain m ec where e: "e = MS_write_done m ec" "ec_ok ec"
    using assms(2) hs by (cases e) (auto split: ms_splits)
  have "m \<in> set (ms_inflight hs)"
    using assms(1) e hs picks_mem [of ms_write_data "MS_write m" m "pending s"]
    by (auto simp: ms_inflight_def split: if_splits)
  then show ?thesis
    using assms(1) e hs
    by (auto simp: ms_defs ms_queue_defs rbind_def split: ms_splits)
qed

lemma ms_unrelated:
  assumes "ms_step fl e hs = Moves t" "ms_label e hs = Unrelated"
  shows "ms_queued t = ms_queued hs \<and> ms_inflight t = ms_inflight hs \<and> ms_written t = ms_written hs"
  using assms
  by (cases hs; cases e) (auto simp: ms_defs ms_queue_defs rbind_def split: ms_splits)

interpretation msq: write_queue "ms_step fl" ms_label ms_queued ms_inflight ms_written
  by unfold_locales (erule (1) ms_accept ms_complete ms_unrelated)+

text \<open>
  As long as no two handlers of the session overlap and no write has failed, the replies
  whose write task ran are those completely written followed by those queued, handed to
  \<open>async_write\<close> in this order, once each, one at a time.
\<close>

theorem multi_session_fifo:
  assumes "run (ms_step fl) es (h, ms_init sid) = Moves t"
    and "unbroken (ms_step fl) ms_label es (h, ms_init sid)"
  shows "\<exists>sent. accepted (ms_step fl) ms_label es (h, ms_init sid) = sent @ ms_queued t
    \<and> ms_written t = sent @ take 1 (ms_queued t) \<and> ms_inflight t = take 1 (ms_queued t)"
  by (rule msq.fifo_delivery [OF assms]) (simp_all add: ms_init_def ms_queue_defs)

text \<open>Integers in place of \<open>double\<close>, for the examples.\<close>

definition digit_prefix :: "bytes \<Rightarrow> bytes" where
  "digit_prefix data = takeWhile (\<lambda>c. c \<in> set ''0123456789'') data"

definition int_ops :: "int float_ops" where
  "int_ops = \<lparr>fl_stod = (\<lambda>data. if digit_prefix data = [] then Inl ''stod''
       else Inr (int (numeral_value (digit_prefix data)), length (digit_prefix data))),
     fl_add = (+), fl_sub = (-), fl_mul = (*), fl_div = (div), fl_is_zero = (\<lambda>b. b = 0),
     fl_text = (\<lambda>a. to_string (nat a))\<rparr>"

lemma digit_prefix_demo:
  "digit_prefix ''6 * 7'' = ''6''" "digit_prefix ''7'' = ''7''"
  by (simp_all add: digit_prefix_def)

theorem calculator_evaluates_witness:
  "calculator_process int_ops ''6 * 7'' = ''Result: '' @ to_string 42"
proof -
  have "fl_stod int_ops (''6'' @ '' '' @ CHR ''*'' # '' '' @ ''7'') = Inr (6, length ''6'')"
    "fl_stod int_ops ''7'' = Inr (7, 1)"
    by (simp_all add: int_ops_def digit_prefix_demo numeral_value_def)
  from calculator_evaluates [OF this] show ?thesis
    by (simp add: is_space_def calculate_def int_ops_def)
qed

end
