(* ===== verification/Multi_Race.thy ===== *)
theory Multi_Race
  imports Multi_Session Worker_Threads
begin

text \<open>
  The handlers of a \<open>Session\<close> of \<^verbatim>\<open>asio-1.28_server_multi/src/test.cpp\<close> as its two threads
  run them. The tasks that a session posts run in a thread of the pool (worker 1), the
  completions of its reads and writes in the thread of \<open>Server::run\<close> (worker 0), and nothing
  keeps them apart. One step is one access to the write queue, or one start of a write, of
  one of the threads; a read, the first \<open>do_read\<close> and the handler of a failed write are one
  step each. \<^theory_text>\<open>Multi_Session\<close> runs handlers whole: by the contract of \<^theory_text>\<open>Worker_Threads\<close>
  what holds of it holds of the two threads as long as no two handlers of the session overlap.
  The last section shows what happens otherwise.
\<close>

section \<open>One access at a time\<close>

datatype ms_pc =
    P_tested bytes bool      \<comment> \<open>lambda: after \<open>write_queue_.empty()\<close>\<close>
  | P_pushed bool            \<comment> \<open>lambda: after \<open>push_back\<close>\<close>
  | M_completed              \<comment> \<open>completion: entered without error\<close>
  | M_popped                 \<comment> \<open>completion: after \<open>pop_front\<close>\<close>
  | M_write_next             \<comment> \<open>completion: the queue was found not empty\<close>

datatype ms_access = B_take nat | B_complete bytes | B_whole ms_event

type_synonym ms_accessed = "(ms_pc option \<times> ms_state) outcome"

text \<open>The handlers that do not touch the queue, and that of a failed write.\<close>

fun ms_whole :: "ms_event \<Rightarrow> multi_session \<Rightarrow> bool" where
  "ms_whole (MS_run_task k) s = (k < length (posted s) \<and> posted s ! k = MS_read_task)"
| "ms_whole (MS_read_done ec data) s = True"
| "ms_whole (MS_write_done m ec) s = (\<not> ec_ok ec)"

text \<open>The thread that runs a handler.\<close>

fun ms_thread :: "ms_event \<Rightarrow> nat" where
  "ms_thread (MS_run_task k) = 1"
| "ms_thread (MS_read_done ec data) = 0"
| "ms_thread (MS_write_done m ec) = 0"

definition ms_access_whole :: "('d, 'z) float_ops_scheme \<Rightarrow> ms_event \<Rightarrow> ms_state \<Rightarrow> ms_accessed" where
  "ms_access_whole fl e hs =
     (if ms_whole e (snd hs) then map_outcome (Pair None) (ms_step fl e hs) else Disabled)"

text \<open>The lambda of \<open>safe_write\<close>.\<close>

definition ms_access_test :: "nat \<Rightarrow> ms_state \<Rightarrow> ms_accessed" where
  "ms_access_test k hs =
     (case hs of (h, s) \<Rightarrow>
        if k < length (posted s) then
          (case posted s ! k of
             MS_read_task \<Rightarrow> Disabled
           | MS_write_task data \<Rightarrow> Moves (Some (P_tested data (ms_queue s \<noteq> [])), (h, take_task k s)))
        else Disabled)"

definition ms_access_push :: "bytes \<Rightarrow> bool \<Rightarrow> ms_state \<Rightarrow> ms_accessed" where
  "ms_access_push data write_in_progress hs =
     (case hs of (h, s) \<Rightarrow>
        Moves (Some (P_pushed write_in_progress), (h, s\<lparr>ms_queue := ms_queue s @ [data]\<rparr>)))"

definition ms_access_write :: "bool \<Rightarrow> ms_state \<Rightarrow> ms_accessed" where
  "ms_access_write write_in_progress hs =
     (case hs of (h, s) \<Rightarrow>
        outcome_of (rbind (if \<not> write_in_progress then ms_do_write s else Inr s) (\<lambda>s. Inr (None, (h, s)))))"

text \<open>The handler of a write that succeeded.\<close>

definition ms_access_complete :: "bytes \<Rightarrow> ms_state \<Rightarrow> ms_accessed" where
  "ms_access_complete m hs =
     (case hs of (h, s) \<Rightarrow>
        if MS_write m \<in> set (pending s) then Moves (Some M_completed, (h, finish_op (MS_write m) s))
        else Disabled)"

definition ms_access_pop :: "ms_state \<Rightarrow> ms_accessed" where
  "ms_access_pop hs =
     (case hs of (h, s) \<Rightarrow>
        (case ms_queue s of
           [] \<Rightarrow> Fails (Undefined Empty_container)
         | _ # ms \<Rightarrow> Moves (Some M_popped, (h, s\<lparr>ms_queue := ms\<rparr>))))"

definition ms_access_check :: "ms_state \<Rightarrow> ms_accessed" where
  "ms_access_check hs = Moves (if ms_queue (snd hs) \<noteq> [] then Some M_write_next else None, hs)"

definition ms_access_next :: "ms_state \<Rightarrow> ms_accessed" where
  "ms_access_next hs =
     (case hs of (h, s) \<Rightarrow> outcome_of (rbind (ms_do_write s) (\<lambda>s. Inr (None, (h, s)))))"

definition ms_start_access ::
    "('d, 'z) float_ops_scheme \<Rightarrow> nat \<Rightarrow> ms_access \<Rightarrow> ms_state \<Rightarrow> ms_accessed" where
  "ms_start_access fl i a hs =
     (case a of
        B_take k \<Rightarrow> if i = 1 then ms_access_test k hs else Disabled
      | B_complete m \<Rightarrow> if i = 0 then ms_access_complete m hs else Disabled
      | B_whole e \<Rightarrow> if i = ms_thread e then ms_access_whole fl e hs else Disabled)"

definition ms_go_access :: "ms_pc \<Rightarrow> ms_state \<Rightarrow> ms_accessed" where
  "ms_go_access pc hs =
     (case pc of
        P_tested data b \<Rightarrow> ms_access_push data b hs
      | P_pushed b \<Rightarrow> ms_access_write b hs
      | M_completed \<Rightarrow> ms_access_pop hs
      | M_popped \<Rightarrow> ms_access_check hs
      | M_write_next \<Rightarrow> ms_access_next hs)"

type_synonym ms_workers = "(ms_state, ms_pc) workers"

abbreviation ms_workers_step ::
    "('d, 'z) float_ops_scheme \<Rightarrow> nat \<times> ms_access access \<Rightarrow> ms_workers \<Rightarrow> ms_workers outcome" where
  "ms_workers_step fl \<equiv> workers_step (ms_start_access fl) ms_go_access"

named_theorems ms_acc_defs

lemmas [ms_acc_defs] = ms_access_whole_def ms_access_test_def ms_access_push_def ms_access_write_def
  ms_access_complete_def ms_access_pop_def ms_access_check_def ms_access_next_def
  ms_start_access_def ms_go_access_def

section \<open>Without overlap, the accesses are the handlers\<close>

fun ms_handler :: "ms_access \<Rightarrow> ms_event" where
  "ms_handler (B_take k) = MS_run_task k"
| "ms_handler (B_complete m) = MS_write_done m success_code"
| "ms_handler (B_whole e) = e"

fun ms_left_to_do :: "ms_pc \<Rightarrow> multi_session \<Rightarrow> multi_session result" where
  "ms_left_to_do (P_pushed b) s = (if \<not> b then ms_do_write s else Inr s)"
| "ms_left_to_do (P_tested data b) s =
     (if \<not> b then ms_do_write (s\<lparr>ms_queue := ms_queue s @ [data]\<rparr>)
      else Inr (s\<lparr>ms_queue := ms_queue s @ [data]\<rparr>))"
| "ms_left_to_do M_write_next s = ms_do_write s"
| "ms_left_to_do M_popped s = (if ms_queue s \<noteq> [] then ms_do_write s else Inr s)"
| "ms_left_to_do M_completed s =
     (case ms_queue s of
        [] \<Rightarrow> Inl (Undefined Empty_container)
      | _ # ms \<Rightarrow> (if ms \<noteq> [] then ms_do_write (s\<lparr>ms_queue := ms\<rparr>) else Inr (s\<lparr>ms_queue := ms\<rparr>)))"

definition ms_remaining :: "ms_pc \<Rightarrow> ms_state \<Rightarrow> ms_state result" where
  "ms_remaining pc hs = (case hs of (h, s) \<Rightarrow> rbind (ms_left_to_do pc s) (\<lambda>s. Inr (h, s)))"

lemma ms_start_moves:
  assumes "ms_start_access fl i a hs = Moves p"
  shows "ms_step fl (ms_handler a) hs = outcome_of (rest_of ms_remaining p)"
proof (cases a)
  case (B_whole e)
  then show ?thesis
    using assms by (auto simp: ms_acc_defs split: if_splits)
qed (use assms in \<open>auto simp: ms_acc_defs ms_defs ms_remaining_def rbind_def split: ms_splits\<close>)

lemma ms_start_fails: "ms_start_access fl i a hs = Fails f \<Longrightarrow> ms_step fl (ms_handler a) hs = Fails f"
  by (cases a) (auto simp: ms_acc_defs split: ms_splits)

lemma ms_go_moves: "ms_go_access pc hs = Moves p \<Longrightarrow> ms_remaining pc hs = rest_of ms_remaining p"
  by (cases pc) (auto simp: ms_acc_defs ms_remaining_def rbind_def split: ms_splits)

lemma ms_go_fails: "ms_go_access pc hs = Fails f \<Longrightarrow> ms_remaining pc hs = Inl f"
  by (cases pc) (auto simp: ms_acc_defs ms_remaining_def rbind_def split: ms_splits)

interpretation mst: worker_handlers "ms_step fl" "ms_start_access fl" ms_go_access ms_handler ms_remaining
  by unfold_locales (erule ms_start_moves ms_start_fails ms_go_moves ms_go_fails)+

section \<open>Safety\<close>

text \<open>Of whole handlers: the write in flight is the front of the queue.\<close>

definition ms_queue_inv :: "ms_state \<Rightarrow> bool" where
  "ms_queue_inv hs \<longleftrightarrow> ms_inflight hs = take 1 (ms_queued hs)"

lemma ms_inflight_mem: "MS_write m \<in> set (pending s) \<Longrightarrow> m \<in> set (ms_inflight (h, s))"
  using picks_mem [of ms_write_data "MS_write m" m "pending s"] by (simp add: ms_inflight_def)

lemma ms_queue_inv_step:
  assumes "ms_queue_inv hs" "ms_step fl e hs = Moves t"
  shows "ms_queue_inv t"
proof (cases "ms_label e hs")
  case (Accepts m)
  then show ?thesis
    using ms_accept [OF assms(2) Accepts] assms(1) by (cases "ms_queued hs") (simp_all add: ms_queue_inv_def)
next
  case Completes
  then show ?thesis
    using ms_complete [OF assms(2) Completes] assms(1) by (auto simp: ms_queue_inv_def)
next
  case Unrelated
  then show ?thesis
    using ms_unrelated [OF assms(2) Unrelated] assms(1) by (simp add: ms_queue_inv_def)
next
  case Breaks
  obtain h s where hs: "hs = (h, s)" by (cases hs)
  obtain m ec where e: "e = MS_write_done m ec" "\<not> ec_ok ec"
    using Breaks hs by (cases e) (auto split: ms_splits)
  then have "ms_inflight hs = [m]"
    using assms ms_inflight_mem [of m s h] hs
    by (cases "ms_queued hs") (auto simp: ms_queue_inv_def split: if_splits)
  then show ?thesis
    using assms(2) e hs by (auto simp: ms_queue_inv_def ms_defs ms_queue_defs split: ms_splits)
qed

lemma ms_step_fails:
  assumes "ms_queue_inv hs"
  shows "ms_step fl e hs \<noteq> Fails f"
proof (cases hs)
  case (Pair h s)
  show ?thesis
  proof (cases e)
    case (MS_write_done m ec)
    then show ?thesis
      using assms Pair ms_inflight_mem [of m s h]
      by (auto simp: ms_queue_inv_def ms_queued_def ms_defs rbind_Inl_iff split: ms_splits)
  qed (use Pair in \<open>auto simp: ms_defs rbind_Inl_iff split: ms_splits\<close>)
qed

interpretation msi: safe_invariant "ms_step fl" ms_queue_inv "\<lambda>_. True"
proof unfold_locales
  fix hs e t f
  show "ms_queue_inv t" if "ms_queue_inv hs" "ms_step fl e hs = Moves t"
    using ms_queue_inv_step [OF that] .
  show "\<not> True" if "ms_queue_inv hs" "ms_step fl e hs = Fails f"
    using ms_step_fails [OF that(1)] that(2) by blast
qed

text \<open>
  C19: only an overlap can make a session of the multi-session server fail. Run its handlers
  by its two threads, access by access, with any data handler, whatever the client sends and
  however reads, writes, posted tasks and errors interleave. If a step fails, a handler was
  started in one thread while one of the other was under way.
\<close>

theorem multi_workers_safe:
  assumes "ms_start ip (h, ms_init sid) = Inr hs"
    and "run (ms_workers_step fl) as (at_rest 2 hs) = Fails f"
  shows "\<not> guarded no_overlap (ms_workers_step fl) as (at_rest 2 hs)"
proof
  assume "guarded no_overlap (ms_workers_step fl) as (at_rest 2 hs)"
  then obtain es where "run (ms_step fl) es hs = Fails f"
    using mst.failing_run [OF assms(2)] by blast
  moreover have "ms_queue_inv hs"
    using assms(1) by (auto simp: ms_start_def ms_init_def ms_queue_inv_def ms_queue_defs aio_defs
        split: option.splits)
  ultimately show False
    using msi.safe_run by blast
qed

section \<open>The race\<close>

text \<open>The completion of one reply overlaps with the posting of the next.\<close>

definition overlap :: "bytes \<Rightarrow> nat \<Rightarrow> (nat \<times> ms_access access) list" where
  "overlap m k = [(0, Starts (B_complete m)), (0, Goes), (1, Starts (B_take k)), (1, Goes), (0, Goes),
     (0, Goes), (1, Goes)]"

definition both_complete :: "bytes \<Rightarrow> (nat \<times> ms_access access) list" where
  "both_complete m = [(0, Starts (B_complete m)), (0, Goes), (0, Goes), (0, Starts (B_complete m)), (0, Goes)]"

text \<open>
  C38: overlapping handlers send a reply twice, and the session then crashes. Whenever the
  last queued reply is in flight and a reply is posted, the two threads can run so that the
  lambda finds the queue empty after the completion's \<open>pop_front\<close>, and the completion finds
  the reply that the lambda has pushed in between: both start a write of this reply, and
  when both complete, the second completion pops an empty queue.
\<close>

theorem overlapping_replies:
  assumes "MS_write m \<in> set (pending s)" "ms_queue s = [m]"
    and "k < length (posted s)" "posted s ! k = MS_write_task data"
  shows "\<exists>t. run (ms_workers_step fl) (overlap m k) (at_rest 2 (h, s)) = Moves (at_rest 2 (h, t))
    \<and> pending t = remove1 (MS_write m) (pending s) @ [MS_write data, MS_write data] \<and> ms_queue t = [data]
    \<and> run (ms_workers_step fl) (both_complete data) (at_rest 2 (h, t)) = Fails (Undefined Empty_container)"
  using assms write_still_pending
  by (simp add: overlap_def both_complete_def at_rest_2 w_put_def ms_acc_defs ms_defs)

text \<open>The example: a client sends a second message before the first reply is written.\<close>

definition two_messages :: "(nat \<times> ms_access access) list" where
  "two_messages = [(1, Starts (B_whole (MS_run_task 0))),
     (0, Starts (B_whole (MS_read_done success_code ''a''))), (1, Starts (B_take 0)), (1, Goes), (1, Goes),
     (0, Starts (B_whole (MS_read_done success_code ''b'')))]"

definition overlap_session :: multi_session where
  "overlap_session = (ms_init ''SESS-0-1'')\<lparr>pending := [MS_write ''Echo: a'', MS_read],
     trace := [MS_wrote ''Echo: a''], ms_queue := [''Echo: a''],
     posted := [MS_write_task ''Echo: b'']\<rparr>"

lemma two_messages_run:
  assumes "ms_start (Some ''p'') (Echo_handler, ms_init ''SESS-0-1'') = Inr hs"
  shows "run (ms_workers_step int_ops) two_messages (at_rest 2 hs)
    = Moves (at_rest 2 (Echo_handler, overlap_session))"
  using assms
  by (auto simp: two_messages_def overlap_session_def at_rest_2 w_put_def ms_acc_defs ms_defs ms_init_def
      mh_process_def mh_created_def)

lemma overlap_session_simps:
  "MS_write ''Echo: a'' \<in> set (pending overlap_session)" "ms_queue overlap_session = [''Echo: a'']"
  "0 < length (posted overlap_session)" "posted overlap_session ! 0 = MS_write_task ''Echo: b''"
  by (simp_all add: overlap_session_def)

theorem overlapping_replies_witness:
  "\<exists>hs t. ms_start (Some ''p'') (Echo_handler, ms_init ''SESS-0-1'') = Inr hs
    \<and> run (ms_workers_step int_ops) (two_messages @ overlap ''Echo: a'' 0) (at_rest 2 hs)
      = Moves (at_rest 2 (Echo_handler, t))
    \<and> pending t = [MS_read, MS_write ''Echo: b'', MS_write ''Echo: b'']"
proof -
  obtain hs where hs: "ms_start (Some ''p'') (Echo_handler, ms_init ''SESS-0-1'') = Inr hs"
    by (simp add: ms_start_def ms_init_def)
  obtain t where "run (ms_workers_step int_ops) (overlap ''Echo: a'' 0)
        (at_rest 2 (Echo_handler, overlap_session)) = Moves (at_rest 2 (Echo_handler, t))"
      "pending t = remove1 (MS_write ''Echo: a'') (pending overlap_session)
        @ [MS_write ''Echo: b'', MS_write ''Echo: b'']"
    using overlapping_replies [OF overlap_session_simps, of int_ops Echo_handler] by blast
  with two_messages_run [OF hs] hs show ?thesis
    by (intro exI [of _ hs] exI [of _ t]) (simp add: run_append overlap_session_def)
qed

theorem multi_workers_safe_witness:
  "\<exists>hs. ms_start (Some ''p'') (Echo_handler, ms_init ''SESS-0-1'') = Inr hs
    \<and> \<not> guarded no_overlap (ms_workers_step int_ops)
        (two_messages @ overlap ''Echo: a'' 0 @ both_complete ''Echo: b'') (at_rest 2 hs)"
proof -
  obtain hs where hs: "ms_start (Some ''p'') (Echo_handler, ms_init ''SESS-0-1'') = Inr hs"
    by (simp add: ms_start_def ms_init_def)
  have "run (ms_workers_step int_ops) (overlap ''Echo: a'' 0 @ both_complete ''Echo: b'')
      (at_rest 2 (Echo_handler, overlap_session)) = Fails (Undefined Empty_container)"
    by (simp add: overlap_def both_complete_def overlap_session_def at_rest_2 w_put_def ms_acc_defs ms_defs ms_init_def)
  then have "run (ms_workers_step int_ops) (two_messages @ overlap ''Echo: a'' 0 @ both_complete ''Echo: b'')
      (at_rest 2 hs) = Fails (Undefined Empty_container)"
    using two_messages_run [OF hs] by (simp add: run_append)
  from multi_workers_safe [OF hs this] hs show ?thesis
    by auto
qed

end
