(* ===== verification/Multi_Link.thy ===== *)
theory Multi_Link
  imports Echo_Exchange Multi_Race
begin

text \<open>
  The clients of \<^verbatim>\<open>asio-1.28_async_client\<close> and \<^verbatim>\<open>asio-1.28\<close> talking to a session of the
  multi-session server, with any of its data handlers. The session is served by its two
  threads, access by access. The server answers what each read
  delivers, so what comes back depends on how the bytes are cut into pieces; given the
  pieces, it is determined.
\<close>

section \<open>The session as a peer\<close>

text \<open>The responses of a handler to a sequence of reads, and the handler after them.\<close>

fun responses :: "('d, 'z) float_ops_scheme \<Rightarrow> string \<Rightarrow> bytes list \<Rightarrow> multi_handler \<Rightarrow> bytes list" where
  "responses fl sid [] h = []"
| "responses fl sid (c # cs) h =
     fst (mh_process fl sid c h) # responses fl sid cs (snd (mh_process fl sid c h))"

fun ms_pieces :: "ms_event \<Rightarrow> bytes list" where
  "ms_pieces (MS_read_done ec data) = (if ec_ok ec then [data] else [])"
| "ms_pieces _ = []"

definition ms_takes :: "ms_event \<Rightarrow> bytes" where
  "ms_takes e = concat (ms_pieces e)"

text \<open>Calm: the posted tasks run in order, and reads and writes succeed.\<close>

fun ms_calm :: "ms_event \<Rightarrow> ms_state \<Rightarrow> bool" where
  "ms_calm (MS_run_task i) hs = (i = 0)"
| "ms_calm (MS_read_done ec data) hs = ec_ok ec"
| "ms_calm (MS_write_done m ec) hs = ec_ok ec"

fun ms_task_data :: "ms_task \<Rightarrow> bytes option" where
  "ms_task_data (MS_write_task data) = Some data"
| "ms_task_data MS_read_task = None"

text \<open>The responses posted and not yet queued.\<close>

definition ms_posted :: "ms_state \<Rightarrow> bytes list" where
  "ms_posted hs = picks ms_task_data (posted (snd hs))"

definition ms_peer :: "('d, 'z) float_ops_scheme \<Rightarrow> (ms_event, ms_state) peer" where
  "ms_peer fl = queue_peer (ms_step fl) ms_written ms_takes ms_calm"

lemma ms_calm_unbroken: "ms_calm e hs \<Longrightarrow> ms_label e hs \<noteq> Breaks"
  by (cases hs; cases e) (auto split: ms_task.splits)

interpretation msw: queue_writer "ms_step fl" ms_label ms_queued ms_inflight ms_written ms_takes ms_calm
  by unfold_locales (rule ms_calm_unbroken)

text \<open>One step: a response is posted for what was read, and the posted ones are queued in order.\<close>

lemma ms_response_step:
  assumes "ms_step fl e (h, s) = Moves (h', s')" "ms_calm e (h, s)"
  shows "accepts ms_label e (h, s) @ ms_posted (h', s')
        = ms_posted (h, s) @ responses fl (ms_id s) (ms_pieces e) h
      \<and> responses fl (ms_id s) (ms_pieces e @ cs) h
        = responses fl (ms_id s) (ms_pieces e) h @ responses fl (ms_id s') cs h'
      \<and> ms_id s' = ms_id s \<and> list_all (\<lambda>c. length c \<le> 1024) (ms_pieces e)"
proof (cases e)
  case (MS_run_task i)
  then obtain k ks where "posted s = k # ks" "i = 0"
    using assms by (cases "posted s") auto
  then show ?thesis
    using assms MS_run_task
    by (auto simp: ms_defs ms_posted_def accepts_def rbind_def split: ms_splits)
qed (use assms in \<open>auto simp: ms_defs ms_posted_def accepts_def rbind_def split: ms_splits\<close>)

text \<open>A calm run: what was read in which pieces determines what was queued and is posted.\<close>

lemma ms_response_run:
  assumes "run (ms_step fl) es (h, s) = Moves t" "guarded ms_calm (ms_step fl) es (h, s)"
  shows "accepted (ms_step fl) ms_label es (h, s) @ ms_posted t
      = ms_posted (h, s) @ responses fl (ms_id s) (concat (map ms_pieces es)) h
    \<and> list_all (\<lambda>c. length c \<le> 1024) (concat (map ms_pieces es))"
  using assms
proof (induction es arbitrary: h s)
  case (Cons e es)
  then obtain h' s' where u: "ms_step fl e (h, s) = Moves (h', s')" "run (ms_step fl) es (h', s') = Moves t"
    unfolding run_Cons_Moves by auto
  have calm: "ms_calm e (h, s)" "guarded ms_calm (ms_step fl) es (h', s')"
    using Cons.prems(2) u(1) by simp_all
  note st = ms_response_step [OF u(1) calm(1)]
  have "accepted (ms_step fl) ms_label (e # es) (h, s)
      = accepts ms_label e (h, s) @ accepted (ms_step fl) ms_label es (h', s')"
    using u(1) by (simp add: accepts_def)
  then show ?case
    using Cons.IH [OF u(2) calm(2)] st [of "concat (map ms_pieces es)"]
    by (metis (no_types, lifting) append.assoc concat.simps(2) list.simps(9) list_all_append)
qed simp

lemma ms_taken: "taken (ms_peer fl) es = concat (concat (map ms_pieces es))"
  by (induction es) (simp_all add: ms_peer_def queue_peer_def ms_takes_def)

text \<open>The session as its two threads run it, calm as long as no two handlers overlap.\<close>

definition ms_threads :: "('d, 'z) float_ops_scheme \<Rightarrow> (nat \<times> ms_access access, ms_workers) peer" where
  "ms_threads fl = workers_peer (ms_start_access fl) ms_go_access ms_handler (ms_peer fl)"

lemma ms_peer_simps [simp]:
  "peer_step (ms_peer fl) = ms_step fl" "peer_calm (ms_peer fl) = ms_calm"
  "peer_sent (ms_peer fl) hs = concat (ms_written hs)"
  by (simp_all add: ms_peer_def queue_peer_def)

lemma ms_start_sends:
  assumes "ms_calm (ms_handler a) hs" "ms_start_access fl i a hs = Moves (pc, t)"
  shows "prefix (concat (ms_written hs)) (concat (ms_written t))"
proof (cases a)
  case (B_whole e)
  then have "ms_step fl e hs = Moves t"
    using assms(2) by (auto simp: ms_acc_defs split: if_splits)
  then show ?thesis
    using msw.only_sends [OF TrueI, of fl e hs t] assms(1) B_whole by (simp add: queue_peer_def)
qed (use assms in \<open>auto simp: ms_acc_defs ms_defs ms_written_def split: ms_splits\<close>)

lemma ms_go_sends:
  "ms_go_access c hs = Moves (pc, t) \<Longrightarrow> prefix (concat (ms_written hs)) (concat (ms_written t))"
  by (cases c) (auto simp: ms_acc_defs ms_defs ms_written_def rbind_def split: ms_splits)

interpretation msp: worker_peer "ms_peer fl" "ms_start_access fl" ms_go_access ms_handler ms_remaining
  by unfold_locales
    (simp_all add: ms_start_moves ms_start_fails ms_go_moves ms_go_fails ms_start_sends ms_go_sends)

text \<open>A started session linked to any peer: the pieces it has read, and the responses to them.\<close>

lemma ms_start_idle:
  assumes "ms_start ip (h, ms_init sid) = Inr hs"
  shows "ms_queued hs = []" "ms_inflight hs = []" "ms_written hs = []" "ms_posted hs = []"
    and "fst hs = mh_created sid h" "ms_id (snd hs) = sid"
    and "peer_sent (ms_threads fl) (at_rest 2 hs) = []"
  using assms
  by (auto simp: ms_threads_def workers_peer_def ms_queue_defs ms_posted_def ms_start_def ms_init_def aio_defs
      split: option.splits)

lemma multi_served:
  assumes "run (link_step P (ms_threads fl)) es (link_init c (at_rest 2 hs)) = Moves l"
    and "lk_right l = at_rest 2 t" "ms_start ip (h, ms_init sid) = Inr hs"
  shows "\<exists>pieces. list_all (\<lambda>p. length p \<le> 1024) pieces
    \<and> taken (ms_threads fl) (rights es) = concat pieces
    \<and> concat (responses fl sid pieces (mh_created sid h))
      = peer_sent (ms_threads fl) (lk_right l) @ concat (drop 1 (ms_queued t)) @ concat (ms_posted t)"
proof -
  let ?es = "started ms_handler (rights es)"
  let ?pieces = "concat (map ms_pieces ?es)"
  note idle = ms_start_idle [OF assms(3)]
  obtain s where hs: "hs = (mh_created sid h, s)" and sid: "ms_id s = sid"
    using idle(5,6) by (cases hs) auto
  note right = msp.linked_at_rest [OF assms(1) [unfolded ms_threads_def] assms(2), simplified]
  note run = ms_response_run [OF right [unfolded hs], folded hs, unfolded sid]
  have "ms_written t @ drop 1 (ms_queued t) @ ms_posted t = responses fl sid ?pieces (mh_created sid h)"
    using run msw.accepted_calm [OF right idle(1-3)] idle(4) by simp
  from arg_cong [OF this, of concat] show ?thesis
    using run ms_taken [of fl ?es] msp.taken_started [of fl "rights es"] assms(2)
    by (intro exI [of _ ?pieces]) (simp add: ms_threads_def workers_peer_def)
qed

section \<open>Any client with a write queue\<close>

context queue_client begin

lemma multi_exchange:
  assumes "run (link_step (queue_peer step written takes calm) (ms_threads fl)) es
      (link_init c (at_rest 2 hs)) = Moves l"
    and "lk_right l = at_rest 2 t" "fresh c" "ms_start ip (h, ms_init sid) = Inr hs"
  shows "\<exists>pieces. list_all (\<lambda>p. length p \<le> 1024) pieces
    \<and> concat (accepted step label (lefts es) c)
      = concat pieces @ to_right l @ concat (drop 1 (queue (lk_left l)))
    \<and> concat (responses fl sid pieces (mh_created sid h))
      = received (lk_left l) @ to_left l @ concat (drop 1 (ms_queued t))
        @ concat (ms_posted t)"
  using multi_served [OF assms(1,2,4)]
    linked [OF assms(1,3) msp.socket_peer_axioms [folded ms_threads_def] TrueI ms_start_idle(7) [OF assms(4)]]
  by auto

end

section \<open>The two clients\<close>

text \<open>
  C30: an \<open>AsyncClient\<close> and a session of the multi-session server with any data handler,
  run by the session's two threads, access by access. Let the connection hold (no read or
  write fails), the posted tasks of the session start in order, and no handler of the session
  start while another one of it is under way in the other thread. Then, whenever none is under
  way: the messages the client accepted are, put together, the pieces the session has read
  (of at most 1024 bytes), what is under way and what is queued; and the responses of the data
  handler to these pieces, in order, are what the client's callback was given, what is on its
  way back, what is queued in the session and what is posted.
\<close>

theorem async_multi_exchange:
  assumes "run (link_step async_peer (ms_threads fl)) es (link_init c (at_rest 2 hs)) = Moves l"
    and "lk_right l = at_rest 2 t"
    and "ms_start ip (h, ms_init sid) = Inr hs"
    and "write_msgs c = []" "ac_inflight c = []" "ac_written c = []" "on_receive c" "ac_received c = []"
  shows "\<exists>pieces. list_all (\<lambda>p. length p \<le> 1024) pieces
    \<and> concat (accepted ac_step ac_label (lefts es) c)
      = concat pieces @ to_right l @ concat (drop 1 (write_msgs (lk_left l)))
    \<and> concat (responses fl sid pieces (mh_created sid h))
      = ac_received (lk_left l) @ to_left l @ concat (drop 1 (ms_queued t))
        @ concat (ms_posted t)"
  using ace.multi_exchange [OF assms(1) [unfolded async_peer_def] assms(2) _ assms(3)] assms(4-8)
  by (simp add: ace.fresh_def)

text \<open>The same of the asio-1.28 \<open>TcpClient\<close>.\<close>

theorem tcp_multi_exchange:
  assumes "run (link_step tcp_peer (ms_threads fl)) es (link_init c (at_rest 2 hs)) = Moves l"
    and "lk_right l = at_rest 2 t"
    and "ms_start ip (h, ms_init sid) = Inr hs"
    and "send_msgs c = []" "tc_inflight c = []" "tc_written c = []"
    and "recv_cb c" "length (recv_msg c) = recv_size" "tc_received c = []"
  shows "\<exists>pieces. list_all (\<lambda>p. length p \<le> 1024) pieces
    \<and> concat (accepted tc_step tc_label (lefts es) c)
      = concat pieces @ to_right l @ concat (drop 1 (send_msgs (lk_left l)))
    \<and> concat (responses fl sid pieces (mh_created sid h))
      = tc_received (lk_left l) @ to_left l @ concat (drop 1 (ms_queued t))
        @ concat (ms_posted t)"
  using tce.multi_exchange [OF assms(1) [unfolded tcp_peer_def] assms(2) _ assms(3)] assms(4-9)
  by (simp add: tce.fresh_def tc_listening_def)

text \<open>The example: one message, and the first part of its echo.\<close>

definition multi_link_events :: "(ac_event, nat \<times> ms_access access) link_event list" where
  "multi_link_events = [At_left (AC_call_send ''hey''), At_left (AC_run_task 0 True),
     At_right (1, Starts (B_whole (MS_run_task 0))),
     At_right (0, Starts (B_whole (MS_read_done success_code ''hey''))), At_right (1, Starts (B_take 0)),
     At_right (1, Goes), At_right (1, Goes), At_left (AC_read_done success_code ''Echo: '')]"

theorem async_multi_exchange_witness:
  "\<exists>hs t l pieces. ms_start (Some ''p'') (Echo_handler, ms_init ''S'') = Inr hs
    \<and> run (link_step async_peer (ms_threads int_ops)) multi_link_events
        (link_init ac_connected_demo (at_rest 2 hs)) = Moves l \<and> lk_right l = at_rest 2 t
    \<and> ac_received (lk_left l) = ''Echo: '' \<and> concat pieces = ''hey''
    \<and> concat (responses int_ops ''S'' pieces (mh_created ''S'' Echo_handler)) = ''Echo: hey''"
proof -
  obtain hs where hs: "ms_start (Some ''p'') (Echo_handler, ms_init ''S'') = Inr hs"
    by (simp add: ms_start_def ms_init_def)
  obtain l t where l: "run (link_step async_peer (ms_threads int_ops)) multi_link_events
      (link_init ac_connected_demo (at_rest 2 hs)) = Moves l" "lk_right l = at_rest 2 t"
      "ac_received (lk_left l) = ''Echo: ''" "to_left l = ''hey''" "to_right l = []"
      "write_msgs (lk_left l) = [''hey'']" "ms_queued t = [''Echo: hey'']" "ms_posted t = []"
    using hs
    by (auto simp: multi_link_events_def ac_connected_demo_def async_peer_def ms_threads_def workers_peer_def
        ms_peer_def queue_peer_def at_rest_2 w_put_def orderly_def ms_acc_defs
        link_init_def ac_defs ms_defs ac_init_def ms_init_def mh_created_def mh_process_def newly_sent_def
        ac_written_def ac_received_def max_length_def ms_takes_def ms_queue_defs ms_posted_def)
  have c: "write_msgs ac_connected_demo = []" "ac_inflight ac_connected_demo = []"
    "ac_written ac_connected_demo = []" "on_receive ac_connected_demo" "ac_received ac_connected_demo = []"
    by (simp_all add: ac_connected_demo_def ac_init_def ac_inflight_def ac_written_def ac_received_def)
  have "accepted ac_step ac_label (lefts multi_link_events) ac_connected_demo = [''hey'']"
    by (simp add: multi_link_events_def ac_connected_demo_def ac_defs ac_init_def)
  with async_multi_exchange [OF l(1,2) hs c] l(3-8) obtain pieces where "concat pieces = ''hey''"
      "concat (responses int_ops ''S'' pieces (mh_created ''S'' Echo_handler)) = ''Echo: hey''"
    by auto
  with l(1-3) hs show ?thesis
    by blast
qed

end
