(* ===== verification/Connection_Server.thy ===== *)
theory Connection_Server
  imports Connection_Link Protocol_Link Multi_Link
begin

text \<open>
  A \<open>TcpConnection\<close> of \<^verbatim>\<open>asio-1.10\<close>, which sends out of a buffer and not out of a queue of
  messages, with a session of each of the three servers, as the threads of the server run it.
\<close>

text \<open>The echo server: every byte comes back once and in order.\<close>

theorem connection_echo:
  assumes "run (link_step tn_peer echo_peer) es (link_init (tn_init n) (es_start (es_init mem))) = Moves l"
  shows "concat (history tn_step tn_sent (lefts es) (tn_init n))
    = tn_consumed (lk_left l) @ contents (buf_in (lk_left l)) @ to_left l @ to_right l @ unstarted (lk_left l)"
proof -
  let ?x = "es_start (es_init mem)"
  have x: "es_going ?x" "es_started ?x = []"
    by (simp_all add: es_going_def es_started_def es_sent_def es_defs)
  have right: "run es_step (rights es) ?x = Moves (lk_right l)" "guarded es_calm es_step (rights es) ?x"
    using link_run_right [OF assms] by (simp_all add: echo_peer_def link_init_def)
  show ?thesis
    using tn_linked [OF assms ep.socket_peer_axioms] x echo_run [OF right x(1)] by (simp add: echo_peer_def)
qed

text \<open>The line protocol: one reply for each line, in order.\<close>

theorem connection_line_exchange:
  assumes "run (link_step tn_peer (mp_threads fac)) es (link_init (tn_init n) (at_rest w s0)) = Moves l"
    and "lk_right l = at_rest w s"
    and "mp_started fac mem sid proto peer = Inr s0" "length mem = READ_BUFFER_SIZE"
    and "fac proto = Some LineProtocolHandler"
    and "history tn_step tn_sent (lefts es) (tn_init n) = map line_prepare_send ms"
    and "list_all (carries LineProtocolHandler) ms"
  shows "\<exists>k. messages s = take k ms
    \<and> buffered s @ to_right l @ unstarted (lk_left l) = concat (map line_prepare_send (drop k ms))
    \<and> tn_consumed (lk_left l) @ contents (buf_in (lk_left l)) @ to_left l
        @ concat (drop 1 (write_queue s))
        @ concat (map line_prepare_send (mp_replies_posted s))
      = concat (map (\<lambda>m. line_prepare_send (''Echo: '' @ m)) (take k ms))"
proof -
  note linked = tn_linked [OF assms(1) mpp.socket_peer_axioms [folded mp_threads_def] TrueI
      mp_started_peer [OF assms(3,4)]]
  show ?thesis
    using line_served [OF assms(1-5,7)] linked assms(6) by (metis append.assoc)
qed

text \<open>The multi-session server: the responses to the pieces it read.\<close>

theorem connection_multi_exchange:
  assumes "run (link_step tn_peer (ms_threads fl)) es (link_init (tn_init n) (at_rest 2 hs)) = Moves l"
    and "lk_right l = at_rest 2 t"
    and "ms_start ip (h, ms_init sid) = Inr hs"
  shows "\<exists>pieces. list_all (\<lambda>p. length p \<le> 1024) pieces
    \<and> concat (history tn_step tn_sent (lefts es) (tn_init n)) = concat pieces @ to_right l @ unstarted (lk_left l)
    \<and> concat (responses fl sid pieces (mh_created sid h))
      = tn_consumed (lk_left l) @ contents (buf_in (lk_left l)) @ to_left l
        @ concat (drop 1 (ms_queued t)) @ concat (ms_posted t)"
  using multi_served [OF assms]
    tn_linked [OF assms(1) msp.socket_peer_axioms [folded ms_threads_def] TrueI ms_start_idle(7) [OF assms(3)]]
  by auto

end
