(* ===== verification/Tcp_Connection_28.thy ===== *)
theory Tcp_Connection_28
  imports Tcp_Connection
begin

text \<open>
  \<open>TcpConnection\<close> of \<^verbatim>\<open>asio-1.28/src/tcp_connection.cpp\<close>, the port of the class to
  the newer asio. It has no connection name and no state \<open>DISCONNECTING\<close>. The definitions
  are translated from the port's own text; the asynchronous operations, the posted calls and
  the observations are those of \<^theory_text>\<open>Tcp_Connection\<close>. That the port behaves like the
  original is a property, and carries what is proved of the original over to the port.
\<close>

section \<open>The class\<close>

datatype conn28_state = P_CONNECTING | P_CONNECTED | P_DISCONNECTED

record tcp_connection28 = "(tn_op, tn_task, tn_obs) aio" +
  p_receiving :: bool
  p_sending :: bool
  p_state :: conn28_state
  p_buf_in :: conn_buffer
  p_buf_out :: conn_buffer
  p_out_moved :: bool
  p_connect_callback :: bool
  p_close_callback :: bool
  p_recv_callback :: bool

definition p_init :: tcp_connection28 where
  "p_init = \<lparr>pending = [], posted = [], trace = [], p_receiving = False, p_sending = False,
     p_state = P_CONNECTING, p_buf_in = new_buffer, p_buf_out = new_buffer, p_out_moved = False,
     p_connect_callback = False, p_close_callback = False, p_recv_callback = False\<rparr>"

definition p_destroy :: "tcp_connection28 \<Rightarrow> tcp_connection28" where
  "p_destroy s = observe TN_socket_closed s"

definition p_connected :: "tcp_connection28 \<Rightarrow> bool" where
  "p_connected s \<longleftrightarrow> p_state s = P_CONNECTED"

definition p_setConnState :: "conn28_state \<Rightarrow> tcp_connection28 \<Rightarrow> tcp_connection28" where
  "p_setConnState st s = s\<lparr>p_state := st\<rparr>"

definition p_setConnectionCallback :: "bool \<Rightarrow> tcp_connection28 \<Rightarrow> tcp_connection28" where
  "p_setConnectionCallback cb s = s\<lparr>p_connect_callback := cb\<rparr>"

definition p_setCloseCallback :: "bool \<Rightarrow> tcp_connection28 \<Rightarrow> tcp_connection28" where
  "p_setCloseCallback cb s = s\<lparr>p_close_callback := cb\<rparr>"

definition p_setReceiveCallback :: "bool \<Rightarrow> tcp_connection28 \<Rightarrow> tcp_connection28" where
  "p_setReceiveCallback cb s = s\<lparr>p_recv_callback := cb\<rparr>"

definition p_startReceive :: "tcp_connection28 \<Rightarrow> tcp_connection28" where
  "p_startReceive s =
     (if p_receiving s then s else (post_task TN_receive_task s)\<lparr>p_receiving := True\<rparr>)"

definition p_sendMessage :: "bytes \<Rightarrow> tcp_connection28 \<Rightarrow> tcp_connection28" where
  "p_sendMessage data s = post_task (TN_send_task data) s"

definition p_forceClose :: "tcp_connection28 \<Rightarrow> tcp_connection28" where
  "p_forceClose s = post_task TN_close_task s"

definition p_receiveInService :: "tcp_connection28 \<Rightarrow> tcp_connection28 result" where
  "p_receiveInService s =
     rbind (writePtr (p_buf_in s)) (\<lambda>p.
     Inr (initiate (TN_read p (unat (writableCount (p_buf_in s)))) s))"

definition p_run_close_callback :: "tcp_connection28 \<Rightarrow> tcp_connection28" where
  "p_run_close_callback s = (if p_close_callback s then observe TN_closed s else s)"

definition p_cancel_and_close :: "bool \<Rightarrow> tcp_connection28 \<Rightarrow> tcp_connection28 result" where
  "p_cancel_and_close is_open s =
     (if is_open
      then Inr (p_run_close_callback ((observe TN_cancelled s)\<lparr>p_state := P_DISCONNECTED\<rparr>))
      else Inl (Throws ''cancel: Bad file descriptor''))"

definition p_run_recv_callback :: "nat \<Rightarrow> tcp_connection28 \<Rightarrow> tcp_connection28" where
  "p_run_recv_callback k s =
     (if p_recv_callback s then
        observe (TN_consumed (take k (contents (p_buf_in s))))
          (s\<lparr>p_buf_in := retrieveReadIndex (of_nat k) (p_buf_in s)\<rparr>)
      else s)"

definition p_handleReceive ::
    "error_code \<Rightarrow> nat \<Rightarrow> bool \<Rightarrow> nat \<Rightarrow> tcp_connection28 \<Rightarrow> tcp_connection28 result" where
  "p_handleReceive ec bytes_transferred is_open k s =
     (if ec_ok ec then
        rbind (adjustInternal (retrieveWriteIndex (of_nat bytes_transferred) (p_buf_in s))) (\<lambda>b.
        p_receiveInService (p_run_recv_callback k (s\<lparr>p_buf_in := b\<rparr>)))
      else if ec_value ec = 2 \<and> p_close_callback s then
        Inr (p_run_close_callback (s\<lparr>p_state := P_DISCONNECTED\<rparr>))
      else p_cancel_and_close is_open s)"

definition p_start_write :: "tcp_connection28 \<Rightarrow> tcp_connection28 result" where
  "p_start_write s =
     rbind (readPtr (p_buf_out s)) (\<lambda>p.
     Inr (initiate
       (TN_write p (segment (buffer (p_buf_out s)) p (unat (readableCount (p_buf_out s)))))
       (s\<lparr>p_out_moved := False\<rparr>)))"

definition p_sendInService :: "bool \<Rightarrow> bytes \<Rightarrow> tcp_connection28 \<Rightarrow> tcp_connection28 result" where
  "p_sendInService moves data s =
     rbind (buf_append data (p_buf_out s)) (\<lambda>b.
       let s = s\<lparr>p_buf_out := b,
             p_out_moved := p_out_moved s
               \<or> moves \<and> length (buffer b) > length (buffer (p_buf_out s))\<rparr>
       in if \<not> p_sending s \<and> p_connected s
          then rbind (p_start_write s) (\<lambda>s. Inr (s\<lparr>p_sending := True\<rparr>))
          else Inr s)"

definition p_handleSend :: "error_code \<Rightarrow> nat \<Rightarrow> bool \<Rightarrow> tcp_connection28 \<Rightarrow> tcp_connection28 result" where
  "p_handleSend ec bytes_transferred is_open s =
     (if ec_ok ec then
        let s = s\<lparr>p_buf_out := retrieveReadIndex (of_nat bytes_transferred) (p_buf_out s)\<rparr>
        in if readableCount (p_buf_out s) > 0 \<and> p_connected s then p_start_write s
           else Inr (s\<lparr>p_sending := False\<rparr>)
      else p_cancel_and_close is_open s)"

definition p_closeInService :: "bool \<Rightarrow> tcp_connection28 \<Rightarrow> tcp_connection28 result" where
  "p_closeInService is_open s = p_cancel_and_close is_open s"

section \<open>Steps\<close>

definition p_wire_bytes :: "bool \<Rightarrow> nat \<Rightarrow> bytes \<Rightarrow> tcp_connection28 \<Rightarrow> bytes result" where
  "p_wire_bytes late p snapshot s =
     (if \<not> late then Inr snapshot
      else if p_out_moved s then Inl (Undefined Use_after_free)
      else Inr (segment (buffer (p_buf_out s)) p (length snapshot)))"

definition p_store :: "nat \<Rightarrow> bytes \<Rightarrow> tcp_connection28 \<Rightarrow> tcp_connection28" where
  "p_store p data s =
     s\<lparr>p_buf_in := (p_buf_in s)\<lparr>buffer := overwrite (buffer (p_buf_in s)) p data\<rparr>\<rparr>"

definition p_run_task :: "bool \<Rightarrow> bool \<Rightarrow> tn_task \<Rightarrow> tcp_connection28 \<Rightarrow> tcp_connection28 result" where
  "p_run_task moves is_open k s =
     (case k of
        TN_receive_task \<Rightarrow> p_receiveInService s
      | TN_send_task data \<Rightarrow> p_sendInService moves data s
      | TN_close_task \<Rightarrow> p_closeInService is_open s)"

text \<open>The events are those of the original; the port has no state \<open>DISCONNECTING\<close> to set.\<close>

fun to_p_state :: "conn_state \<Rightarrow> conn28_state option" where
  "to_p_state S_CONNECTING = Some P_CONNECTING"
| "to_p_state S_CONNECTED = Some P_CONNECTED"
| "to_p_state S_DISCONNECTING = None"
| "to_p_state S_DISCONNECTED = Some P_DISCONNECTED"

fun p_step :: "tn_event \<Rightarrow> tcp_connection28 \<Rightarrow> tcp_connection28 outcome" where
  "p_step TN_call_startReceive s = Moves (p_startReceive s)"
| "p_step (TN_call_sendMessage data) s = Moves (p_sendMessage data s)"
| "p_step TN_call_forceClose s = Moves (p_forceClose s)"
| "p_step (TN_call_setState st) s =
     (case to_p_state st of Some st' \<Rightarrow> Moves (p_setConnState st' s) | None \<Rightarrow> Disabled)"
| "p_step (TN_call_set c d r) s =
     Moves (p_setConnectionCallback c (p_setCloseCallback d (p_setReceiveCallback r s)))"
| "p_step (TN_run_task i moves is_open) s =
     (if i < length (posted s)
      then outcome_of (p_run_task moves is_open (posted s ! i) (take_task i s)) else Disabled)"
| "p_step (TN_read_done p n ec data is_open k) s =
     (if TN_read p n \<in> set (pending s) \<and> length data \<le> n
      then outcome_of (p_handleReceive ec (length data) is_open k
        (p_store p data (finish_op (TN_read p n) s))) else Disabled)"
| "p_step (TN_write_done p snapshot ec late is_open) s =
     (if TN_write p snapshot \<in> set (pending s)
      then outcome_of (
        if ec_ok ec then
          rbind (p_wire_bytes late p snapshot s) (\<lambda>bs.
          p_handleSend ec (length snapshot) is_open
            (observe (TN_wire bs) (finish_op (TN_write p snapshot) s)))
        else p_handleSend ec 0 is_open (finish_op (TN_write p snapshot) s))
      else Disabled)"

section \<open>The port does what the original does\<close>

fun of_p_state :: "conn28_state \<Rightarrow> conn_state" where
  "of_p_state P_CONNECTING = S_CONNECTING"
| "of_p_state P_CONNECTED = S_CONNECTED"
| "of_p_state P_DISCONNECTED = S_DISCONNECTED"

text \<open>A connection of the port, seen as one of the original with a given name.\<close>

definition original :: "string \<Rightarrow> tcp_connection28 \<Rightarrow> tcp_connection" where
  "original name s = \<lparr>pending = pending s, posted = posted s, trace = trace s, conn_name = name,
     receiving = p_receiving s, sending = p_sending s, conn_state = of_p_state (p_state s),
     buf_in = p_buf_in s, buf_out = p_buf_out s, out_moved = p_out_moved s,
     connection_callback = p_connect_callback s, close_callback = p_close_callback s,
     retrieve_callback = p_recv_callback s\<rparr>"

fun portable :: "tn_event \<Rightarrow> bool" where
  "portable (TN_call_setState st) \<longleftrightarrow> st \<noteq> S_DISCONNECTING"
| "portable _ \<longleftrightarrow> True"

lemma original_fields [simp]:
  "pending (original name s) = pending s" "posted (original name s) = posted s"
  "trace (original name s) = trace s" "receiving (original name s) = p_receiving s"
  "sending (original name s) = p_sending s" "buf_in (original name s) = p_buf_in s"
  "conn_state (original name s) = of_p_state (p_state s)"
  "buf_out (original name s) = p_buf_out s" "out_moved (original name s) = p_out_moved s"
  "close_callback (original name s) = p_close_callback s"
  "retrieve_callback (original name s) = p_recv_callback s"
  by (simp_all add: original_def)

lemma original_connected [simp]: "connected (original name s) \<longleftrightarrow> p_connected s"
  by (cases "p_state s") (simp_all add: connected_def p_connected_def)

text \<open>Every update and every operation commutes with this view.\<close>

lemma original_updates [simp]:
  "(original name s)\<lparr>receiving := b\<rparr> = original name (s\<lparr>p_receiving := b\<rparr>)"
  "(original name s)\<lparr>sending := b\<rparr> = original name (s\<lparr>p_sending := b\<rparr>)"
  "(original name s)\<lparr>conn_state := of_p_state st\<rparr> = original name (s\<lparr>p_state := st\<rparr>)"
  "(original name s)\<lparr>conn_state := S_DISCONNECTED\<rparr> = original name (s\<lparr>p_state := P_DISCONNECTED\<rparr>)"
  "(original name s)\<lparr>buf_in := buf\<rparr> = original name (s\<lparr>p_buf_in := buf\<rparr>)"
  "(original name s)\<lparr>buf_out := buf\<rparr> = original name (s\<lparr>p_buf_out := buf\<rparr>)"
  "(original name s)\<lparr>buf_out := buf, out_moved := b\<rparr>
     = original name (s\<lparr>p_buf_out := buf, p_out_moved := b\<rparr>)"
  "(original name s)\<lparr>out_moved := b\<rparr> = original name (s\<lparr>p_out_moved := b\<rparr>)"
  "(original name s)\<lparr>connection_callback := b\<rparr> = original name (s\<lparr>p_connect_callback := b\<rparr>)"
  "(original name s)\<lparr>close_callback := b\<rparr> = original name (s\<lparr>p_close_callback := b\<rparr>)"
  "(original name s)\<lparr>retrieve_callback := b\<rparr> = original name (s\<lparr>p_recv_callback := b\<rparr>)"
  by (simp_all add: original_def)

lemma original_aio [simp]:
  "initiate x (original name s) = original name (initiate x s)"
  "finish_op x (original name s) = original name (finish_op x s)"
  "post_task k (original name s) = original name (post_task k s)"
  "take_task i (original name s) = original name (take_task i s)"
  "observe y (original name s) = original name (observe y s)"
  by (simp_all add: original_def aio_defs)

lemma original_calls [simp]:
  "startReceive (original name s) = original name (p_startReceive s)"
  "sendMessage data (original name s) = original name (p_sendMessage data s)"
  "forceClose (original name s) = original name (p_forceClose s)"
  "setConnState (of_p_state st) (original name s) = original name (p_setConnState st s)"
  "setConnectionCallback b (original name s) = original name (p_setConnectionCallback b s)"
  "setCloseCallback b (original name s) = original name (p_setCloseCallback b s)"
  "setReceiveCallback b (original name s) = original name (p_setReceiveCallback b s)"
  "run_close_callback (original name s) = original name (p_run_close_callback s)"
  "run_retrieve_callback n (original name s) = original name (p_run_recv_callback n s)"
  "tn_store p data (original name s) = original name (p_store p data s)"
  "wire_bytes late p snapshot (original name s) = p_wire_bytes late p snapshot s"
  by (simp_all add: startReceive_def p_startReceive_def sendMessage_def p_sendMessage_def
      forceClose_def p_forceClose_def setConnState_def p_setConnState_def
      setConnectionCallback_def p_setConnectionCallback_def setCloseCallback_def
      p_setCloseCallback_def setReceiveCallback_def p_setReceiveCallback_def
      run_close_callback_def p_run_close_callback_def run_retrieve_callback_def
      p_run_recv_callback_def tn_store_def p_store_def wire_bytes_def p_wire_bytes_def)

lemma original_results [simp]:
  "cancel_and_close is_open (original name s) = map_sum id (original name) (p_cancel_and_close is_open s)"
  "receiveInService (original name s) = map_sum id (original name) (p_receiveInService s)"
  "start_write (original name s) = map_sum id (original name) (p_start_write s)"
  by (simp_all add: cancel_and_close_def socket_cancel_def p_cancel_and_close_def
      receiveInService_def p_receiveInService_def start_write_def p_start_write_def rbind_def
      split: sum.splits)

lemma original_handlers [simp]:
  "handleReceive ec n is_open k (original name s)
     = map_sum id (original name) (p_handleReceive ec n is_open k s)"
  "handleSend ec n is_open (original name s) = map_sum id (original name) (p_handleSend ec n is_open s)"
  "closeInService is_open (original name s) = map_sum id (original name) (p_closeInService is_open s)"
  by (simp_all add: handleReceive_def p_handleReceive_def handleSend_def p_handleSend_def
      closeInService_def p_closeInService_def rbind_def Let_def split: sum.splits)

lemma original_sendInService [simp]:
  "sendInService moves data (original name s)
     = map_sum id (original name) (p_sendInService moves data s)"
  by (simp add: sendInService_def p_sendInService_def rbind_def Let_def split: sum.splits)

lemma original_run_task [simp]:
  "tn_run_task moves is_open k (original name s)
     = map_sum id (original name) (p_run_task moves is_open k s)"
  by (simp add: tn_run_task_def p_run_task_def split: tn_task.splits)

lemma outcome_of_map [simp]: "outcome_of (map_sum id f r) = map_outcome f (outcome_of r)"
  by (cases r) simp_all

lemma original_step:
  assumes "portable e"
  shows "tn_step e (original name s) = map_outcome (original name) (p_step e s)"
proof (cases e)
  case (TN_call_setState st)
  then obtain st' where "to_p_state st = Some st'" "st = of_p_state st'"
    using assms by (cases st) auto
  then show ?thesis using TN_call_setState by simp
next
  case (TN_write_done p snapshot ec late is_open)
  then show ?thesis by (cases "p_wire_bytes late p snapshot s") simp_all
qed simp_all

interpretation port: step_embedding p_step tn_step portable "original name"
  by unfold_locales (rule original_step)

text \<open>
  C15: the port to the newer asio preserves the behaviour. Whatever sequence of calls, posted
  tasks and completions is run, the connection of asio-1.28 and that of asio-1.10 make the
  same steps, observable actions included, fail in the same way, and end in states that
  agree in every field the two have in common. The one restriction is that the state
  \<open>DISCONNECTING\<close>, which only the original has and which its code never sets, is not set.
\<close>

theorem port_equivalent:
  assumes "list_all portable es"
  shows "run tn_step es (tn_init name) = map_outcome (original name) (run p_step es p_init)"
proof -
  have "tn_init name = original name p_init"
    by (simp add: tn_init_def p_init_def original_def)
  then show ?thesis by (simp add: port.embeds_run [OF assms])
qed

theorem port_equivalent_witness:
  "\<exists>s. run p_step tn_demo_events p_init = Moves s \<and> pending s = [TN_write 0 ''ab'']
    \<and> p_sending s \<and> p_state s = P_CONNECTED"
proof -
  have "list_all portable tn_demo_events" by (simp add: tn_demo_events_def)
  from port_equivalent [OF this, of "''c''"] tn_demo_run(1) [of "''c''"]
  obtain s where s: "run p_step tn_demo_events p_init = Moves s" "original ''c'' s = tn_demo_state ''c''"
    by (cases "run p_step tn_demo_events p_init") auto
  then have "pending s = [TN_write 0 ''ab'']" "p_sending s" "of_p_state (p_state s) = S_CONNECTED"
    by (simp_all add: original_def tn_demo_state_def tn_init_def)
  then show ?thesis using s(1) by (cases "p_state s") auto
qed

end
