(* ===== verification/Net_Close.thy ===== *)
theory Net_Close
  imports Net_Client
begin

text \<open>
  What \<open>closeClient\<close> of the asio-1.10 \<open>TcpClient\<close> does, and what it leaves. It clears \<open>reconnect_\<close>
  and closes \<open>conn_\<close>, but it cancels neither the resolver nor the timer, and no handler looks
  at the flag before it goes on with an attempt.
\<close>

section \<open>No more attempts than were outstanding\<close>

text \<open>The completions still to come: of a wait three, of a resolve two, of a connect one.\<close>

fun op_rank :: "nc_op \<Rightarrow> nat" where
  "op_rank NC_resolve = 2"
| "op_rank (NC_connect endpoints) = 1"

definition attempts_left :: "net_client \<Rightarrow> nat" where
  "attempts_left s = sum_list (map op_rank (pending s)) + 3 * sum_list (map (\<lambda>t. length (pending t)) (nc_timers s))"

fun nc_attempt :: "nc_event \<Rightarrow> net_client \<Rightarrow> nc_event list" where
  "nc_attempt (NC_resolved ec endpoints) s = [NC_resolved ec endpoints]"
| "nc_attempt (NC_connected endpoints ec rest) s = [NC_connected endpoints ec rest]"
| "nc_attempt (NC_timer k ec) s = [NC_timer k ec]"
| "nc_attempt _ s = []"

definition closing :: "nat \<Rightarrow> nc_event list \<Rightarrow> net_client \<Rightarrow> bool" where
  "closing n h s \<longleftrightarrow> nc_single_shot s \<and> \<not> nc_reconnect s \<and> length h + attempts_left s \<le> n"

lemma attempts_left_finish:
  "x \<in> set (pending s) \<Longrightarrow> attempts_left s = attempts_left (finish_op x s) + op_rank x"
  by (simp add: attempts_left_def finish_op_def sum_list_map_remove1)

lemma handleConnect_left:
  assumes "\<not> ec_ok ec \<longrightarrow> rest = []" "\<not> nc_reconnect s"
  shows "attempts_left (handleConnect ec rest s) = attempts_left s \<and> \<not> nc_reconnect (handleConnect ec rest s)"
  using assms by (cases "nc_connection_callback s") (auto simp: attempts_left_def nc_defs)

lemma nc_on_timer_left:
  assumes "nc_on_timer k ec s = Moves t" "k < length (nc_timers s)" "nc_single_shot s" "\<not> nc_reconnect s"
  shows "Suc (attempts_left t) \<le> attempts_left s \<and> \<not> nc_reconnect t"
proof -
  let ?x = "nc_timers s ! k"
  obtain x where x: "at_step (AT_wait_done ec False) ?x = Moves x" "nc_timers t = (nc_timers s)[k := x]"
      "pending t = pending s \<or> pending t = pending s @ [NC_resolve]" "nc_reconnect t = nc_reconnect s"
    using assms(1) by (auto simp: nc_on_timer_def connectInter_def aio_defs Let_def split: outcome.splits if_splits)
  have "\<not> at_cycle ?x"
    using assms(2,3) by (simp add: nc_single_shot_def list_all_length)
  moreover have "Suc (length (remove1 AT_wait xs)) = length xs" if "AT_wait \<in> set xs" for xs
    using that by (induction xs) auto
  ultimately have "Suc (length (pending x)) \<le> length (pending ?x)"
    using x(1) by (auto simp: at_defs split: if_splits)
  then have "Suc (sum_list (map (\<lambda>t. length (pending t)) (nc_timers t)))
      \<le> sum_list (map (\<lambda>t. length (pending t)) (nc_timers s))"
    using assms(2) elem_le_sum_list [of k "map (\<lambda>t. length (pending t)) (nc_timers s)"]
    by (simp add: x(2) map_update sum_list_update)
  then show ?thesis
    using x(3,4) assms(4) by (auto simp: attempts_left_def)
qed

lemma closing_step:
  assumes "closing n h s" "nc_no_connect e" "nc_step e s = Moves t"
  shows "closing n (h @ nc_attempt e s) t"
proof -
  have single: "nc_single_shot t"
    using assms(1,3) nc_single_shot_step by (auto simp: closing_def)
  have s: "nc_single_shot s" "\<not> nc_reconnect s" "length h + attempts_left s \<le> n"
    using assms(1) by (simp_all add: closing_def)
  have "\<not> nc_reconnect t \<and> length (nc_attempt e s) + attempts_left t \<le> attempts_left s"
  proof (cases e)
    case (NC_resolved ec endpoints)
    then show ?thesis
      using assms(3) s(2) attempts_left_finish [of NC_resolve s]
      by (auto simp: handleResolver_def attempts_left_def aio_defs split: if_splits)
  next
    case (NC_connected endpoints ec rest)
    let ?u = "finish_op (NC_connect endpoints) s"
    have c: "NC_connect endpoints \<in> set (pending s)" "\<not> ec_ok ec \<longrightarrow> rest = []" "t = handleConnect ec rest ?u"
      using assms(3) NC_connected by (auto split: if_splits)
    have "\<not> nc_reconnect ?u"
      using s(2) by (simp add: aio_defs)
    from handleConnect_left [OF c(2) this] show ?thesis
      using attempts_left_finish [OF c(1)] c(3) NC_connected by simp
  next
    case (NC_timer k ec)
    then show ?thesis
      using assms(3) nc_on_timer_left [OF _ _ s(1,2), of k ec t] by (auto split: if_splits)
  next
    case (NC_conn i e')
    then show ?thesis
      using assms(3) s(2) by (auto simp: attempts_left_def split: if_splits outcome.splits)
  qed (use assms(2,3) s(2) in \<open>auto simp: attempts_left_def nc_defs split: if_splits nc_task.splits\<close>)
  with single s(3) show ?thesis
    by (simp add: closing_def)
qed

interpretation ncd: obliged_history nc_step "\<lambda>e s. nc_no_connect e" nc_attempt "closing n"
  by unfold_locales (rule closing_step)

text \<open>
  C23: \<open>closeClient\<close> bounds the attempts. After it, and until \<open>connect\<close> is called, the client
  completes at most three operations for each wait that was outstanding (the wait itself, a
  resolve and a connect), two for each resolve and one for each connect, whatever happens: it
  starts no new round. In particular a client that was not trying to connect never tries again.
\<close>

theorem close_bounds_attempts:
  assumes "reachable nc_step (nc_init sequence ip port) s" "\<not> nc_destroyed s"
    and "run nc_step (NC_call_close # es) s = Moves t" "list_all nc_no_connect es"
  shows "length (history nc_step nc_attempt es (closeClient s)) + attempts_left t \<le> attempts_left s"
proof -
  have "nc_single_shot (nc_init sequence ip port)"
    by (simp add: nc_single_shot_def nc_init_def new_connection_def Let_def)
  from nct.kept_reachable [OF this assms(1)] have "closing (attempts_left s) [] (closeClient s)"
    by (simp add: closing_def nc_single_shot_def closeClient_def on_conn_def attempts_left_def)
  moreover have "run nc_step es (closeClient s) = Moves t"
    using assms(2,3) by simp
  ultimately have "closing (attempts_left s) ([] @ history nc_step nc_attempt es (closeClient s)) t"
    by (rule ncd.obliged_run [OF _ _ guarded_events [OF assms(4)]])
  then show ?thesis
    by (simp add: closing_def)
qed

theorem close_bounds_attempts_witness:
  "\<exists>s t. run nc_step nc_demo_events (nc_init 0 ''h'' 777) = Moves s
    \<and> run nc_step [NC_call_close, NC_timer 0 success_code, NC_resolved reset_code []] s = Moves t
    \<and> 2 + attempts_left t \<le> attempts_left s \<and> attempts_left s = 3"
proof -
  let ?es = "[NC_timer 0 success_code, NC_resolved reset_code []]"
  obtain s where s: "run nc_step nc_demo_events (nc_init 0 ''h'' 777) = Moves s" "pending s = []"
      "\<not> nc_destroyed s" "nc_timers s = [startTimer False (at_init_task 1000 True)]"
    by (rule nc_demo_run)
  obtain t where t: "run nc_step (NC_call_close # ?es) s = Moves t"
      "length (history nc_step nc_attempt ?es (closeClient s)) = 2"
    using s(2-4) by (simp add: nc_on_timer_def nc_defs at_defs at_init_task_def)
  have "attempts_left s = 3"
    by (simp add: attempts_left_def s startTimer_def at_init_task_def aio_defs)
  moreover have "reachable nc_step (nc_init 0 ''h'' 777) s"
    using s(1) unfolding reachable_iff_run by blast
  ultimately show ?thesis
    using close_bounds_attempts [OF _ s(3) t(1)] s(1) t by auto
qed

section \<open>But those that were\<close>

text \<open>
  A closed client still connects. When \<open>closeClient\<close> is called while the reconnect timer waits,
  the timer runs \<open>connectInter\<close> when it elapses, and when the server answers by then the client
  is connected and receives, although it was closed and \<open>reconnect_\<close> is false.
\<close>

theorem close_while_waiting_connects:
  assumes "k < length (nc_timers s)" "AT_wait \<in> set (pending (nc_timers s ! k))"
    and "at_task (nc_timers s ! k)" "\<not> nc_destroyed s" "\<not> receiving (last (conns s))"
  shows "\<exists>t. run nc_step [NC_call_close, NC_timer k success_code, NC_resolved success_code [ep],
        NC_connected [ep] success_code [ep]] s = Moves t
    \<and> connected (last (conns t)) \<and> TN_receive_task \<in> set (posted (last (conns t))) \<and> \<not> nc_reconnect t"
  using assms
  by (cases "nc_connection_callback s") (auto simp: nc_on_timer_def nc_defs at_defs tn_defs connected_def)

theorem close_while_waiting_connects_witness:
  "\<exists>s t. run nc_step nc_demo_events (nc_init 0 ''h'' 777) = Moves s
    \<and> run nc_step [NC_call_close, NC_timer 0 success_code, NC_resolved success_code [''ep''],
        NC_connected [''ep''] success_code [''ep'']] s = Moves t
    \<and> connected (last (conns t))"
proof -
  obtain s where s: "run nc_step nc_demo_events (nc_init 0 ''h'' 777) = Moves s" "\<not> nc_destroyed s"
      "nc_timers s = [startTimer False (at_init_task 1000 True)]" "\<not> receiving (last (conns s))"
    by (simp add: nc_demo_events_def nc_init_def nc_defs kMinInterval_def kMaxInterval_def tn_init_def)
  have "AT_wait \<in> set (pending (nc_timers s ! 0))" "at_task (nc_timers s ! 0)" "0 < length (nc_timers s)"
    by (simp_all add: s startTimer_def at_init_task_def aio_defs)
  from close_while_waiting_connects [OF this(3,1,2) s(2,4)] s(1) show ?thesis by blast
qed

end
