(* ===== verification/Multi_Server.thy ===== *)
theory Multi_Server
  imports Multi_Session
begin

text \<open>
  \<open>SessionIdGenerator\<close>, \<open>IOContextPool\<close> and \<open>Server\<close> of
  \<^verbatim>\<open>asio-1.28_server_multi/src/test.cpp\<close>. The acceptor lives in the main context, and the
  sockets it accepts live there as well (asio gives an accepted socket the acceptor's
  executor): the completions of reads and writes run in the thread of \<open>Server::run\<close>. The
  pool's contexts run what the sessions post to them. A session's index says which of the
  pool's contexts it posts to.
\<close>

section \<open>State\<close>

datatype context_state = X_new | X_running | X_ended

record multi_server =
  mv_open :: bool
  mv_accepting :: bool
  mv_main :: context_state
  mv_handler :: multi_handler
  mv_guards :: "bool list"
  mv_threads :: "context_state list"
  mv_next :: u64
  mv_counter :: u64
  mv_sessions :: "(nat \<times> multi_session) list"
  mv_joining :: bool

definition multi_generate :: "string \<Rightarrow> u64 \<Rightarrow> string \<times> u64" where
  "multi_generate now counter =
     (''SESS-'' @ to_string (unat counter) @ ''-'' @ now, counter + 1)"

definition mv_do_accept :: "multi_server \<Rightarrow> multi_server" where
  "mv_do_accept s = s\<lparr>mv_accepting := True\<rparr>"

text \<open>The pool: its constructor, and the next context in turn.\<close>

definition pool_init :: "nat \<Rightarrow> bool list" where
  "pool_init pool_size = replicate pool_size True"

definition pool_size_of :: "nat \<Rightarrow> nat \<Rightarrow> nat" where
  "pool_size_of thread_pool_size hardware_concurrency =
     (if thread_pool_size > 0 then thread_pool_size else max 1 hardware_concurrency)"

definition get_next_io_context :: "multi_server \<Rightarrow> (nat \<times> multi_server) result" where
  "get_next_io_context s =
     (if unat (mv_next s) < length (mv_guards s)
      then Inr (unat (mv_next s), s\<lparr>mv_next := (mv_next s + 1) mod of_nat (length (mv_guards s))\<rparr>)
      else Inl (Undefined Out_of_bounds))"

definition mv_init :: "multi_handler \<Rightarrow> nat \<Rightarrow> nat \<Rightarrow> multi_server" where
  "mv_init h thread_pool_size hardware_concurrency =
     mv_do_accept \<lparr>mv_open = True, mv_accepting = False, mv_main = X_new, mv_handler = h,
       mv_guards = pool_init (pool_size_of thread_pool_size hardware_concurrency),
       mv_threads = [], mv_next = 0, mv_counter = 0, mv_sessions = [], mv_joining = False\<rparr>"

definition pool_run :: "multi_server \<Rightarrow> multi_server" where
  "pool_run s = s\<lparr>mv_threads := mv_threads s @ replicate (length (mv_guards s)) X_running\<rparr>"

definition mv_run :: "multi_server \<Rightarrow> multi_server" where
  "mv_run s = (pool_run s)\<lparr>mv_main := X_running\<rparr>"

text \<open>\<open>IOContextPool::stop\<close> resets the guards, then joins the threads one by one.\<close>

definition pool_stop :: "multi_server \<Rightarrow> multi_server" where
  "pool_stop s = s\<lparr>mv_guards := map (\<lambda>g. False) (mv_guards s), mv_joining := True\<rparr>"

definition mv_stop :: "multi_server \<Rightarrow> multi_server" where
  "mv_stop s = pool_stop (s\<lparr>mv_open := False, mv_main := X_ended\<rparr>)"

definition mv_on_accept :: "string \<Rightarrow> string option \<Rightarrow> error_code \<Rightarrow> multi_server \<Rightarrow> multi_server result" where
  "mv_on_accept now peer ec s =
     rbind (if ec_ok ec then
              let (sid, counter) = multi_generate now (mv_counter s);
                  s = s\<lparr>mv_counter := counter\<rparr>
              in rbind (get_next_io_context s) (\<lambda>(ctx, s).
                 rbind (ms_start peer (mv_handler s, ms_init sid)) (\<lambda>(h, x).
                 Inr (s\<lparr>mv_handler := h, mv_sessions := mv_sessions s @ [(ctx, x)]\<rparr>)))
            else Inr s)
       (\<lambda>s. Inr (if mv_open s then mv_do_accept s else s))"

section \<open>Steps\<close>

text \<open>A step of session \<open>i\<close>, on the shared handler.\<close>

definition mv_session :: "('d, 'z) float_ops_scheme \<Rightarrow> nat \<Rightarrow> ms_event \<Rightarrow> multi_server \<Rightarrow> multi_server outcome" where
  "mv_session fl i e s =
     (case ms_step fl e (mv_handler s, snd (mv_sessions s ! i)) of
        Moves (h, x) \<Rightarrow> Moves (s\<lparr>mv_handler := h,
          mv_sessions := (mv_sessions s)[i := (fst (mv_sessions s ! i), x)]\<rparr>)
      | Fails f \<Rightarrow> Fails f | Disabled \<Rightarrow> Disabled)"

definition pool_work :: "nat \<Rightarrow> multi_server \<Rightarrow> bool" where
  "pool_work c s \<longleftrightarrow> list_ex (\<lambda>(ctx, x). ctx = c \<and> posted x \<noteq> []) (mv_sessions s)"

datatype mv_event =
    MV_run
  | MV_accepted string "string option" error_code
  | MV_completed nat ms_event
  | MV_posted nat nat
  | MV_exit nat
  | MV_stop

fun is_completion :: "ms_event \<Rightarrow> bool" where
  "is_completion (MS_run_task k) = False"
| "is_completion _ = True"

text \<open>
  A thread of the pool ends when its context has neither a guard nor work. \<open>run\<close> and \<open>stop\<close> are
  one action each, up to the joins of \<open>stop\<close>. The server thread enters \<open>run\<close> before a command
  stops the server: the other order, in which the pool's threads are started after the joins
  and nobody joins them, is left out.
\<close>

fun mv_step :: "('d, 'z) float_ops_scheme \<Rightarrow> mv_event \<Rightarrow> multi_server \<Rightarrow> multi_server outcome" where
  "mv_step fl MV_run s =
     (if mv_main s = X_new \<and> \<not> mv_joining s then Moves (mv_run s) else Disabled)"
| "mv_step fl (MV_accepted now peer ec) s =
     (if mv_main s = X_running \<and> mv_accepting s
      then outcome_of (mv_on_accept now peer ec (s\<lparr>mv_accepting := False\<rparr>)) else Disabled)"
| "mv_step fl (MV_completed i e) s =
     (if mv_main s = X_running \<and> i < length (mv_sessions s) \<and> is_completion e
      then mv_session fl i e s else Disabled)"
| "mv_step fl (MV_posted i k) s =
     (if i < length (mv_sessions s) \<and> fst (mv_sessions s ! i) < length (mv_threads s)
         \<and> mv_threads s ! fst (mv_sessions s ! i) = X_running
      then mv_session fl i (MS_run_task k) s else Disabled)"
| "mv_step fl (MV_exit c) s =
     (if c < length (mv_threads s) \<and> mv_threads s ! c = X_running
         \<and> \<not> mv_guards s ! c \<and> \<not> pool_work c s
      then Moves (s\<lparr>mv_threads := (mv_threads s)[c := X_ended]\<rparr>) else Disabled)"
| "mv_step fl MV_stop s = (if mv_joining s then Disabled else Moves (mv_stop s))"

named_theorems mv_defs

lemmas [mv_defs] = multi_generate_def mv_do_accept_def pool_init_def get_next_io_context_def
  mv_init_def pool_run_def mv_run_def pool_stop_def mv_stop_def mv_session_def

section \<open>Stopping\<close>

definition mv_ok :: "multi_server \<Rightarrow> bool" where
  "mv_ok s \<longleftrightarrow> (mv_main s = X_new \<longrightarrow> mv_threads s = [])
     \<and> (mv_threads s = [] \<or> length (mv_threads s) = length (mv_guards s))
     \<and> (mv_joining s \<longrightarrow> mv_main s = X_ended \<and> list_all Not (mv_guards s))"

lemma mv_on_accept_cases:
  assumes "mv_on_accept now peer ec s = Inr t"
  shows "mv_main t = mv_main s \<and> mv_threads t = mv_threads s \<and> mv_guards t = mv_guards s
    \<and> mv_joining t = mv_joining s"
  using assms
  by (auto simp: mv_on_accept_def mv_defs rbind_Inr_iff Let_def split: if_splits prod.splits)

lemma mv_session_cases:
  assumes "mv_session fl i e s = Moves t"
  shows "\<exists>h x. ms_step fl e (mv_handler s, snd (mv_sessions s ! i)) = Moves (h, x)
    \<and> t = s\<lparr>mv_handler := h, mv_sessions := (mv_sessions s)[i := (fst (mv_sessions s ! i), x)]\<rparr>"
  using assms by (auto simp: mv_session_def split: outcome.splits)

lemma mv_ok_step:
  assumes "mv_ok s" "mv_step fl e s = Moves t"
  shows "mv_ok t"
proof (cases e)
  case (MV_accepted now peer ec)
  then show ?thesis
    using assms mv_on_accept_cases [of now peer ec "s\<lparr>mv_accepting := False\<rparr>" t]
    by (auto simp: mv_ok_def split: if_splits)
next
  case (MV_completed i e')
  then show ?thesis
    using assms mv_session_cases [of fl i e' s t] by (auto simp: mv_ok_def split: if_splits)
next
  case (MV_posted i k)
  then show ?thesis
    using assms mv_session_cases [of fl i "MS_run_task k" s t] by (auto simp: mv_ok_def split: if_splits)
qed (use assms in \<open>auto simp: mv_ok_def mv_run_def pool_run_def mv_stop_def pool_stop_def list_all_iff
    split: if_splits\<close>)

interpretation mvo: step_invariant "mv_step fl" mv_ok
  by unfold_locales (rule mv_ok_step)

lemma mv_ok_init: "mv_ok (mv_init h pool hw)"
  by (simp add: mv_ok_def mv_init_def mv_do_accept_def)

text \<open>What is left to do when nothing new comes in: the posted tasks and the running threads.\<close>

definition pool_left :: "multi_server \<Rightarrow> nat" where
  "pool_left s = (\<Sum>x \<leftarrow> mv_sessions s. length (posted (snd x)))
     + length (filter (\<lambda>w. w = X_running) (mv_threads s))"

lemma sum_list_decrease:
  assumes "i < length xs" "f y + 1 = (f (xs ! i) :: nat)"
  shows "sum_list (map f (xs[i := y])) + 1 = sum_list (map f xs)"
proof -
  have "xs = take i xs @ xs ! i # drop (Suc i) xs"
    using assms(1) by (rule id_take_nth_drop)
  then have "sum_list (map f xs) = sum_list (map f (take i xs)) + f (xs ! i) + sum_list (map f (drop (Suc i) xs))"
    by (metis (no_types, lifting) add.assoc list.simps(9) map_append sum_list.Cons sum_list_append)
  then show ?thesis
    using assms by (simp add: upd_conv_take_nth_drop)
qed

lemma ended_decreases:
  assumes "c < length ws" "ws ! c = X_running"
  shows "length (filter (\<lambda>w. w = X_running) (ws[c := X_ended])) + 1
    = length (filter (\<lambda>w. w = X_running) ws)"
proof -
  have "ws = take c ws @ ws ! c # drop (Suc c) ws"
    using assms(1) by (rule id_take_nth_drop)
  then have "length (filter (\<lambda>w. w = X_running) ws)
      = length (filter (\<lambda>w. w = X_running) (take c ws @ X_running # drop (Suc c) ws))"
    using assms(2) by simp
  then show ?thesis
    using assms by (simp add: upd_conv_take_nth_drop)
qed

text \<open>A posted task always runs, and posts nothing.\<close>

lemma ms_run_task_posted:
  assumes "ms_step fl (MS_run_task k) (h, x) = Moves (h', y)"
  shows "length (posted y) + 1 = length (posted x)"
  using assms by (auto simp: ms_defs rbind_def split: ms_splits)

lemma ms_run_task_moves:
  assumes "posted x \<noteq> []"
  shows "\<exists>y. ms_step fl (MS_run_task 0) (h, x) = Moves (h, y)"
  using assms by (auto simp: ms_defs split: ms_task.split list.split)

definition mv_stopping :: "multi_server \<Rightarrow> bool" where
  "mv_stopping s \<longleftrightarrow> mv_ok s \<and> mv_joining s"

lemma mv_stopping_step:
  assumes "mv_stopping s" "mv_step fl e s = Moves t"
  shows "mv_stopping t \<and> pool_left t + 1 = pool_left s"
proof -
  have s: "mv_main s = X_ended" "mv_joining s"
    using assms(1) by (auto simp: mv_stopping_def mv_ok_def)
  have "mv_joining t \<and> pool_left t + 1 = pool_left s"
  proof (cases e)
    case (MV_posted i k)
    then obtain h x where x: "ms_step fl (MS_run_task k) (mv_handler s, snd (mv_sessions s ! i)) = Moves (h, x)"
      and i: "i < length (mv_sessions s)"
      and t: "t = s\<lparr>mv_handler := h, mv_sessions := (mv_sessions s)[i := (fst (mv_sessions s ! i), x)]\<rparr>"
      using assms(2) mv_session_cases [of fl i "MS_run_task k" s t] by (auto split: if_splits)
    from sum_list_decrease [OF i, of "\<lambda>x. length (posted (snd x))" "(fst (mv_sessions s ! i), x)"]
      ms_run_task_posted [OF x] show ?thesis
      using s t by (simp add: pool_left_def)
  next
    case (MV_exit c)
    then show ?thesis
      using assms(2) s ended_decreases [of c "mv_threads s"] by (auto simp: pool_left_def split: if_splits)
  qed (use assms(2) s in \<open>auto split: if_splits\<close>)
  with mv_ok_step [OF _ assms(2)] assms(1) show ?thesis by (simp add: mv_stopping_def)
qed

interpretation mvr: ranked_invariant "mv_step fl" "\<lambda>_. True" mv_stopping pool_left
  by unfold_locales (auto dest: mv_stopping_step)

lemma mv_stopping_progress:
  assumes "mv_stopping s" "c < length (mv_threads s)" "mv_threads s ! c = X_running"
  shows "\<exists>e t. mv_step fl e s = Moves t"
proof (cases "pool_work c s")
  case True
  then obtain i where i: "i < length (mv_sessions s)" "fst (mv_sessions s ! i) = c"
      "posted (snd (mv_sessions s ! i)) \<noteq> []"
    by (auto simp: pool_work_def list_ex_iff in_set_conv_nth)
  from ms_run_task_moves [OF i(3)] obtain y
    where "ms_step fl (MS_run_task 0) (mv_handler s, snd (mv_sessions s ! i)) = Moves (mv_handler s, y)"
    by blast
  then have "\<exists>t. mv_step fl (MV_posted i 0) s = Moves t"
    using i(1,2) assms(2,3) by (simp add: mv_session_def del: ms_step.simps)
  then show ?thesis by blast
next
  case False
  have "\<not> mv_guards s ! c"
    using assms by (auto simp: mv_stopping_def mv_ok_def list_all_length)
  then have "\<exists>t. mv_step fl (MV_exit c) s = Moves t"
    using False assms(2,3) by simp
  then show ?thesis by blast
qed

text \<open>
  C29: \<open>Server::stop\<close> returns. From the moment it waits for the pool's threads, whatever the
  clients do, the server makes at most as many steps as there are posted tasks and
  running threads, and as long as a thread is running some step is possible: so after
  finitely many steps all threads have ended and every join returns.
\<close>

theorem multi_stop_returns:
  assumes "reachable (mv_step fl) (mv_init h pool hw) s" "mv_joining s"
    and "run (mv_step fl) es s = Moves t"
  shows "length es \<le> pool_left s
    \<and> (X_running \<in> set (mv_threads t) \<longrightarrow> (\<exists>e u. mv_step fl e t = Moves u))"
proof -
  have "mv_stopping s"
    using mvo.kept_reachable [OF mv_ok_init assms(1)] assms(2) by (simp add: mv_stopping_def)
  note t = mvr.ranked_run [OF this _ assms(3), simplified list_all_def, simplified]
  have "\<exists>e u. mv_step fl e t = Moves u" if running: "X_running \<in> set (mv_threads t)"
  proof -
    from running obtain c where "c < length (mv_threads t)" "mv_threads t ! c = X_running"
      by (auto simp: in_set_conv_nth)
    with mv_stopping_progress [of t c fl] t show ?thesis by simp
  qed
  with t show ?thesis by auto
qed

section \<open>Sessions are spread evenly\<close>

lemma next_index:
  assumes "k < n" "n < 2 ^ 64"
  shows "(of_nat k + 1) mod of_nat n = (of_nat (Suc k mod n) :: u64)"
proof (rule word_unat_eq_iff [THEN iffD2])
  have n: "unat (of_nat n :: u64) = n" using assms(2) by (simp add: unat_simps)
  have "unat (of_nat k + 1 :: u64) = Suc k"
    using assms by (simp add: unat_simps)
  moreover have "Suc k mod n < 2 ^ 64"
    using assms less_trans [OF mod_less_divisor [of n "Suc k"]] by simp
  ultimately show "unat ((of_nat k + 1) mod of_nat n :: u64) = unat (of_nat (Suc k mod n) :: u64)"
    using n by (simp only: unat_mod unat_of_nat_u64)
qed

definition mv_balanced :: "nat \<Rightarrow> multi_server \<Rightarrow> bool" where
  "mv_balanced n s \<longleftrightarrow> length (mv_guards s) = n \<and> 0 < n \<and> n < 2 ^ 64
     \<and> mv_next s = of_nat (length (mv_sessions s) mod n)
     \<and> map fst (mv_sessions s) = map (\<lambda>k. k mod n) [0 ..< length (mv_sessions s)]"

lemma mv_balanced_accept:
  assumes "mv_balanced n s" "mv_on_accept now peer ec s = Inr t"
  shows "mv_balanced n t"
proof (cases "ec_ok ec")
  case True
  let ?k = "length (mv_sessions s) mod n"
  have k: "?k < n" "n < 2 ^ 64" using assms(1) by (simp_all add: mv_balanced_def)
  have "unat (mv_next s) = ?k"
    using assms(1) k by (simp add: mv_balanced_def unat_of_nat_u64)
  moreover have "(mv_next s + 1) mod of_nat n = (of_nat (Suc (length (mv_sessions s)) mod n) :: u64)"
    using next_index [OF k] assms(1) by (simp add: mv_balanced_def mod_Suc_eq)
  ultimately show ?thesis
    using assms True
    by (auto simp: mv_balanced_def mv_on_accept_def mv_defs rbind_Inr_iff Let_def
        split: if_splits prod.splits)
next
  case False
  then show ?thesis
    using assms by (auto simp: mv_balanced_def mv_on_accept_def mv_defs split: if_splits)
qed

lemma map_fst_update [simp]: "map fst (xs[i := (fst (xs ! i), y)]) = map fst xs"
  by (cases "i < length xs") (simp_all add: map_update list_update_same_conv list_update_beyond)

lemma mv_balanced_session:
  assumes "mv_balanced n s" "i < length (mv_sessions s)" "mv_session fl i e s = Moves t"
  shows "mv_balanced n t"
  using mv_session_cases [OF assms(3)] assms(1,2) by (auto simp: mv_balanced_def)

lemma mv_balanced_step:
  assumes "mv_balanced n s" "mv_step fl e s = Moves t"
  shows "mv_balanced n t"
proof (cases e)
  case (MV_accepted now peer ec)
  have "mv_balanced n (s\<lparr>mv_accepting := False\<rparr>)" using assms(1) by (simp add: mv_balanced_def)
  from mv_balanced_accept [OF this] assms(2) MV_accepted show ?thesis by (auto split: if_splits)
next
  case (MV_completed i e')
  then show ?thesis using assms mv_balanced_session by (auto split: if_splits)
next
  case (MV_posted i k)
  then show ?thesis using assms mv_balanced_session by (auto split: if_splits)
qed (use assms in \<open>auto simp: mv_balanced_def mv_run_def pool_run_def mv_stop_def pool_stop_def
    split: if_splits\<close>)

interpretation mvb: step_invariant "mv_step fl" "mv_balanced n"
  by unfold_locales (rule mv_balanced_step)

text \<open>
  C36: the pool is used in turn. The \<open>k\<close>-th accepted session posts to context \<open>k mod n\<close> of the
  \<open>n\<close> contexts, through failed accepts and for any number of sessions; \<open>next_index_\<close> is always
  the index of an existing context.
\<close>

theorem pool_round_robin:
  assumes "reachable (mv_step fl) (mv_init h pool hw) s" "pool_size_of pool hw < 2 ^ 64"
  shows "map fst (mv_sessions s)
      = map (\<lambda>k. k mod pool_size_of pool hw) [0 ..< length (mv_sessions s)]
    \<and> unat (mv_next s) < length (mv_guards s)"
proof -
  have "mv_balanced (pool_size_of pool hw) (mv_init h pool hw)"
    using assms(2) by (auto simp: mv_balanced_def mv_init_def mv_do_accept_def pool_init_def
        pool_size_of_def max_def)
  then have b: "mv_balanced (pool_size_of pool hw) s"
    using mvb.kept_reachable assms(1) by blast
  then have "length (mv_sessions s) mod pool_size_of pool hw < pool_size_of pool hw"
    by (simp add: mv_balanced_def)
  then have "unat (mv_next s) < pool_size_of pool hw"
    using b less_trans assms(2) by (simp add: mv_balanced_def unat_of_nat_u64)
  then show ?thesis
    using b by (simp add: mv_balanced_def)
qed

definition mv_demo_events :: "mv_event list" where
  "mv_demo_events = [MV_run, MV_accepted ''1700000000'' (Some ''10.0.0.1'') success_code, MV_posted 0 0,
     MV_accepted ''1700000001'' None reset_code,
     MV_accepted ''1700000002'' (Some ''10.0.0.2'') success_code,
     MV_completed 0 (MS_read_done success_code ''hello'')]"

lemma mv_demo_run:
  "\<exists>s. run (mv_step int_ops) mv_demo_events (mv_init Echo_handler 2 8) = Moves s
    \<and> length (mv_sessions s) = 2 \<and> mv_threads s = [X_running, X_running] \<and> \<not> mv_joining s
    \<and> posted (snd (mv_sessions s ! 0)) = [MS_write_task ''Echo: hello'']
    \<and> posted (snd (mv_sessions s ! 1)) = [MS_read_task]"
  by (simp add: mv_demo_events_def mv_defs pool_size_of_def mv_on_accept_def ms_defs ms_init_def
      mh_created_def mh_process_def numeral_2_eq_2)

theorem pool_round_robin_witness:
  "\<exists>s. run (mv_step int_ops) mv_demo_events (mv_init Echo_handler 2 8) = Moves s
    \<and> map fst (mv_sessions s) = [0, 1]"
proof -
  obtain s where s: "run (mv_step int_ops) mv_demo_events (mv_init Echo_handler 2 8) = Moves s"
      "length (mv_sessions s) = 2"
    using mv_demo_run by blast
  then have "reachable (mv_step int_ops) (mv_init Echo_handler 2 8) s"
    by (auto simp: reachable_iff_run)
  from pool_round_robin [OF this] s show ?thesis by (simp add: pool_size_of_def upt_rec)
qed

theorem multi_stop_returns_witness:
  "\<exists>s. run (mv_step int_ops) (mv_demo_events @ [MV_stop]) (mv_init Echo_handler 2 8) = Moves s
    \<and> mv_joining s \<and> (\<exists>e u. mv_step int_ops e s = Moves u)"
proof -
  obtain s where s: "run (mv_step int_ops) mv_demo_events (mv_init Echo_handler 2 8) = Moves s"
      "mv_threads s = [X_running, X_running]" "\<not> mv_joining s"
    using mv_demo_run by blast
  then have r: "run (mv_step int_ops) (mv_demo_events @ [MV_stop]) (mv_init Echo_handler 2 8) = Moves (mv_stop s)"
    by (simp add: run_append)
  then have "reachable (mv_step int_ops) (mv_init Echo_handler 2 8) (mv_stop s)"
    by (auto simp: reachable_iff_run)
  from multi_stop_returns [OF this, of "[]" "mv_stop s"] r s(2) show ?thesis
    by (simp add: mv_stop_def pool_stop_def)
qed

section \<open>The statistics\<close>

text \<open>The messages the sessions receive.\<close>

fun mv_message :: "mv_event \<Rightarrow> multi_server \<Rightarrow> bytes list" where
  "mv_message (MV_completed i (MS_read_done ec data)) s = (if ec_ok ec then [data] else [])"
| "mv_message _ s = []"

fun ms_closed_of :: "ms_obs \<Rightarrow> string option" where
  "ms_closed_of (MS_closed r) = Some r"
| "ms_closed_of _ = None"

text \<open>How often a session has called \<open>on_session_closed\<close>.\<close>

definition closes :: "multi_session \<Rightarrow> nat" where
  "closes x = length (picks ms_closed_of (trace x))"

definition mv_counts :: "bytes list \<Rightarrow> multi_server \<Rightarrow> bool" where
  "mv_counts h s \<longleftrightarrow> (\<exists>st. mv_handler s = Statistics_handler st
     \<and> total_chars st = of_nat (sum_list (map length h)) \<and> message_count st = of_nat (length h)
     \<and> active_sessions st + of_nat (\<Sum>x \<leftarrow> mv_sessions s. closes (snd x))
         = of_nat (length (mv_sessions s)))"

fun ms_message :: "ms_event \<Rightarrow> bytes list" where
  "ms_message (MS_read_done ec data) = (if ec_ok ec then [data] else [])"
| "ms_message _ = []"

lemma stats_session:
  assumes "ms_step fl e (Statistics_handler st, x) = Moves (h, y)"
  shows "\<exists>st'. h = Statistics_handler st'
    \<and> total_chars st' = total_chars st + of_nat (sum_list (map length (ms_message e)))
    \<and> message_count st' = message_count st + of_nat (length (ms_message e))
    \<and> active_sessions st' + of_nat (closes y) = active_sessions st + of_nat (closes x)"
  using assms
  by (cases e) (auto simp: ms_defs mh_process_def mh_closed_def stats_process_def stats_closed_def
      closes_def rbind_def split: ms_splits)

lemma sum_list_update_nat:
  assumes "i < length xs"
  shows "sum_list (map f (xs[i := y])) + f (xs ! i) = sum_list (map f xs) + (f y :: nat)"
proof -
  have "sum_list (map f xs) = sum_list (map f (take i xs @ xs ! i # drop (Suc i) xs))"
    using id_take_nth_drop [OF assms] by simp
  then show ?thesis
    using assms by (simp add: upd_conv_take_nth_drop)
qed

lemma balance_kept:
  fixes a a' b b' x y n :: u64
  assumes "a' + x = a + y" "b' + y = b + x" "a + b = n"
  shows "a' + b' = n"
proof -
  have "a' = a + y - x" "b' = b + x - y"
    using assms(1,2) by (simp_all add: eq_diff_eq)
  then show ?thesis using assms(3) by simp
qed

lemma mv_counts_session:
  assumes "mv_counts h s" "i < length (mv_sessions s)" "mv_session fl i e s = Moves t"
  shows "mv_counts (h @ ms_message e) t"
proof -
  obtain st where st: "mv_handler s = Statistics_handler st"
    "total_chars st = of_nat (sum_list (map length h))" "message_count st = of_nat (length h)"
    "active_sessions st + of_nat (\<Sum>x \<leftarrow> mv_sessions s. closes (snd x)) = of_nat (length (mv_sessions s))"
    using assms(1) by (auto simp: mv_counts_def)
  obtain g x where x: "ms_step fl e (Statistics_handler st, snd (mv_sessions s ! i)) = Moves (g, x)"
    and t: "t = s\<lparr>mv_handler := g, mv_sessions := (mv_sessions s)[i := (fst (mv_sessions s ! i), x)]\<rparr>"
    using mv_session_cases [OF assms(3)] st(1) by auto
  obtain st' where st': "g = Statistics_handler st'"
    "total_chars st' = total_chars st + of_nat (sum_list (map length (ms_message e)))"
    "message_count st' = message_count st + of_nat (length (ms_message e))"
    "active_sessions st' + of_nat (closes x) = active_sessions st + of_nat (closes (snd (mv_sessions s ! i)))"
    using stats_session [OF x] by blast
  let ?sum = "\<lambda>xs :: (nat \<times> multi_session) list. \<Sum>x \<leftarrow> xs. closes (snd x)"
  have "?sum (mv_sessions t) + closes (snd (mv_sessions s ! i)) = ?sum (mv_sessions s) + closes x"
    using sum_list_update_nat [OF assms(2), of "\<lambda>x. closes (snd x)" "(fst (mv_sessions s ! i), x)"] t
    by simp
  then have "(of_nat (?sum (mv_sessions t) + closes (snd (mv_sessions s ! i))) :: u64)
      = of_nat (?sum (mv_sessions s) + closes x)"
    by (rule arg_cong)
  then have "active_sessions st' + of_nat (?sum (mv_sessions t)) = of_nat (length (mv_sessions s))"
    by (intro balance_kept [OF st'(4) _ st(4)]) (simp only: of_nat_add)
  then show ?thesis
    using st st' t by (simp add: mv_counts_def)
qed

lemma mv_counts_accept:
  assumes "mv_counts h s" "mv_on_accept now peer ec s = Inr t"
  shows "mv_counts h t"
  using assms
  by (auto simp: mv_counts_def mv_on_accept_def mv_defs rbind_Inr_iff Let_def ms_start_def
      ms_init_def mh_created_def stats_created_def closes_def aio_defs
      split: if_splits prod.splits option.splits)

lemma mv_counts_step:
  assumes "mv_counts h s" "mv_step fl e s = Moves t"
  shows "mv_counts (h @ mv_message e s) t"
proof (cases e)
  case (MV_accepted now peer ec)
  have "mv_counts h (s\<lparr>mv_accepting := False\<rparr>)" using assms(1) by (simp add: mv_counts_def)
  from mv_counts_accept [OF this] assms(2) MV_accepted show ?thesis by (auto split: if_splits)
next
  case (MV_completed i e')
  then have "mv_counts (h @ ms_message e') t"
    using assms mv_counts_session by (auto split: if_splits)
  then show ?thesis using MV_completed by (cases e') simp_all
next
  case (MV_posted i k)
  then have "mv_counts (h @ ms_message (MS_run_task k)) t"
    using assms by (intro mv_counts_session) (auto split: if_splits)
  then show ?thesis using MV_posted by simp
qed (use assms in \<open>auto simp: mv_counts_def mv_run_def pool_run_def mv_stop_def pool_stop_def
    split: if_splits\<close>)

interpretation mvc: history_invariant "mv_step fl" mv_message mv_counts
  by unfold_locales (rule mv_counts_step)

text \<open>
  C28: the statistics are exact modulo \<open>2 ^ 64\<close>. After any run of a server with the statistics
  handler, the totals are the number of bytes and of messages that all sessions have
  received, and the active sessions are the sessions accepted less the calls of
  \<open>on_session_closed\<close>, of which a session may make several.
\<close>

theorem statistics_exact:
  assumes "run (mv_step fl) es (mv_init (Statistics_handler statistics_init) pool hw) = Moves s"
    and "messages = history (mv_step fl) mv_message es (mv_init (Statistics_handler statistics_init) pool hw)"
  shows "\<exists>st. mv_handler s = Statistics_handler st
    \<and> total_chars st = of_nat (length (concat messages)) \<and> message_count st = of_nat (length messages)
    \<and> active_sessions st = of_nat (length (mv_sessions s))
        - of_nat (\<Sum>x \<leftarrow> mv_sessions s. closes (snd x))"
proof -
  have "mv_counts [] (mv_init (Statistics_handler statistics_init) pool hw)"
    by (simp add: mv_counts_def mv_init_def mv_do_accept_def statistics_init_def)
  from mvc.history_run [OF this assms(1)] assms(2) show ?thesis
    by (auto simp: mv_counts_def length_concat eq_diff_eq)
qed

text \<open>
  Of a client that connects, sends a message and breaks off while the reply is written, both
  the write and the read report the end of the session.
\<close>

definition mv_stats_events :: "mv_event list" where
  "mv_stats_events = [MV_run, MV_accepted ''1700000000'' (Some ''10.0.0.1'') success_code, MV_posted 0 0,
     MV_completed 0 (MS_read_done success_code ''hello''), MV_posted 0 0]"

definition mv_broken_events :: "bytes \<Rightarrow> mv_event list" where
  "mv_broken_events reply =
     [MV_completed 0 (MS_write_done reply reset_code), MV_completed 0 (MS_read_done reset_code [])]"

definition mv_demo_reply :: bytes where
  "mv_demo_reply = fst (stats_process (fst (multi_generate ''1700000000'' 0)) ''hello''
     (stats_created (fst (multi_generate ''1700000000'' 0)) statistics_init))"

theorem statistics_exact_witness:
  "\<exists>s st. run (mv_step int_ops) mv_stats_events (mv_init (Statistics_handler statistics_init) 1 8) = Moves s
    \<and> mv_handler s = Statistics_handler st \<and> total_chars st = 5 \<and> message_count st = 1"
proof -
  obtain s where s: "run (mv_step int_ops) mv_stats_events (mv_init (Statistics_handler statistics_init) 1 8) = Moves s"
    and h: "history (mv_step int_ops) mv_message mv_stats_events
      (mv_init (Statistics_handler statistics_init) 1 8) = [''hello'']"
    by (simp add: mv_stats_events_def mv_defs pool_size_of_def mv_on_accept_def ms_defs ms_init_def
        mh_created_def mh_process_def stats_process_def)
  from statistics_exact [OF s refl] h s show ?thesis by auto
qed

text \<open>The number of active sessions underflows: one session, counted off twice.\<close>

theorem active_sessions_underflow:
  "\<exists>es s st. run (mv_step int_ops) es (mv_init (Statistics_handler statistics_init) 1 8) = Moves s
    \<and> mv_handler s = Statistics_handler st \<and> active_sessions st = - 1"
proof -
  have "\<exists>s st. run (mv_step int_ops) (mv_stats_events @ mv_broken_events mv_demo_reply)
      (mv_init (Statistics_handler statistics_init) 1 8) = Moves s
    \<and> mv_handler s = Statistics_handler st \<and> active_sessions st = - 1"
    by (simp add: mv_stats_events_def mv_broken_events_def mv_demo_reply_def mv_defs pool_size_of_def
        mv_on_accept_def ms_defs ms_init_def mh_created_def mh_process_def mh_closed_def
        stats_process_def stats_created_def stats_closed_def statistics_init_def)
  then show ?thesis by blast
qed

end
