(* ===== verification/Session_Ids.thy ===== *)
theory Session_Ids
  imports Framing
begin

text \<open>
  \<open>SessionIdGenerator::generate\<close>, of the multi-protocol server: the text
  \<open>SESS-<local time>-<counter>\<close>, the counter an atomic \<open>size_t\<close> that starts at zero and is
  padded to six digits. The local time is a parameter of the call. The counter alone makes
  the ids unique until it wraps.
\<close>

definition session_id_text :: "string \<Rightarrow> u64 \<Rightarrow> string" where
  "session_id_text now i = ''SESS-'' @ now @ ''-'' @ zero_pad 6 (to_string (unat i))"

definition generate :: "string \<Rightarrow> u64 \<Rightarrow> string \<times> u64" where
  "generate now counter = (session_id_text now counter, counter + 1)"

text \<open>The ids of successive calls, the first with counter \<open>c\<close>.\<close>

fun generate_all :: "string list \<Rightarrow> u64 \<Rightarrow> string list" where
  "generate_all [] c = []"
| "generate_all (now # ts) c = (let (sid, c') = generate now c in sid # generate_all ts c')"

lemma generate_all_simps [simp]:
  "generate_all (now # ts) c = session_id_text now c # generate_all ts (c + 1)"
  by (simp add: generate_def)

declare generate_all.simps(2) [simp del]

lemma last_dash:
  assumes "a @ CHR ''-'' # x = b @ CHR ''-'' # y" "CHR ''-'' \<notin> set x" "CHR ''-'' \<notin> set y"
  shows "x = y"
proof -
  have "takeWhile (\<lambda>c. c \<noteq> CHR ''-'') (rev x @ CHR ''-'' # rev a)
      = takeWhile (\<lambda>c. c \<noteq> CHR ''-'') (rev y @ CHR ''-'' # rev b)"
    using arg_cong [OF assms(1), of rev] by simp
  then have "rev x = rev y"
    using takeWhile_until [of "CHR ''-''" "rev x" "rev a"] takeWhile_until [of "CHR ''-''" "rev y" "rev b"]
      assms(2,3) by simp
  then show ?thesis by simp
qed

lemma session_id_text_inj:
  assumes "session_id_text t i = session_id_text u j"
  shows "i = j"
proof -
  let ?digits = "\<lambda>k :: u64. zero_pad 6 (to_string (unat k))"
  have "CHR ''-'' \<notin> set (?digits k)" for k
    using zero_pad_digits by blast
  moreover have "(''SESS-'' @ t) @ CHR ''-'' # ?digits i = (''SESS-'' @ u) @ CHR ''-'' # ?digits j"
    using assms by (simp add: session_id_text_def)
  ultimately have "?digits i = ?digits j"
    by (metis last_dash)
  then have "unat i = unat j"
    by (metis numeral_value_to_string numeral_value_zero_pad)
  then show ?thesis
    by (simp add: unsigned_word_eqI)
qed

lemma generate_all_counters:
  "sid \<in> set (generate_all ts c) \<Longrightarrow> \<exists>t k. k < length ts \<and> sid = session_id_text t (c + of_nat k)"
proof (induction ts arbitrary: c)
  case Nil
  then show ?case by simp
next
  case (Cons t ts)
  show ?case
  proof (cases "sid = session_id_text t c")
    case True
    then show ?thesis by (intro exI [of _ t] exI [of _ 0]) simp
  next
    case False
    then have "sid \<in> set (generate_all ts (c + 1))"
      using Cons.prems by simp
    from Cons.IH [OF this] obtain u k where "k < length ts" "sid = session_id_text u (c + 1 + of_nat k)"
      by blast
    then show ?thesis
      by (intro exI [of _ u] exI [of _ "Suc k"]) (simp add: add.assoc)
  qed
qed

lemma of_nat_u64_inj: "i < 2 ^ 64 \<Longrightarrow> of_nat i = (0 :: u64) \<Longrightarrow> i = 0"
  using unat_of_nat_u64 [of i] by simp

lemma generate_all_distinct: "length ts \<le> 2 ^ 64 \<Longrightarrow> distinct (generate_all ts c)"
proof (induction ts arbitrary: c)
  case Nil
  then show ?case by simp
next
  case (Cons t ts)
  have "session_id_text t c \<notin> set (generate_all ts (c + 1))"
  proof
    assume "session_id_text t c \<in> set (generate_all ts (c + 1))"
    then obtain u k where k: "k < length ts" "session_id_text t c = session_id_text u (c + 1 + of_nat k)"
      using generate_all_counters by blast
    then have "of_nat (Suc k) = (0 :: u64)"
      using session_id_text_inj [OF k(2)] by (simp add: algebra_simps)
    then show False
      using of_nat_u64_inj [of "Suc k"] k(1) Cons.prems by simp
  qed
  then show ?case
    using Cons by simp
qed

lemma generate_all_snoc:
  "generate_all (ts @ [t]) c = generate_all ts c @ [session_id_text t (c + of_nat (length ts))]"
  by (induction ts arbitrary: c) (simp_all add: algebra_simps)

text \<open>
  Session ids are unique. The ids of at most \<open>2 ^ 64\<close> successive calls are pairwise
  different, whatever the clock says at each call, also when it runs backwards and beyond
  the six digits of padding.
\<close>

theorem session_ids_distinct:
  assumes "length clocks \<le> 2 ^ 64"
  shows "distinct (generate_all clocks c)"
  by (rule generate_all_distinct [OF assms])

theorem session_ids_distinct_witness:
  "distinct (generate_all [''20240101000000'', ''20240101000000'', ''20231231235959''] 999999)"
  using session_ids_distinct [of "[''20240101000000'', ''20240101000000'', ''20231231235959'']" 999999]
  by simp

end
