(* ===== verification/Protocol_Server.thy ===== *)
theory Protocol_Server
  imports Protocol_Replies Session_Ids "HOL-Library.AList"
begin

text \<open>
  \<open>Server\<close> of the multi-protocol server: the constructor that spawns the worker threads
  before it starts to accept, \<open>do_accept\<close> with its completion handler, \<open>stop\<close>, and the
  configuration of \<open>main\<close>. A worker thread is created, inside \<open>io_context::run\<close>, or has
  left it. Of \<open>run\<close> the model uses what asio documents: it returns at once when the context
  is stopped or has no outstanding work, and stops the context in the second case; an
  exception that a handler throws leaves \<open>run\<close>, which here ends the program, because
  the thread function does not catch it.
\<close>

section \<open>The server\<close>

datatype worker = Created | Running | Exited

record mp_server =
  worker_count :: nat
  workers :: "worker list"
  io_stopped :: bool
  constructed :: bool
  acceptor_open :: bool
  accepting :: bool
  srv_sessions :: "(string \<times> mp_session) list"
  id_counter :: u64

text \<open>The number of threads; \<open>hw\<close> is \<open>hardware_concurrency()\<close>.\<close>

definition worker_count_of :: "nat \<Rightarrow> nat \<Rightarrow> nat" where
  "worker_count_of thread_pool_size hw = (if thread_pool_size > 0 then thread_pool_size else max 1 hw)"

definition mp_server_init :: "nat \<Rightarrow> nat \<Rightarrow> mp_server" where
  "mp_server_init thread_pool_size hw =
     \<lparr>worker_count = worker_count_of thread_pool_size hw, workers = [], io_stopped = False,
      constructed = False, acceptor_open = True, accepting = False, srv_sessions = [], id_counter = 0\<rparr>"

definition mp_do_accept :: "mp_server \<Rightarrow> mp_server" where
  "mp_do_accept s = s\<lparr>accepting := True\<rparr>"

text \<open>One round of the constructor's loop, and its end.\<close>

definition spawn_worker :: "mp_server \<Rightarrow> mp_server" where
  "spawn_worker s = s\<lparr>workers := workers s @ [Created]\<rparr>"

definition finish_constructor :: "mp_server \<Rightarrow> mp_server" where
  "finish_constructor s = mp_do_accept (s\<lparr>constructed := True\<rparr>)"

definition mp_on_accept ::
    "protocol_factory \<Rightarrow> data_handler option \<Rightarrow> bytes \<Rightarrow> string \<Rightarrow> string option \<Rightarrow> error_code
      \<Rightarrow> mp_server \<Rightarrow> mp_server result" where
  "mp_on_accept fac handler mem now peer ec s =
     rbind (if ec_ok ec then
              let (sid, counter) = generate now (id_counter s);
                  s = s\<lparr>id_counter := counter\<rparr>
              in rbind (mp_session_init fac mem handler sid ''detect'') (\<lambda>session.
                 rbind (mp_start peer session) (\<lambda>session.
                 Inr (s\<lparr>srv_sessions := AList.update sid session (srv_sessions s)\<rparr>)))
            else Inr s)
       (\<lambda>s. Inr (if acceptor_open s then mp_do_accept s else s))"

definition mp_server_stop :: "mp_server \<Rightarrow> mp_server" where
  "mp_server_stop s = s\<lparr>acceptor_open := False, io_stopped := True,
     workers := map (\<lambda>w. Exited) (workers s)\<rparr>"

section \<open>Steps\<close>

definition srv_work :: "mp_server \<Rightarrow> bool" where
  "srv_work s \<longleftrightarrow> accepting s
     \<or> list_ex (\<lambda>(sid, x). pending x \<noteq> [] \<or> posted x \<noteq> []) (srv_sessions s)"

text \<open>A worker enters \<open>run\<close>, or leaves it because there is nothing to do.\<close>

definition enter_run :: "nat \<Rightarrow> mp_server \<Rightarrow> mp_server" where
  "enter_run i s =
     (if io_stopped s \<or> \<not> srv_work s
      then s\<lparr>workers := (workers s)[i := Exited], io_stopped := True\<rparr>
      else s\<lparr>workers := (workers s)[i := Running]\<rparr>)"

definition replace_session :: "string \<Rightarrow> mp_session \<Rightarrow> mp_server \<Rightarrow> mp_server" where
  "replace_session sid x s =
     s\<lparr>srv_sessions := map (\<lambda>(k, y). (k, if k = sid then x else y)) (srv_sessions s)\<rparr>"

definition serving :: "mp_server \<Rightarrow> bool" where
  "serving s \<longleftrightarrow> \<not> io_stopped s \<and> Running \<in> set (workers s)"

datatype srv_event =
    SV_spawn
  | SV_constructed
  | SV_enter nat
  | SV_leave nat
  | SV_accepted bytes string "string option" error_code
  | SV_session string mp_event
  | SV_stop

fun srv_step :: "protocol_factory \<Rightarrow> data_handler option \<Rightarrow> srv_event \<Rightarrow> mp_server \<Rightarrow> mp_server outcome" where
  "srv_step fac h SV_spawn s =
     (if length (workers s) < worker_count s \<and> \<not> constructed s then Moves (spawn_worker s) else Disabled)"
| "srv_step fac h SV_constructed s =
     (if length (workers s) = worker_count s \<and> \<not> constructed s then Moves (finish_constructor s)
      else Disabled)"
| "srv_step fac h (SV_enter i) s =
     (if i < length (workers s) \<and> workers s ! i = Created then Moves (enter_run i s) else Disabled)"
| "srv_step fac h (SV_leave i) s =
     (if i < length (workers s) \<and> workers s ! i = Running \<and> (io_stopped s \<or> \<not> srv_work s)
      then Moves (enter_run i s) else Disabled)"
| "srv_step fac h (SV_accepted mem now peer ec) s =
     (if serving s \<and> accepting s
      then outcome_of (mp_on_accept fac h mem now peer ec (s\<lparr>accepting := False\<rparr>)) else Disabled)"
| "srv_step fac h (SV_session sid e) s =
     (if serving s then
        (case map_of (srv_sessions s) sid of
           None \<Rightarrow> Disabled
         | Some x \<Rightarrow>
             (case mp_step fac e x of
                Disabled \<Rightarrow> Disabled | Fails f \<Rightarrow> Fails f
              | Moves y \<Rightarrow> Moves (replace_session sid y s)))
      else Disabled)"
| "srv_step fac h SV_stop s = (if constructed s then Moves (mp_server_stop s) else Disabled)"

text \<open>What \<open>main\<close> builds.\<close>

definition main_registry :: protocol_factory where
  "main_registry = register_protocols Map.empty"

definition main_server :: mp_server where
  "main_server = mp_server_init 4 0"

lemma main_registry_dom:
  "available_protocols main_registry = {''line'', ''fixed-128'', ''fixed-256'', ''binary''}"
  by (auto simp: main_registry_def register_protocols_def register_protocol_def available_protocols_def)

text \<open>Every registered protocol reports the name it is registered under.\<close>

lemma registered_names: "main_registry name = Some p \<Longrightarrow> protocol_name p = name"
  by (auto simp: main_registry_def register_protocols_def register_protocol_def to_string.simps
      digit_chars split: if_splits)

section \<open>The program as it is configured serves nobody\<close>

named_theorems srv_defs

lemmas [srv_defs] = enter_run_def mp_do_accept_def spawn_worker_def finish_constructor_def
  mp_server_stop_def replace_session_def serving_def

lemma mp_on_accept_error:
  "\<not> ec_ok ec \<Longrightarrow> mp_on_accept fac h mem now peer ec s = Inr (if acceptor_open s then mp_do_accept s else s)"
  by (simp add: mp_on_accept_def)

lemma mp_on_accept_unregistered:
  assumes "ec_ok ec" "fac ''detect'' = None"
  shows "mp_on_accept fac h mem now peer ec s = Inl (Throws ''Unsupported protocol: detect'')"
  using assms
  by (simp add: mp_on_accept_def generate_def mp_session_init_def create_protocol_def Let_def)

lemma no_sessions_step:
  assumes "fac ''detect'' = None" "srv_sessions s = []" "srv_step fac h e s = Moves t"
  shows "srv_sessions t = []"
proof (cases e)
  case (SV_accepted mem now peer ec)
  then show ?thesis
    using assms mp_on_accept_unregistered [of ec fac] mp_on_accept_error [of ec fac]
    by (cases "ec_ok ec") (auto simp: srv_defs split: if_splits)
qed (use assms in \<open>auto simp: srv_defs split: if_splits\<close>)

interpretation srv0: step_invariant "srv_step main_registry h" "\<lambda>s. srv_sessions s = []"
  by unfold_locales
    (rule no_sessions_step, simp_all add: main_registry_def register_protocols_def register_protocol_def)

text \<open>
  C39: the configured server never serves anyone. With the protocols \<open>main\<close> registers and
  whatever its data handler, in every state the server can reach there is no session, and the first
  connection that a worker accepts makes the handler throw, because sessions are created
  with the protocol \<open>detect\<close>, which is not registered; nothing catches the exception.
\<close>

theorem main_server_serves_nobody:
  assumes "reachable (srv_step main_registry h) main_server s"
  shows "srv_sessions s = [] \<and> (serving s \<and> accepting s \<longrightarrow>
    srv_step main_registry h (SV_accepted mem now peer success_code) s
      = Fails (Throws ''Unsupported protocol: detect''))"
proof -
  have "main_registry ''detect'' = None"
    by (simp add: main_registry_def register_protocols_def register_protocol_def)
  then show ?thesis
    using srv0.kept_reachable [OF _ assms] mp_on_accept_unregistered [of success_code main_registry]
    by (simp add: main_server_def mp_server_init_def)
qed

definition main_start_events :: "srv_event list" where
  "main_start_events = [SV_spawn, SV_spawn, SV_spawn, SV_spawn, SV_constructed, SV_enter 0]"

theorem main_server_serves_nobody_witness:
  "\<exists>s. run (srv_step main_registry (Some EchoHandler)) main_start_events main_server = Moves s
    \<and> srv_step main_registry (Some EchoHandler) (SV_accepted [] ''t'' (Some ''peer'') success_code) s
      = Fails (Throws ''Unsupported protocol: detect'')"
proof -
  obtain s where s: "run (srv_step main_registry (Some EchoHandler)) main_start_events main_server = Moves s"
      "serving s" "accepting s"
    by (simp add: main_start_events_def main_server_def mp_server_init_def worker_count_of_def
        srv_work_def srv_defs)
  then have "reachable (srv_step main_registry (Some EchoHandler)) main_server s"
    unfolding reachable_iff_run by blast
  from main_server_serves_nobody [OF this] s show ?thesis
    by blast
qed

section \<open>The start of the worker threads\<close>

lemma io_stopped_step:
  assumes "io_stopped s" "srv_step fac h e s = Moves t"
  shows "io_stopped t"
  using assms
  by (cases e) (auto simp: srv_defs split: if_splits option.splits outcome.splits)

interpretation dead: step_invariant "srv_step fac h" io_stopped
  by unfold_locales (rule io_stopped_step)

lemma spawn_all:
  "length (workers s) + k \<le> worker_count s \<Longrightarrow> \<not> constructed s \<Longrightarrow>
   run (srv_step fac h) (replicate k SV_spawn) s = Moves (s\<lparr>workers := workers s @ replicate k Created\<rparr>)"
proof (induction k arbitrary: s)
  case 0
  then show ?case by simp
next
  case (Suc k)
  then show ?case
    using Suc.IH [of "spawn_worker s"] by (simp add: spawn_worker_def)
qed

lemma worker_count_pos: "0 < worker_count_of pool hw"
  by (auto simp: worker_count_of_def max_def)

text \<open>
  The constructor races with its own threads. Whatever the number of threads, the
  server can reach the end of its constructor, with an accept outstanding, in a state from
  which no worker will ever run a handler: it is enough that one thread enters
  \<open>io_context::run\<close> before \<open>do_accept\<close> has given the context any work.
\<close>

theorem startup_can_die:
  "\<exists>es s. run (srv_step fac h) es (mp_server_init pool hw) = Moves s \<and> constructed s \<and> accepting s
    \<and> (\<forall>t. reachable (srv_step fac h) s t \<longrightarrow> \<not> serving t)"
proof -
  let ?n = "worker_count_of pool hw"
  let ?s1 = "(mp_server_init pool hw)\<lparr>workers := [Exited], io_stopped := True\<rparr>"
  let ?s2 = "?s1\<lparr>workers := [Exited] @ replicate (?n - 1) Created\<rparr>"
  let ?s3 = "finish_constructor ?s2"
  have n: "0 < ?n" by (rule worker_count_pos)
  have "run (srv_step fac h) [SV_spawn, SV_enter 0] (mp_server_init pool hw) = Moves ?s1"
    using n by (simp add: mp_server_init_def srv_defs srv_work_def)
  moreover have "run (srv_step fac h) (replicate (?n - 1) SV_spawn) ?s1 = Moves ?s2"
    using spawn_all [of ?s1 "?n - 1" fac h] n by (simp add: mp_server_init_def)
  moreover have "run (srv_step fac h) [SV_constructed] ?s2 = Moves ?s3"
    using n by (simp add: mp_server_init_def)
  ultimately have "run (srv_step fac h)
      (([SV_spawn, SV_enter 0] @ replicate (?n - 1) SV_spawn) @ [SV_constructed]) (mp_server_init pool hw) = Moves ?s3"
    by (simp only: run_append outcome.case)
  moreover have "\<not> serving t" if "reachable (srv_step fac h) ?s3 t" for t
    using dead.kept_reachable [OF _ that] by (simp add: srv_defs)
  moreover have "constructed ?s3" "accepting ?s3"
    by (simp_all add: srv_defs)
  ultimately show ?thesis
    by blast
qed

theorem startup_can_die_witness:
  "\<exists>es s. run (srv_step main_registry (Some EchoHandler)) es main_server = Moves s \<and> accepting s
    \<and> \<not> serving s"
proof -
  obtain es s where s: "run (srv_step main_registry (Some EchoHandler)) es main_server = Moves s"
      "accepting s" "\<forall>t. reachable (srv_step main_registry (Some EchoHandler)) s t \<longrightarrow> \<not> serving t"
    using startup_can_die [of main_registry "Some EchoHandler" 4 0] unfolding main_server_def by metis
  have "\<not> serving s"
    using s(3) reach_start [of "srv_step main_registry (Some EchoHandler)" s] by simp
  with s(1,2) show ?thesis
    by metis
qed

text \<open>The server runs: it is built, not stopped, and waits for a connection.\<close>

definition srv_alive :: "mp_server \<Rightarrow> bool" where
  "srv_alive s \<longleftrightarrow> constructed s \<and> acceptor_open s \<and> accepting s \<and> \<not> io_stopped s"

fun no_stop :: "srv_event \<Rightarrow> bool" where
  "no_stop SV_stop = False"
| "no_stop _ = True"

lemma mp_on_accept_Inr:
  assumes "mp_on_accept fac h mem now peer ec s = Inr t" "ec_ok ec"
  obtains x y where "mp_session_init fac mem h (session_id_text now (id_counter s)) ''detect'' = Inr x"
    and "mp_start peer x = Inr y"
    and "t = (let u = s\<lparr>id_counter := id_counter s + 1,
        srv_sessions := AList.update (session_id_text now (id_counter s)) y (srv_sessions s)\<rparr>
      in if acceptor_open s then mp_do_accept u else u)"
  using assms by (auto simp: mp_on_accept_def generate_def Let_def rbind_Inr_iff)

lemma srv_alive_step:
  assumes "srv_alive s" "no_stop e" "srv_step fac h e s = Moves t"
  shows "srv_alive t"
proof (cases e)
  case (SV_accepted mem now peer ec)
  then have t: "mp_on_accept fac h mem now peer ec (s\<lparr>accepting := False\<rparr>) = Inr t"
    using assms(3) by (auto split: if_splits)
  show ?thesis
  proof (cases "ec_ok ec")
    case True
    obtain x y where "t = (let u = (s\<lparr>accepting := False\<rparr>)\<lparr>id_counter := id_counter s + 1,
        srv_sessions := AList.update (session_id_text now (id_counter s)) y (srv_sessions s)\<rparr>
      in if acceptor_open s then mp_do_accept u else u)"
      using mp_on_accept_Inr [OF t True] by auto
    then show ?thesis
      using assms(1) by (simp add: srv_alive_def srv_defs Let_def)
  next
    case False
    then show ?thesis
      using t assms(1) by (auto simp: mp_on_accept_error srv_alive_def srv_defs)
  qed
qed (use assms in \<open>auto simp: srv_alive_def srv_work_def srv_defs
    split: if_splits option.splits outcome.splits\<close>)

interpretation alive: restricted_invariant "srv_step fac h" no_stop srv_alive
  by unfold_locales (rule srv_alive_step)

text \<open>
  Otherwise it keeps accepting. When no thread enters \<open>run\<close> before the constructor has
  finished, then in every run up to the call of \<open>stop\<close> the context is not stopped and an
  accept is outstanding, through failed accepts and sessions that come and go.
\<close>

theorem server_keeps_accepting:
  assumes "run (srv_step fac h) (replicate (worker_count_of pool hw) SV_spawn @ SV_constructed # es)
      (mp_server_init pool hw) = Moves s"
    and "list_all no_stop es"
  shows "accepting s \<and> acceptor_open s \<and> \<not> io_stopped s"
proof -
  let ?i = "mp_server_init pool hw"
  let ?s = "finish_constructor (?i\<lparr>workers := replicate (worker_count_of pool hw) Created\<rparr>)"
  have "run (srv_step fac h) es ?s = Moves s"
    using assms(1) spawn_all [of ?i "worker_count_of pool hw" fac h]
    by (simp add: run_append mp_server_init_def)
  moreover have "srv_alive ?s"
    by (simp add: srv_alive_def mp_server_init_def srv_defs)
  ultimately have "srv_alive s"
    using alive.kept_by_run assms(2) by blast
  then show ?thesis
    by (simp add: srv_alive_def)
qed

theorem server_keeps_accepting_witness:
  "\<exists>s. run (srv_step main_registry None) main_start_events main_server = Moves s \<and> accepting s"
proof -
  obtain s where s: "run (srv_step main_registry None) main_start_events main_server = Moves s"
    by (simp add: main_start_events_def main_server_def mp_server_init_def worker_count_of_def
        srv_work_def srv_defs)
  moreover have e: "main_start_events = replicate (worker_count_of 4 0) SV_spawn @ SV_constructed # [SV_enter 0]"
    by (simp add: main_start_events_def worker_count_of_def eval_nat_numeral)
  have "accepting s"
    using server_keeps_accepting [OF s [unfolded e main_server_def]] by simp
  ultimately show ?thesis
    by blast
qed

section \<open>The sessions of a server\<close>

text \<open>The clients a run accepts, each with the local time of its acceptance.\<close>

fun srv_client :: "srv_event \<Rightarrow> mp_server \<Rightarrow> string list" where
  "srv_client (SV_accepted mem now peer ec) s = (if ec_ok ec then [now] else [])"
| "srv_client _ s = []"

definition srv_registered :: "string list \<Rightarrow> mp_server \<Rightarrow> bool" where
  "srv_registered h s \<longleftrightarrow> id_counter s = of_nat (length h)
     \<and> (length h \<le> 2 ^ 64 \<longrightarrow> map fst (srv_sessions s) = generate_all h 0)"

lemma srv_registered_accept:
  assumes "srv_registered h s"
    and "t = (let u = s\<lparr>id_counter := id_counter s + 1,
        srv_sessions := AList.update (session_id_text now (id_counter s)) y (srv_sessions s)\<rparr>
      in if acceptor_open s then mp_do_accept u else u)"
  shows "srv_registered (h @ [now]) t"
proof -
  have "map fst (srv_sessions t) = generate_all (h @ [now]) 0" if "length (h @ [now]) \<le> 2 ^ 64"
  proof -
    have "map fst (srv_sessions s) = generate_all h 0"
      using assms(1) that by (simp add: srv_registered_def)
    moreover have "session_id_text now (of_nat (length h)) \<notin> set (generate_all h 0)"
      using generate_all_distinct [OF that, of 0] by (simp add: generate_all_snoc)
    ultimately show ?thesis
      using assms by (simp add: srv_registered_def generate_all_snoc update_keys srv_defs Let_def
          split: if_splits)
  qed
  with assms show ?thesis
    by (auto simp: srv_registered_def srv_defs Let_def)
qed

lemma srv_registered_step:
  assumes "srv_registered h s" "srv_step fac dh e s = Moves t"
  shows "srv_registered (h @ srv_client e s) t"
proof (cases e)
  case (SV_accepted mem now peer ec)
  let ?s = "s\<lparr>accepting := False\<rparr>"
  have t: "mp_on_accept fac dh mem now peer ec ?s = Inr t" and s: "srv_registered h ?s"
    using assms SV_accepted by (auto simp: srv_registered_def split: if_splits)
  show ?thesis
  proof (cases "ec_ok ec")
    case True
    obtain y where "t = (let u = ?s\<lparr>id_counter := id_counter ?s + 1,
        srv_sessions := AList.update (session_id_text now (id_counter ?s)) y (srv_sessions ?s)\<rparr>
      in if acceptor_open ?s then mp_do_accept u else u)"
      using mp_on_accept_Inr [OF t True] by metis
    from srv_registered_accept [OF s this] show ?thesis
      using SV_accepted True by simp
  next
    case False
    then show ?thesis
      using t assms(1) SV_accepted by (auto simp: mp_on_accept_error srv_registered_def srv_defs)
  qed
qed (use assms in \<open>auto simp: srv_registered_def srv_defs comp_def case_prod_unfold
    split: if_splits option.splits outcome.splits\<close>)

interpretation reg: history_invariant "srv_step fac dh" srv_client srv_registered
  by unfold_locales (rule srv_registered_step)

text \<open>
  One session per client, for ever. When the protocol \<open>detect\<close> is registered, after
  any run with at most \<open>2 ^ 64\<close> accepted clients the server holds exactly one session for
  each of them, under pairwise different ids in the order of acceptance; no session leaves
  the map when it ends.
\<close>

theorem server_keeps_sessions:
  assumes "run (srv_step fac dh) es (mp_server_init pool hw) = Moves s"
    and "clients = history (srv_step fac dh) srv_client es (mp_server_init pool hw)"
    and "length clients \<le> 2 ^ 64"
  shows "map fst (srv_sessions s) = generate_all clients 0 \<and> distinct (map fst (srv_sessions s))"
proof -
  have "srv_registered [] (mp_server_init pool hw)"
    by (simp add: srv_registered_def mp_server_init_def)
  from reg.history_run [OF this assms(1)] assms(2,3) generate_all_distinct [OF assms(3), of 0] show ?thesis
    by (simp add: srv_registered_def)
qed

theorem server_keeps_sessions_witness:
  "\<exists>s. run (srv_step [''detect'' \<mapsto> LineProtocolHandler] None) (main_start_events
        @ [SV_accepted [] ''t'' None success_code, SV_accepted [] ''u'' None refused_code,
           SV_accepted [] ''t'' None success_code]) main_server = Moves s
    \<and> map fst (srv_sessions s) = [session_id_text ''t'' 0, session_id_text ''t'' 1]"
proof -
  let ?fac = "[''detect'' \<mapsto> LineProtocolHandler]"
  let ?es = "main_start_events @ [SV_accepted [] ''t'' None success_code, SV_accepted [] ''u'' None refused_code,
           SV_accepted [] ''t'' None success_code]"
  let ?i = "mp_server_init 4 0"
  note defs = main_start_events_def mp_server_init_def worker_count_of_def srv_work_def srv_defs
    mp_on_accept_def generate_def mp_session_init_def create_protocol_def mp_start_def aio_defs Let_def
  have "\<exists>s. run (srv_step ?fac None) ?es ?i = Moves s"
    and h: "history (srv_step ?fac None) srv_client ?es ?i = [''t'', ''t'']"
    by (simp_all add: defs)
  then obtain s where s: "run (srv_step ?fac None) ?es ?i = Moves s"
    by blast
  from server_keeps_sessions [OF s h [symmetric]] s show ?thesis
    by (simp add: main_server_def)
qed

end
