(* ===== verification/Spec2Isabelle.thy ===== *)
theory Spec2Isabelle
  imports Test_Udp Test_Net Test_Async Test_Tcp Connection_Server Tcp_Connection_28 Net_Close Multi_Server
    Protocol_Server
begin

text \<open>
  A verification library for the asio clients and servers of this repository.

  \<^bold>\<open>The program.\<close> Every directory of the repository is a program of its own around one or two
  classes that talk to a socket through asio:
  \<^item> \<^verbatim>\<open>asio-1.10\<close>: \<open>TcpClient\<close> resolves, connects and owns a \<open>TcpConnection\<close>, which
    receives into one \<open>ConnectionBuffer\<close> and sends out of another, and an \<open>AsioTimer\<close> for
    the next attempt.
  \<^item> \<^verbatim>\<open>asio-1.28\<close>: a \<open>TcpClient\<close> rewritten with a status, a queue of messages and a reconnect
    timer; beside it the port of \<open>TcpConnection\<close> and \<open>ConnectionBuffer\<close>.
  \<^item> \<^verbatim>\<open>asio-1.28_async_client\<close>: \<open>AsyncClient\<close>, a client with reconnection and a write queue.
  \<^item> \<^verbatim>\<open>udp-asio-1.28\<close>: \<open>UdpClient\<close>, a thread that takes messages from a queue under a mutex.
  \<^item> \<^verbatim>\<open>asio-1.28_server_single\<close>: an echo server in one thread.
  \<^item> \<^verbatim>\<open>asio-1.28_server_multi\<close>: a server with a pool of \<open>io_context\<close>s and a shared data
    handler (echo, calculator, statistics).
  \<^item> \<^verbatim>\<open>asio-1.28_server_multi_protocol\<close>: a server whose sessions parse a byte stream
    with one of three protocol handlers and give the messages to a data handler.
  The client directories have a \<^verbatim>\<open>test.cpp\<close> each: a program that reads lines from the console and
  sends them (the UDP one sends ten numbers).

  \<^bold>\<open>How code is modelled.\<close> A class is a record with the class's fields; a method, a posted
  lambda and a completion handler is a function on the record. \<open>asio\<close>, the network and the
  operating system are not in the repository: what a handler is given (error codes,
  bytes, whether a socket is open, the remote address) comes with the event, unconstrained
  except by what asio documents (a read stores at most the bytes it was given room for; a
  write that succeeds has written everything). \<open>event \<Rightarrow> state \<Rightarrow> state outcome\<close> is one
  step: a handler runs to its end and moves the state, fails (an exception or undefined
  behaviour, with its reason), or is not enabled. Handlers run in any order their being
  pending permits, each of them whole. Where several threads run the handlers of one object
  (the sessions of the multi-session and of the multi-protocol server) the handlers are also
  modelled access by access, and what is claimed of these sessions is claimed of their threads:
  either no two handlers of a session overlap, as a hypothesis, or it is shown what an overlap
  does. For the UDP client, whose threads share state, one step is one action of one thread.
  The reading, writing and completing of every run is kept in an observation trace. 32-bit and 64-bit
  quantities are words; a \<open>size_t\<close> that only counts bytes of an existing buffer is a \<open>nat\<close>.

  \<^bold>\<open>The theories.\<close>
  \<^item> \<^theory_text>\<open>Prelude\<close>: faults, results with \<open>rbind\<close>, memory operations (\<open>memcpy\<close> that fails on
    overlap, \<open>memmove\<close>), segments of lists and word arithmetic.
  \<^item> \<^theory_text>\<open>Asio_Runtime\<close>: error codes, pending operations, posted tasks, runs, reachability;
    the locales that lift facts about one step to all runs (\<open>restricted_invariant\<close>,
    \<open>step_invariant\<close>, \<open>obliged_history\<close>, \<open>history_invariant\<close>, \<open>ranked_invariant\<close>, \<open>safe_invariant\<close>,
    \<open>step_embedding\<close>).
  \<^item> \<^theory_text>\<open>Byte_Fifo\<close>, \<^theory_text>\<open>Connection_Buffer\<close>: the byte queue as a contract, and \<open>ConnectionBuffer\<close>
    as its implementation: appending on all three branches, receiving, the overlapping
    \<open>memcpy\<close>, the 32-bit growth.
  \<^item> \<^theory_text>\<open>Write_Queue\<close>: the contract of a queue of messages with one write in flight, which four
    classes implement: first in, first out, and no write of an empty queue; and, for the clients
    whose \<open>send\<close> posts a task, the order from the caller to the socket (\<open>ordered_writes\<close>).
  \<^item> \<^theory_text>\<open>Async_Client\<close>: \<open>AsyncClient\<close> (\<^verbatim>\<open>src/async_client.cpp\<close>): order of writes, liveness of an
    opened client, what a failed write and a \<open>close\<close> do.
  \<^item> \<^theory_text>\<open>Tcp_Client\<close>: \<open>TcpClient\<close> of \<^verbatim>\<open>asio-1.28/src/tcp_client.cpp\<close>: order of writes, liveness, and the
    ways in which a lost connection and a stale message break it.
  \<^item> \<^theory_text>\<open>Tcp_Connection\<close>: \<open>TcpConnection\<close> of \<^verbatim>\<open>asio-1.10\<close>: both streams, over buffers that
    asio reads and writes in place; \<^theory_text>\<open>Tcp_Connection_28\<close>: the port, and that it is equivalent.
  \<^item> \<^theory_text>\<open>Asio_Timer\<close>: \<open>AsioTimer\<close>: cyclic and stopped timers.
  \<^item> \<^theory_text>\<open>Worker_Threads\<close>: the handlers of one object run by several threads, one access at a time;
    the contract \<open>worker_handlers\<close> under which they do what whole handlers do as long as none
    starts while another one is under way, for runs, faults and links to a peer.
  \<^item> \<^theory_text>\<open>Net_Client\<close>: \<open>TcpClient\<close> of \<^verbatim>\<open>asio-1.10\<close> over its connections and timers: its connections
    are reachable \<open>TcpConnection\<close>s, when it reconnects, what it loses, what outlives it.
    \<^theory_text>\<open>Net_Stream\<close>: the messages on their way through client, connections and buffers;
    \<^theory_text>\<open>Net_Close\<close>: what \<open>closeClient\<close> ends and what it leaves.
  \<^item> \<^theory_text>\<open>Udp_Client\<close>: \<open>UdpClient\<close> and its \<open>Session\<close>: order of datagrams and what is lost, the mutex, when \<open>stop\<close>
    returns and when it hangs.
  \<^item> \<^theory_text>\<open>Echo_Server\<close>: the echo server, and what each client gets back.
  \<^item> \<^theory_text>\<open>Multi_Session\<close>, \<^theory_text>\<open>Multi_Server\<close>: the data handlers, \<open>Session\<close>, \<open>IOContextPool\<close> and
    \<open>Server\<close> of the multi-session server: the calculator, exact statistics, the use of the
    pool in turn, and that \<open>stop\<close> returns; \<^theory_text>\<open>Multi_Race\<close>: the handlers of a session in its two
    threads, one access at a time: only an overlap can make a session fail, and one that does.
  \<^item> \<^theory_text>\<open>Framing\<close>: abstract stream parsers, and the contract that makes framed messages survive
    any fragmentation.
  \<^item> \<^theory_text>\<open>Protocol_Session\<close>: \<open>ProtocolFactory\<close>, the protocol and data handlers and \<open>Session\<close> of the
    multi-protocol server; \<^theory_text>\<open>Protocol_Lines\<close>, \<^theory_text>\<open>Protocol_Stream\<close>: the scan of the line protocol
    and the refinement of the abstract parser by the session's fixed buffer;
    \<^theory_text>\<open>Protocol_Writes\<close>: its write queue and its safety; \<^theory_text>\<open>Protocol_Exchange\<close>: two ends of a
    protocol; \<^theory_text>\<open>Protocol_Replies\<close>: echoing, the full buffer, the protocol detector;
    \<^theory_text>\<open>Protocol_Race\<close>: the handlers of a session in any number of workers, one access to the
    write queue at a time: safety and replies as long as they do not overlap, and what two
    workers do that run its lambdas at once.
  \<^item> \<^theory_text>\<open>Session_Ids\<close>, \<^theory_text>\<open>Protocol_Server\<close>: \<open>SessionIdGenerator\<close>, \<open>Server\<close> and \<open>main\<close>.

  \<^item> \<^theory_text>\<open>Socket_Link\<close>: two components at the ends of one TCP connection, and that bytes are
    conserved between them; \<^theory_text>\<open>Connection_Link\<close>: two \<open>TcpConnection\<close>s are a pipe;
    \<^theory_text>\<open>Echo_Exchange\<close>, \<^theory_text>\<open>Multi_Link\<close>, \<^theory_text>\<open>Protocol_Link\<close>: \<open>AsyncClient\<close> and the asio-1.28
    \<open>TcpClient\<close> (both a \<open>queue_client\<close>) with a session of the echo server, of the multi-session
    server (in its two threads) and of the multi-protocol server (in any number of workers);
    \<^theory_text>\<open>Connection_Server\<close>: \<open>TcpConnection\<close> with each of them.
  \<^item> \<^theory_text>\<open>Console\<close>: input streams, the \<open>getline\<close> loop of the client tests against its
    specification, and the command loop of the multi-session server, which may not return;
    \<^theory_text>\<open>Test_Program\<close>: the threads the client tests have in common; \<^theory_text>\<open>Test_Async\<close>,
    \<^theory_text>\<open>Test_Tcp\<close>, \<^theory_text>\<open>Test_Net\<close>, \<^theory_text>\<open>Test_Udp\<close>: the four test programs, from the console to the
    socket, and how they end.

  \<^bold>\<open>Bounds.\<close> There is no fuel: every other loop is a recursion that terminates. The rank of the UDP worker
  (at most 4) bounds the transitions in which \<open>stop\<close> completes, and \<open>tt_rank\<close> those in which
  the asio-1.28 test ends. The command loop, which may not return, is a partial function. Hypotheses on sizes
  (\<open>2 ^ 31\<close>, \<open>2 ^ 32 - 4096\<close>) mark where the code's 32-bit arithmetic is exact; outside them
  there are theorems that show what goes wrong.

  \<^bold>\<open>Not modelled.\<close> Console output, allocation failure, time (the order in which waits elapse
  is free), socket options and endpoint queries, data races in the multi-threaded servers other
  than those on the write queue (\<^theory_text>\<open>Multi_Race\<close>, \<^theory_text>\<open>Protocol_Race\<close>), what a failed write had transmitted
  (the wire is the writes that completed), a \<open>close\<close> of a socket that fails, the state an exception
  leaves where it ends the run, a multi-session server that is stopped before its thread has
  entered \<open>run\<close>, the numbers of the
  calculator (\<open>double\<close> and \<open>std::stod\<close> are a parameter), the lifetime of the \<open>Test\<close> objects other
  than where \<^theory_text>\<open>Test_Async\<close> needs it, and races on the pointer \<open>client_\<close> finer than one assignment.
  \<open>NonCopy\<close> (deleted copy operations) and the callback type aliases have nothing that executes.
  The asio-1.10 \<open>ConnectionBuffer\<close> is the same text as the asio-1.28 one and has the same model.
\<close>

end
